(* ===== verification/Prelude.thy ===== *)
theory Prelude
  imports Main "HOL-Library.Word" "HOL-Library.List_Lexorder" "HOL-Library.While_Combinator"
begin

text \<open>
  Shared vocabulary of the development.

  \<^item> The machine types of the C++ sources: \<open>uint32\<close>, \<open>uint64\<close>, \<open>size_t\<close> are words and wrap;
    opaque byte vectors are lists of 8-bit words, ordered lexicographically, as
    \<open>xdr::operator<\<close> and \<open>std::vector\<close> order them; keys and hashes are 256-bit words, whose
    order is the lexicographic order of their big-endian bytes.
  \<^item> Exceptions, aborts and dereferenced null pointers are the left values of a sum;
    \<open>bindE\<close> sequences fallible steps as C++ statements do: the first failure ends the run.
  \<^item> \<open>std::map\<close> is an association list sorted by key and \<open>std::set\<close> a sorted list without
    repetitions, so that iteration visits the elements in the order of the container.
\<close>

section \<open>Machine types\<close>

type_synonym u8 = "8 word"
type_synonym u32 = "32 word"
type_synonym u64 = "64 word"
type_synonym bytes = "u8 list"
type_synonym hash256 = "256 word"

abbreviation UINT32_MAX :: u32 where "UINT32_MAX \<equiv> - 1"
abbreviation UINT64_MAX :: u64 where "UINT64_MAX \<equiv> - 1"

lemma UINT32_MAX_le [simp]: "n \<le> UINT32_MAX" for n :: u32
  by simp

lemma unat_lt_2_32 [simp]: "unat (n :: u32) < 4294967296"
  using unsigned_less [of n] by simp

lemma unat_lt_2_64 [simp]: "unat (n :: u64) < 18446744073709551616"
  using unsigned_less [of n] by simp

lemma unat_le_u32: "unat (n :: u32) \<le> 4294967295"
  using unat_lt_2_32 [of n] by linarith

lemma unat_le_u64: "unat (n :: u64) \<le> 18446744073709551615"
  using unat_lt_2_64 [of n] by linarith

text \<open>Words read as naturals: the two directions used throughout.\<close>

lemma word_less_unat: "a < b \<longleftrightarrow> unat a < unat b" for a b :: "'a::len word"
  by (simp add: word_less_nat_alt)

lemma word_le_unat: "a \<le> b \<longleftrightarrow> unat a \<le> unat b" for a b :: "'a::len word"
  by (simp add: word_le_nat_alt)

lemma unat_UINT32_MAX [simp]: "unat UINT32_MAX = 4294967295"
  by (simp add: unsigned_minus_1_eq_mask mask_eq_exp_minus_1)

lemma unat_UINT64_MAX [simp]: "unat UINT64_MAX = 18446744073709551615"
  by (simp add: unsigned_minus_1_eq_mask mask_eq_exp_minus_1)

lemma unat_of_nat_u32: "n < 4294967296 \<Longrightarrow> unat (of_nat n :: u32) = n"
  by (simp add: unsigned_of_nat take_bit_nat_eq_self)

lemma unat_of_nat_u64: "n < 18446744073709551616 \<Longrightarrow> unat (of_nat n :: u64) = n"
  by (simp add: unsigned_of_nat take_bit_nat_eq_self)

lemma uint_of_nat_u64: "n < 18446744073709551616 \<Longrightarrow> uint (of_nat n :: u64) = int n"
  by (simp add: unsigned_of_nat take_bit_nat_eq_self)

lemma uint_of_int_u64: "0 \<le> x \<Longrightarrow> x < 18446744073709551616 \<Longrightarrow> uint (of_int x :: u64) = x"
  by (simp add: unsigned_of_int take_bit_int_eq_self)

lemma sint_of_nat_u64: "n < 9223372036854775808 \<Longrightarrow> sint (of_nat n :: u64) = int n"
  by (simp add: signed_of_nat signed_take_bit_int_eq_self)

lemma unat_ucast_64_128 [simp]: "unat (ucast (x :: u64) :: 128 word) = unat x"
proof -
  have "unat x < 2 ^ 128" using unat_lt_2_64 [of x] by (rule less_trans) simp
  then show ?thesis by (simp add: unsigned_ucast_eq take_bit_nat_eq_self)
qed

lemma unat_ucast_32_64 [simp]: "unat (ucast (x :: u32) :: u64) = unat x"
proof -
  have "unat x < 2 ^ 64" using unat_lt_2_32 [of x] by (rule less_trans) simp
  then show ?thesis by (simp add: unsigned_ucast_eq take_bit_nat_eq_self)
qed

lemma sint_ucast_of_nat: "n < 2147483648 \<Longrightarrow> sint (ucast (of_nat n :: u64) :: u32) = int n"
  by (simp add: signed_ucast_eq unsigned_of_nat take_bit_nat_eq_self signed_of_nat
      signed_take_bit_int_eq_self)

lemma unat_uminus_u32: "w \<noteq> 0 \<Longrightarrow> unat (- w) = 4294967296 - unat w" for w :: u32
  using unat_sub_if' [of 0 w] by (simp add: unat_eq_zero)

lemma unat_minus_1: "w \<noteq> 0 \<Longrightarrow> unat (w - 1) = unat w - 1" for w :: "'a::len word"
  by (simp add: unat_minus_one)

section \<open>Fallible steps\<close>

text \<open>
  The ways a run of the C++ code ends other than by returning: a failed \<open>dbgAssert\<close> or
  \<open>dbgAbort\<close>, a failed \<open>assert\<close>, a dereferenced null pointer, signed overflow (both undefined
  behaviour), a thrown \<open>std::runtime_error\<close>, \<open>std::overflow_error\<close> or \<open>std::logic_error\<close>, and a
  loop that never ends.
\<close>

datatype cxx_error =
    DbgAbort
  | AssertFail
  | NullDeref
  | SignedOverflow
  | RuntimeError string
  | OverflowError string
  | LogicError string
  | Diverges

named_theorems bind_simps \<open>rules that take a successful run of fallible steps apart\<close>

definition bindE :: "'e + 'a \<Rightarrow> ('a \<Rightarrow> 'e + 'b) \<Rightarrow> 'e + 'b" where
  "bindE m f = (case m of Inl e \<Rightarrow> Inl e | Inr a \<Rightarrow> f a)"

definition assertE :: "bool \<Rightarrow> 'e \<Rightarrow> 'e + unit" where
  "assertE b e = (if b then Inr () else Inl e)"

definition derefE :: "'e \<Rightarrow> 'a option \<Rightarrow> 'e + 'a" where
  "derefE e p = (case p of None \<Rightarrow> Inl e | Some a \<Rightarrow> Inr a)"

lemma bindE_Inl [simp]: "bindE (Inl e) f = Inl e"
  by (simp add: bindE_def)

lemma bindE_Inr [simp]: "bindE (Inr a) f = f a"
  by (simp add: bindE_def)

lemma bindE_assoc: "bindE (bindE m f) g = bindE m (\<lambda>a. bindE (f a) g)"
  by (cases m) auto

lemma bindE_eq_Inr [bind_simps]: "bindE m f = Inr b \<longleftrightarrow> (\<exists>a. m = Inr a \<and> f a = Inr b)"
  by (cases m) auto

lemma bindE_eq_Inl: "bindE m f = Inl e \<longleftrightarrow> m = Inl e \<or> (\<exists>a. m = Inr a \<and> f a = Inl e)"
  by (cases m) auto

lemma bindE_runE:
  "bindE m f = Inr b \<Longrightarrow> (\<And>a. m = Inr a \<Longrightarrow> f a = Inr b \<Longrightarrow> P) \<Longrightarrow> P"
  by (cases m) auto

lemma bindE_runE2:
  "bindE m (\<lambda>(a, c). f a c) = Inr b \<Longrightarrow> (\<And>a c. m = Inr (a, c) \<Longrightarrow> f a c = Inr b \<Longrightarrow> P) \<Longrightarrow> P"
  by (cases m) auto

lemma bindE_cong [fundef_cong]:
  "m = m' \<Longrightarrow> (\<And>a. m' = Inr a \<Longrightarrow> f a = f' a) \<Longrightarrow> bindE m f = bindE m' f'"
  by (cases m') auto

lemma assertE_True [simp]: "assertE True e = Inr ()"
  by (simp add: assertE_def)

lemma assertE_False [simp]: "assertE False e = Inl e"
  by (simp add: assertE_def)

lemma assertE_eq_Inr [bind_simps]: "assertE b e = Inr u \<longleftrightarrow> b"
  by (simp add: assertE_def)

lemma derefE_Some [simp]: "derefE e (Some a) = Inr a"
  by (simp add: derefE_def)

lemma derefE_None [simp]: "derefE e None = Inl e"
  by (simp add: derefE_def)

lemma derefE_eq_Inr [bind_simps]: "derefE e p = Inr a \<longleftrightarrow> p = Some a"
  by (cases p) auto

text \<open>Short-circuit \<open>a || b\<close> and \<open>a && b\<close> where the operands are fallible.\<close>

definition orE :: "'e + bool \<Rightarrow> ('e + bool) \<Rightarrow> 'e + bool" where
  "orE m n = bindE m (\<lambda>b. if b then Inr True else n)"

lemma orE_eq_True: "orE m n = Inr True \<longleftrightarrow> m = Inr True \<or> (m = Inr False \<and> n = Inr True)"
  by (cases m) (auto simp: orE_def)

lemma orE_eq_False [bind_simps]: "orE m n = Inr False \<longleftrightarrow> m = Inr False \<and> n = Inr False"
  by (cases m) (auto simp: orE_def)

section \<open>Ordered maps\<close>

text \<open>\<open>std::map\<close>: \<open>find\<close> is \<^const>\<open>map_of\<close>; insertion keeps the keys ascending.\<close>

type_synonym ('k, 'v) omap = "('k \<times> 'v) list"

fun omap_put :: "'k::linorder \<Rightarrow> 'v \<Rightarrow> ('k, 'v) omap \<Rightarrow> ('k, 'v) omap" where
  "omap_put k v [] = [(k, v)]"
| "omap_put k v ((k', v') # m) =
     (if k = k' then (k, v) # m
      else if k < k' then (k, v) # (k', v') # m
      else (k', v') # omap_put k v m)"

definition omap_erase :: "'k \<Rightarrow> ('k, 'v) omap \<Rightarrow> ('k, 'v) omap" where
  "omap_erase k m = filter (\<lambda>kv. fst kv \<noteq> k) m"

definition omap_ok :: "('k::linorder, 'v) omap \<Rightarrow> bool" where
  "omap_ok m \<longleftrightarrow> sorted_wrt (<) (map fst m)"

lemma omap_ok_Nil [simp]: "omap_ok []"
  by (simp add: omap_ok_def)

lemma map_of_omap_put [simp]: "map_of (omap_put k v m) = (map_of m)(k \<mapsto> v)"
  by (induction m) (auto simp: fun_eq_iff)

lemma fst_omap_put [simp]: "fst ` set (omap_put k v m) = insert k (fst ` set m)"
  by (induction k v m rule: omap_put.induct) auto

lemma omap_ok_put: "omap_ok m \<Longrightarrow> omap_ok (omap_put k v m)"
proof (induction m)
  case Nil
  then show ?case by (simp add: omap_ok_def)
next
  case (Cons kv m)
  obtain k' v' where kv: "kv = (k', v')" by (cases kv)
  have "set (map fst (omap_put k v m)) = insert k (set (map fst m))" by simp
  with Cons kv show ?case
    unfolding omap_ok_def by (auto simp: less_trans)
qed

lemma omap_ok_distinct: "omap_ok m \<Longrightarrow> distinct (map fst m)"
  unfolding omap_ok_def by (induction m) (auto simp: image_iff)

lemma omap_ok_map_of:
  "omap_ok m \<Longrightarrow> map_of m k = Some v \<longleftrightarrow> (k, v) \<in> set m"
  by (rule map_of_eq_Some_iff [OF omap_ok_distinct])

lemma omap_put_mem:
  assumes "omap_ok m"
  shows "(k', v') \<in> set (omap_put k v m) \<longleftrightarrow>
     (if k' = k then v' = v else (k', v') \<in> set m)"
proof -
  have "(k', v') \<in> set (omap_put k v m) \<longleftrightarrow> ((map_of m)(k \<mapsto> v)) k' = Some v'"
    using omap_ok_map_of [OF omap_ok_put [OF assms]] by (metis map_of_omap_put)
  then show ?thesis using omap_ok_map_of [OF assms] by auto
qed

lemma omap_ok_filter: "omap_ok m \<Longrightarrow> omap_ok (filter P m)"
  unfolding omap_ok_def by (induction m) auto

lemma omap_ok_erase: "omap_ok m \<Longrightarrow> omap_ok (omap_erase k m)"
  by (simp add: omap_erase_def omap_ok_filter)

lemma map_of_filter_key: "map_of (filter (\<lambda>kv. P (fst kv)) m) k = (if P k then map_of m k else None)"
  by (induction m) auto

lemma map_of_omap_erase [simp]: "map_of (omap_erase k m) = (map_of m)(k := None)"
  unfolding omap_erase_def fun_eq_iff using map_of_filter_key [of "\<lambda>x. x \<noteq> k" m] by simp

section \<open>Ordered sets\<close>

text \<open>\<open>std::set\<close>: \<open>insert\<close> and \<open>emplace\<close> add an element only when it is absent.\<close>

type_synonym 'a oset = "'a list"

abbreviation oset_insert :: "'a::linorder \<Rightarrow> 'a oset \<Rightarrow> 'a oset" where
  "oset_insert \<equiv> insort_insert"

definition oset_ok :: "'a::linorder oset \<Rightarrow> bool" where
  "oset_ok xs \<longleftrightarrow> sorted xs \<and> distinct xs"

lemma oset_ok_Nil [simp]: "oset_ok []"
  by (simp add: oset_ok_def)

lemma oset_ok_insert [simp]: "oset_ok xs \<Longrightarrow> oset_ok (oset_insert x xs)"
  by (simp add: oset_ok_def sorted_insort_insert distinct_insort_insert)

definition oset_inserts :: "'a::linorder list \<Rightarrow> 'a oset \<Rightarrow> 'a oset" where
  "oset_inserts xs s = fold oset_insert xs s"

lemma oset_inserts_Nil [simp]: "oset_inserts [] s = s"
  by (simp add: oset_inserts_def)

lemma oset_inserts_Cons [simp]: "oset_inserts (x # xs) s = oset_inserts xs (oset_insert x s)"
  by (simp add: oset_inserts_def)

lemma set_oset_inserts [simp]: "set (oset_inserts xs s) = set xs \<union> set s"
  by (induction xs arbitrary: s) (auto simp: set_insort_insert)

lemma oset_ok_inserts [simp]: "oset_ok s \<Longrightarrow> oset_ok (oset_inserts xs s)"
  by (induction xs arbitrary: s) auto

section \<open>Counting the satisfied elements of a list\<close>

definition count_sat :: "('a \<Rightarrow> bool) \<Rightarrow> 'a list \<Rightarrow> nat" where
  "count_sat P xs = length (filter P xs)"

lemma count_sat_Nil [simp]: "count_sat P [] = 0"
  by (simp add: count_sat_def)

lemma count_sat_Cons [simp]: "count_sat P (x # xs) = (if P x then Suc (count_sat P xs) else count_sat P xs)"
  by (simp add: count_sat_def)

lemma count_sat_append [simp]: "count_sat P (xs @ ys) = count_sat P xs + count_sat P ys"
  by (simp add: count_sat_def)

lemma count_sat_le: "count_sat P xs \<le> length xs"
  by (simp add: count_sat_def)

lemma count_sat_mono:
  "(\<And>x. x \<in> set xs \<Longrightarrow> P x \<Longrightarrow> Q x) \<Longrightarrow> count_sat P xs \<le> count_sat Q xs"
  by (induction xs) (auto intro: le_SucI)

lemma count_sat_cong [fundef_cong]:
  "xs = ys \<Longrightarrow> (\<And>x. x \<in> set ys \<Longrightarrow> P x = Q x) \<Longrightarrow> count_sat P xs = count_sat Q ys"
  unfolding count_sat_def by (metis filter_cong)

lemma count_sat_compl: "count_sat P xs + count_sat (\<lambda>x. \<not> P x) xs = length xs"
  by (induction xs) auto

end
