(* ===== verification/SCP_Types.thy ===== *)
theory SCP_Types
  imports Prelude
begin

text \<open>
  The messages of the consensus protocol. Their declarations are XDR (\<open>Stellar-SCP.x\<close>, outside
  this repository); the fields are those the sources under \<open>src/src/scp\<close> read and write, and
  \<open>SCPBallot\<close> has the field order of its constructor \<open>SCPBallot(counter, value)\<close>.
  A ballot is ordered by counter and then by value, as \<open>xdr::operator<\<close> orders a structure.
\<close>

type_synonym NodeID = hash256
type_synonym Hash = hash256
type_synonym Value = bytes

datatype SCPQuorumSet =
  QSet (threshold: u32) (validators: "NodeID list") (innerSets: "SCPQuorumSet list")

datatype SCPBallot = SCPBallot (counter: u32) (bvalue: Value)

text \<open>The default-constructed ballot.\<close>

definition nullBallot :: SCPBallot where
  "nullBallot = SCPBallot 0 []"

record SCPPrepare =
  p_quorumSetHash :: Hash
  p_ballot :: SCPBallot
  p_prepared :: "SCPBallot option"
  p_preparedPrime :: "SCPBallot option"
  p_nC :: u32
  p_nH :: u32

record SCPConfirm =
  c_ballot :: SCPBallot
  c_nPrepared :: u32
  c_nCommit :: u32
  c_nH :: u32
  c_quorumSetHash :: Hash

record SCPExternalize =
  e_commit :: SCPBallot
  e_nH :: u32
  e_commitQuorumSetHash :: Hash

record SCPNomination =
  n_quorumSetHash :: Hash
  n_votes :: "Value list"
  n_accepted :: "Value list"

datatype SCPPledges =
    PREPARE SCPPrepare
  | CONFIRM SCPConfirm
  | EXTERNALIZE SCPExternalize
  | NOMINATE SCPNomination

text \<open>The order of the statement types: PREPARE, CONFIRM, EXTERNALIZE, NOMINATE.\<close>

fun stType :: "SCPPledges \<Rightarrow> nat" where
  "stType (PREPARE _) = 0"
| "stType (CONFIRM _) = 1"
| "stType (EXTERNALIZE _) = 2"
| "stType (NOMINATE _) = 3"

record SCPStatement =
  nodeID :: NodeID
  slotIndex :: u64
  pledges :: SCPPledges

record SCPEnvelope =
  statement :: SCPStatement
  signature :: bytes

section \<open>The order of ballots\<close>

instantiation SCPBallot :: linorder
begin

definition less_eq_SCPBallot :: "SCPBallot \<Rightarrow> SCPBallot \<Rightarrow> bool" where
  "less_eq_SCPBallot a b \<longleftrightarrow>
     counter a < counter b \<or> (counter a = counter b \<and> bvalue a \<le> bvalue b)"

definition less_SCPBallot :: "SCPBallot \<Rightarrow> SCPBallot \<Rightarrow> bool" where
  "less_SCPBallot a b \<longleftrightarrow>
     counter a < counter b \<or> (counter a = counter b \<and> bvalue a < bvalue b)"

instance
proof
  fix x y z :: SCPBallot
  show "(x < y) = (x \<le> y \<and> \<not> y \<le> x)"
    unfolding less_SCPBallot_def less_eq_SCPBallot_def by auto
  show "x \<le> x"
    unfolding less_eq_SCPBallot_def by simp
  show "x \<le> z" if "x \<le> y" "y \<le> z"
    using that unfolding less_eq_SCPBallot_def by (auto dest: less_trans order_trans)
  show "x = y" if "x \<le> y" "y \<le> x"
    using that unfolding less_eq_SCPBallot_def by (cases x; cases y) auto
  show "x \<le> y \<or> y \<le> x"
    unfolding less_eq_SCPBallot_def by auto
qed

end

lemma ballot_less_iff:
  "SCPBallot n v < SCPBallot m w \<longleftrightarrow> n < m \<or> (n = m \<and> v < w)"
  by (simp add: less_SCPBallot_def)

lemma ballot_le_iff:
  "SCPBallot n v \<le> SCPBallot m w \<longleftrightarrow> n < m \<or> (n = m \<and> v \<le> w)"
  by (simp add: less_eq_SCPBallot_def)

lemma ballot_le_counter: "a \<le> b \<Longrightarrow> counter a \<le> counter b"
  by (auto simp: less_eq_SCPBallot_def)

end
