(* ===== verification/Util_Types.thy ===== *)
theory Util_Types
  imports Prelude
begin

unbundle bit_operations_syntax

text \<open>
  The arithmetic and validation helpers of \<open>src/src/util/types.cpp\<close> and \<open>types.h\<close>.
  \<open>uint128_t\<close> is a 128-bit word; its division throws on a zero divisor
  (\<open>lib/util/uint128_t.cpp\<close>). An \<open>int64_t\<close> is an \<open>int\<close>; every operation that can leave the
  64-bit range goes through \<open>chk64\<close>, because signed overflow is undefined behaviour. An
  output parameter of the source is a component of the result. Enumerations declared by XDR
  are given by the list of their values, as \<open>xdr::xdr_traits<E>::enum_values()\<close> does.
\<close>

section \<open>Definitions\<close>

datatype Rounding = ROUND_DOWN | ROUND_UP

definition ONE :: int where
  "ONE = 1000000"

definition INT64_MAX :: int where
  "INT64_MAX = 9223372036854775807"

definition INT64_MIN :: int where
  "INT64_MIN = - 9223372036854775808"

definition chk64 :: "int \<Rightarrow> cxx_error + int" where
  "chk64 x = (if INT64_MIN \<le> x \<and> x \<le> INT64_MAX then Inr x else Inl SignedOverflow)"

definition isZero :: "bytes \<Rightarrow> bool" where
  "isZero b = list_all (\<lambda>i. i = 0) b"

definition hash_xor :: "bytes \<Rightarrow> bytes \<Rightarrow> bytes" where
  "hash_xor l r = map2 (XOR) l r"

definition lessThanXored :: "bytes \<Rightarrow> bytes \<Rightarrow> bytes \<Rightarrow> bool" where
  "lessThanXored l r x = (hash_xor x l < hash_xor x r)"

text \<open>\<open>std::iscntrl\<close> and \<open>std::isalnum\<close> in the C locale, and \<open>tolower\<close>.\<close>

definition iscntrl :: "u8 \<Rightarrow> bool" where
  "iscntrl c \<longleftrightarrow> c < 32 \<or> c = 127"

definition isalnum :: "u8 \<Rightarrow> bool" where
  "isalnum c \<longleftrightarrow> (48 \<le> c \<and> c \<le> 57) \<or> (65 \<le> c \<and> c \<le> 90) \<or> (97 \<le> c \<and> c \<le> 122)"

definition to_lower :: "u8 \<Rightarrow> u8" where
  "to_lower c = (if 65 \<le> c \<and> c \<le> 90 then c + 32 else c)"

text \<open>A \<open>char\<close> is signed: \<open>c < 0\<close> holds for the bytes from 128 on.\<close>

definition isString32Valid :: "bytes \<Rightarrow> bool" where
  "isString32Valid str = list_all (\<lambda>c. \<not> (128 \<le> c \<or> iscntrl c)) str"

definition isAlNum :: "bytes \<Rightarrow> bool" where
  "isAlNum str = list_all (\<lambda>c. \<not> (128 \<le> c \<or> \<not> isalnum c)) str"

definition iequals :: "bytes \<Rightarrow> bytes \<Rightarrow> bool" where
  "iequals a b = (length a = length b \<and> list_all2 (\<lambda>x y. to_lower x = to_lower y) a b)"

definition getAnyFlag :: "u32 list \<Rightarrow> u32" where
  "getAnyFlag enums = fold (\<lambda>e r. r OR e) enums 0"

definition isValidXDRFlag :: "u32 list \<Rightarrow> u32 \<Rightarrow> bool" where
  "isValidXDRFlag enums v = (fold (\<lambda>e r. r AND NOT e) enums v = 0)"

definition isValidEnumValue :: "int list \<Rightarrow> int \<Rightarrow> bool" where
  "isValidEnumValue enums v = (v \<in> set enums)"

definition isSetFlag :: "u32 \<Rightarrow> u32 \<Rightarrow> bool" where
  "isSetFlag v flag = (flag AND v = flag)"

text \<open>
  \<open>bigDivide\<close> for unsigned operands: the result is truncated to 64 bits and the flag says
  whether the exact quotient fits.
\<close>

definition bigDivideU64 :: "u64 \<Rightarrow> u64 \<Rightarrow> u64 \<Rightarrow> Rounding \<Rightarrow> cxx_error + (bool \<times> u64)" where
  "bigDivideU64 A B C rounding =
     (let a = ucast A :: 128 word; b = ucast B :: 128 word; c = ucast C :: 128 word in
      if c = 0 then Inl (RuntimeError ''Error: division or modulus by 0'')
      else let x = (case rounding of ROUND_DOWN \<Rightarrow> (a * b) div c
                                   | ROUND_UP \<Rightarrow> (a * b + c - 1) div c)
           in Inr (x \<le> ucast UINT64_MAX, ucast x))"

definition bigDivideI64 :: "int \<Rightarrow> int \<Rightarrow> int \<Rightarrow> Rounding \<Rightarrow> cxx_error + (bool \<times> int)" where
  "bigDivideI64 A B C rounding =
     (if \<not> (A \<ge> 0 \<and> B \<ge> 0 \<and> C > 0) then Inl AssertFail
      else bindE (bigDivideU64 (of_int A) (of_int B) (of_int C) rounding) (\<lambda>(res, r2).
        if res then Inr (uint r2 \<le> INT64_MAX, sint r2)
        else Inr (False, 0)))"

definition bigDivideThrow :: "int \<Rightarrow> int \<Rightarrow> int \<Rightarrow> Rounding \<Rightarrow> cxx_error + int" where
  "bigDivideThrow A B C rounding =
     bindE (bigDivideI64 A B C rounding) (\<lambda>(ok, res).
       if ok then Inr res
       else Inl (OverflowError ''overflow while performing bigDivide''))"

definition safeSum :: "u64 \<Rightarrow> u64 \<Rightarrow> bool \<times> u64" where
  "safeSum a b = (let result = a + b in (result \<ge> a \<and> result \<ge> b, result))"

fun safeSumList_from :: "u64 \<Rightarrow> u64 list \<Rightarrow> bool \<times> u64" where
  "safeSumList_from result [] = (True, result)"
| "safeSumList_from result (a # params) =
     (let b = result; (ok, result') = safeSum a b in
      if \<not> ok then (False, result') else safeSumList_from result' params)"

definition safeSumList :: "u64 list \<Rightarrow> bool \<times> u64" where
  "safeSumList params = safeSumList_from 0 params"

section \<open>Sums\<close>

lemma safeSum_ok: "fst (safeSum a b) \<longleftrightarrow> unat a + unat b < 2 ^ 64"
proof -
  have "a \<le> a + b \<longleftrightarrow> unat a + unat b < 2 ^ 64"
    using no_olen_add_nat [of a b] by simp
  moreover have "b \<le> a + b \<longleftrightarrow> unat a + unat b < 2 ^ 64"
    using no_olen_add_nat [of b a] by (simp only: add.commute [of a] add.commute [of "unat a"]) simp
  ultimately show ?thesis by (simp add: safeSum_def Let_def)
qed

lemma safeSum_value: "fst (safeSum a b) \<Longrightarrow> unat (snd (safeSum a b)) = unat a + unat b"
  by (simp add: safeSum_ok) (simp add: safeSum_def Let_def unat_word_ariths(1))

lemma safeSumList_from_ok:
  "fst (safeSumList_from r ps) \<longleftrightarrow> unat r + sum_list (map unat ps) < 2 ^ 64"
proof (induction ps arbitrary: r)
  case Nil
  then show ?case by simp
next
  case (Cons a ps)
  show ?case
  proof (cases "fst (safeSum a r)")
    case True
    then show ?thesis
      using Cons.IH [of "snd (safeSum a r)"] safeSum_value [OF True]
      by (simp add: split_beta Let_def add_ac)
  next
    case False
    then show ?thesis using safeSum_ok [of a r]
      by (simp add: split_beta Let_def)
  qed
qed

lemma safeSumList_from_value:
  "fst (safeSumList_from r ps) \<Longrightarrow>
     unat (snd (safeSumList_from r ps)) = unat r + sum_list (map unat ps)"
proof (induction ps arbitrary: r)
  case Nil
  then show ?case by simp
next
  case (Cons a ps)
  then have *: "fst (safeSum a r)" by (auto simp: split_beta Let_def split: if_splits)
  then show ?case
    using Cons.IH [of "snd (safeSum a r)"] Cons.prems safeSum_value [OF *]
    by (simp add: split_beta Let_def)
qed

lemma safeSumList_ok: "fst (safeSumList ps) \<longleftrightarrow> sum_list (map unat ps) < 2 ^ 64"
  by (simp add: safeSumList_def safeSumList_from_ok)

lemma safeSumList_value:
  "fst (safeSumList ps) \<Longrightarrow> unat (snd (safeSumList ps)) = sum_list (map unat ps)"
  unfolding safeSumList_def by (drule safeSumList_from_value) simp

section \<open>Division\<close>

definition exact_quotient :: "Rounding \<Rightarrow> nat \<Rightarrow> nat \<Rightarrow> nat" where
  "exact_quotient r n c = (case r of ROUND_DOWN \<Rightarrow> n div c | ROUND_UP \<Rightarrow> (n + c - 1) div c)"

lemma mult_u64_bound: "unat (a :: u64) * unat (b :: u64) \<le> (2 ^ 64 - 1) * (2 ^ 64 - 1)"
  using unat_le_u64 [of a] unat_le_u64 [of b] by (intro mult_mono) simp_all

lemma unat_mult_128:
  "unat (ucast (a :: u64) * ucast (b :: u64) :: 128 word) = unat a * unat b"
  using mult_u64_bound [of a b] by (simp add: unat_word_ariths(2))

lemma bigDivideU64_exact:
  fixes A B C :: u64 and r :: Rounding
  assumes "C \<noteq> 0"
  defines "q \<equiv> exact_quotient r (unat A * unat B) (unat C)"
  shows "bigDivideU64 A B C r = Inr (q < 2 ^ 64, of_nat q)"
proof -
  let ?a = "ucast A :: 128 word" and ?b = "ucast B :: 128 word" and ?c = "ucast C :: 128 word"
  have c0: "?c \<noteq> 0" using assms(1) unat_ucast_64_128 [of C]
    by (auto simp del: unat_ucast_64_128 simp: unat_eq_zero)
  have C1: "1 \<le> unat C" using assms(1) by (simp add: Suc_leI unat_gt_0)
  have down: "unat ((?a * ?b) div ?c) = unat A * unat B div unat C"
    by (simp add: unat_div unat_mult_128)
  have sum: "unat (?a * ?b + ?c) = unat A * unat B + unat C"
    using mult_u64_bound [of A B] unat_le_u64 [of C]
    by (simp add: unat_word_ariths(1) unat_mult_128)
  then have "?a * ?b + ?c \<noteq> 0" using C1 by (metis add_is_0 not_one_le_zero unat_0)
  then have up: "unat ((?a * ?b + ?c - 1) div ?c) = (unat A * unat B + unat C - 1) div unat C"
    using sum by (simp add: unat_div unat_minus_1)
  define x where "x = (case r of ROUND_DOWN \<Rightarrow> (?a * ?b) div ?c | ROUND_UP \<Rightarrow> (?a * ?b + ?c - 1) div ?c)"
  have x: "unat x = q"
    unfolding x_def q_def exact_quotient_def using down up by (simp split: Rounding.splits)
  have "(x \<le> ucast UINT64_MAX) = (q < 2 ^ 64)"
    by (simp only: word_le_nat_alt unat_ucast_64_128 x unat_UINT64_MAX) auto
  moreover have "(ucast x :: u64) = of_nat (q)"
    unfolding x [symmetric] by (simp add: of_nat_unat)
  ultimately show ?thesis
    using c0 unfolding bigDivideU64_def Let_def x_def by (simp only: if_False)
qed

lemma exact_quotient_down: "0 < c \<Longrightarrow> exact_quotient ROUND_DOWN n c * c \<le> n"
  by (simp add: exact_quotient_def)

lemma exact_quotient_up:
  assumes "0 < c"
  shows "n \<le> exact_quotient ROUND_UP n c * c" "exact_quotient ROUND_UP n c * c < n + c"
proof -
  have "(n + c - 1) div c * c + (n + c - 1) mod c = n + c - 1" by simp
  moreover have "(n + c - 1) mod c < c" using assms by simp
  ultimately show "n \<le> exact_quotient ROUND_UP n c * c" "exact_quotient ROUND_UP n c * c < n + c"
    using assms unfolding exact_quotient_def Rounding.case by linarith+
qed

definition exact_quotient_int :: "Rounding \<Rightarrow> int \<Rightarrow> int \<Rightarrow> int" where
  "exact_quotient_int r n c = (case r of ROUND_DOWN \<Rightarrow> n div c | ROUND_UP \<Rightarrow> (n + c - 1) div c)"

lemma exact_quotient_int_nat:
  assumes "0 < c"
  shows "int (exact_quotient r n c) = exact_quotient_int r (int n) (int c)"
  using assms
  by (cases r) (simp_all add: exact_quotient_def exact_quotient_int_def zdiv_int of_nat_diff)

lemma bigDivideI64_exact:
  fixes A B C :: int and r :: Rounding
  assumes "0 \<le> A" "A \<le> INT64_MAX" "0 \<le> B" "B \<le> INT64_MAX" "0 < C" "C \<le> INT64_MAX"
  defines "q \<equiv> exact_quotient_int r (A * B) C"
  obtains v where "bigDivideI64 A B C r = Inr (q \<le> INT64_MAX, v)" "q \<le> INT64_MAX \<Longrightarrow> v = q"
proof -
  define n where "n = exact_quotient r (nat A * nat B) (nat C)"
  have rd: "unat (of_int X :: u64) = nat X" if "0 \<le> X" "X \<le> INT64_MAX" for X
    using that uint_of_int_u64 [of X] by (simp add: INT64_MAX_def unat_eq_nat_uint)
  have u: "unat (of_int A :: u64) = nat A" "unat (of_int B :: u64) = nat B"
    "unat (of_int C :: u64) = nat C"
    using rd [of A] rd [of B] rd [of C] assms by auto
  have C0: "(of_int C :: u64) \<noteq> 0" using u(3) assms(5) by auto
  have n: "int n = q"
    unfolding n_def q_def using assms exact_quotient_int_nat [of "nat C" r "nat A * nat B"]
    by (simp add: nat_mult_distrib)
  have b: "bigDivideU64 (of_int A) (of_int B) (of_int C) r = Inr (n < 2 ^ 64, of_nat n)"
    using bigDivideU64_exact [OF C0, of "of_int A" "of_int B" r] by (simp add: u n_def)
  show thesis
  proof (cases "n < 2 ^ 64")
    case True
    then have un: "uint (of_nat n :: u64) = int n"
      by (simp add: uint_of_nat_u64)
    then have "bigDivideI64 A B C r = Inr (q \<le> INT64_MAX, sint (of_nat n :: u64))"
      using assms(1,3,5) b True un n by (simp add: bigDivideI64_def)
    moreover have "q \<le> INT64_MAX \<Longrightarrow> sint (of_nat n :: u64) = q"
      using n by (simp add: INT64_MAX_def sint_of_nat_u64)
    ultimately show thesis by (rule that)
  next
    case False
    then have "\<not> q \<le> INT64_MAX" using n by (simp add: INT64_MAX_def)
    moreover have "bigDivideI64 A B C r = Inr (False, 0)"
      using assms(1,3,5) b False by (simp add: bigDivideI64_def)
    ultimately show thesis using that [of 0] by simp
  qed
qed

end
