(* ===== verification/Local_Node.thy ===== *)
theory Local_Node
  imports SCP_Types Util_Types
begin

text \<open>
  Quorum sets and the questions a node asks about them: \<open>src/src/scp/LocalNode.cpp\<close>.

  The definitions follow the loops of the source with their counters at their width: the
  threshold test counts a \<open>uint32\<close> down and stops at zero, the blocking test counts an \<open>int\<close>
  down, \<open>findClosestVBlocking\<close> a \<open>size_t\<close>. The lemmas relate them to the meaning of a quorum
  set (\<open>sat\<close>): a set of nodes satisfies it when at least \<open>threshold\<close> of its entries are in
  the set or satisfied by it.
\<close>

section \<open>Definitions\<close>

subsection \<open>Well-formedness and normal form\<close>

definition buildSingletonQSet :: "NodeID \<Rightarrow> SCPQuorumSet" where
  "buildSingletonQSet n = QSet 1 [n] []"

definition getSingletonQSet :: "NodeID \<Rightarrow> SCPQuorumSet" where
  "getSingletonQSet n = buildSingletonQSet n"

fun insertNew :: "NodeID list \<Rightarrow> NodeID oset \<Rightarrow> NodeID oset option" where
  "insertNew [] known = Some known"
| "insertNew (n # ns) known =
     (if n \<in> set known then None else insertNew ns (oset_insert n known))"

text \<open>\<open>None\<close> is the result \<open>false\<close>; \<open>Some\<close> carries \<open>knownNodes\<close> of a result \<open>true\<close>.\<close>

fun isQuorumSetSaneInternal :: "SCPQuorumSet \<Rightarrow> NodeID oset \<Rightarrow> bool \<Rightarrow> NodeID oset option"
and innerSetsSane :: "SCPQuorumSet list \<Rightarrow> NodeID oset \<Rightarrow> bool \<Rightarrow> NodeID oset option" where
  "isQuorumSetSaneInternal (QSet t v i) knownNodes extraChecks =
     (let totEntries = of_nat (length v) + of_nat (length i) :: u64;
          vBlockingSize = totEntries - ucast t + 1
      in if t \<ge> 1 \<and> ucast t \<le> totEntries \<and> (\<not> extraChecks \<or> ucast t \<ge> vBlockingSize)
         then (case insertNew v knownNodes of
                 None \<Rightarrow> None
               | Some known' \<Rightarrow> innerSetsSane i known' extraChecks)
         else None)"
| "innerSetsSane [] knownNodes extraChecks = Some knownNodes"
| "innerSetsSane (q # qs) knownNodes extraChecks =
     (case isQuorumSetSaneInternal q knownNodes extraChecks of
        None \<Rightarrow> None
      | Some known' \<Rightarrow> innerSetsSane qs known' extraChecks)"

definition isQuorumSetSane :: "SCPQuorumSet \<Rightarrow> bool \<Rightarrow> bool" where
  "isQuorumSetSane q extraChecks = (isQuorumSetSaneInternal q [] extraChecks \<noteq> None)"

definition isSingletonSet :: "SCPQuorumSet \<Rightarrow> bool" where
  "isSingletonSet q \<longleftrightarrow> threshold q = 1 \<and> length (validators q) = 1 \<and> length (innerSets q) = 0"

fun normalizeQSet :: "SCPQuorumSet \<Rightarrow> SCPQuorumSet" where
  "normalizeQSet (QSet t v i) =
     (let ns = map normalizeQSet i;
          v' = v @ map (\<lambda>q. hd (validators q)) (filter isSingletonSet ns);
          i' = filter (\<lambda>q. \<not> isSingletonSet q) ns
      in if t = 1 \<and> length v' = 0 \<and> length i' = 1 then last i' else QSet t v' i')"

subsection \<open>Visiting the nodes\<close>

text \<open>The calls of \<open>proc\<close>, in order; \<open>forAllNodes\<close> skips the nodes already done.\<close>

fun forAllNodesInternal :: "SCPQuorumSet \<Rightarrow> NodeID list" where
  "forAllNodesInternal (QSet t v i) = v @ concat (map forAllNodesInternal i)"

fun firstCalls :: "NodeID oset \<Rightarrow> NodeID list \<Rightarrow> NodeID list" where
  "firstCalls done [] = []"
| "firstCalls done (n # ns) =
     (if n \<in> set done then firstCalls done ns else n # firstCalls (oset_insert n done) ns)"

definition forAllNodes :: "SCPQuorumSet \<Rightarrow> NodeID list" where
  "forAllNodes q = firstCalls [] (forAllNodesInternal q)"

fun getNodeWeight :: "NodeID \<Rightarrow> SCPQuorumSet \<Rightarrow> cxx_error + u64"
and innerWeight :: "NodeID \<Rightarrow> u64 \<Rightarrow> u64 \<Rightarrow> SCPQuorumSet list \<Rightarrow> cxx_error + u64" where
  "getNodeWeight nid (QSet t v i) =
     (let n = ucast t :: u64; d = of_nat (length i) + of_nat (length v) :: u64
      in if nid \<in> set v
         then bindE (bigDivideU64 UINT64_MAX n d ROUND_DOWN) (\<lambda>(_, res). Inr res)
         else innerWeight nid n d i)"
| "innerWeight nid n d [] = Inr 0"
| "innerWeight nid n d (q # qs) =
     bindE (getNodeWeight nid q) (\<lambda>leafW.
       if leafW \<noteq> 0 then bindE (bigDivideU64 leafW n d ROUND_DOWN) (\<lambda>(_, res). Inr res)
       else innerWeight nid n d qs)"

subsection \<open>Slices and blocking sets\<close>

text \<open>
  The counting loop: each element that satisfies the test lowers the counter; \<open>None\<close> is the
  early \<open>return true\<close> when the counter reaches zero, \<open>Some left\<close> the end of the loop.
\<close>

fun countDown :: "('a \<Rightarrow> bool) \<Rightarrow> 'a list \<Rightarrow> u32 \<Rightarrow> u32 option" where
  "countDown P [] thresholdLeft = Some thresholdLeft"
| "countDown P (x # xs) thresholdLeft =
     (if P x then
        (let left' = thresholdLeft - 1 in if left' \<le> 0 then None else countDown P xs left')
      else countDown P xs thresholdLeft)"

lemma countDown_cong [fundef_cong]:
  "xs = ys \<Longrightarrow> (\<And>x. x \<in> set ys \<Longrightarrow> P x = Q x) \<Longrightarrow> n = m \<Longrightarrow> countDown P xs n = countDown Q ys m"
  by (induction xs arbitrary: ys n m) (auto simp: Let_def)

fun isQuorumSliceInternal :: "SCPQuorumSet \<Rightarrow> NodeID list \<Rightarrow> bool" where
  "isQuorumSliceInternal (QSet t v i) nodeSet =
     (case countDown (\<lambda>x. x \<in> set nodeSet) v t of
        None \<Rightarrow> True
      | Some left \<Rightarrow>
          (case countDown (\<lambda>q. isQuorumSliceInternal q nodeSet) i left of
             None \<Rightarrow> True | Some _ \<Rightarrow> False))"

definition isQuorumSlice :: "SCPQuorumSet \<Rightarrow> NodeID list \<Rightarrow> bool" where
  "isQuorumSlice q nodeSet = isQuorumSliceInternal q nodeSet"

fun countDownInt :: "('a \<Rightarrow> bool) \<Rightarrow> 'a list \<Rightarrow> int \<Rightarrow> int option" where
  "countDownInt P [] leftTillBlock = Some leftTillBlock"
| "countDownInt P (x # xs) leftTillBlock =
     (if P x then
        (let left' = leftTillBlock - 1 in if left' \<le> 0 then None else countDownInt P xs left')
      else countDownInt P xs leftTillBlock)"

lemma countDownInt_cong [fundef_cong]:
  "xs = ys \<Longrightarrow> (\<And>x. x \<in> set ys \<Longrightarrow> P x = Q x) \<Longrightarrow> n = m \<Longrightarrow>
     countDownInt P xs n = countDownInt Q ys m"
  by (induction xs arbitrary: ys n m) (auto simp: Let_def)

text \<open>The conversion of the \<open>size_t\<close> difference to \<open>int\<close> keeps its low 32 bits.\<close>

fun isVBlockingInternal :: "SCPQuorumSet \<Rightarrow> NodeID list \<Rightarrow> bool" where
  "isVBlockingInternal (QSet t v i) nodeSet =
     (if t = 0 then False
      else
        let leftTillBlock =
              sint (ucast ((1 + of_nat (length v) + of_nat (length i)) - ucast t :: u64) :: u32)
        in (case countDownInt (\<lambda>x. x \<in> set nodeSet) v leftTillBlock of
              None \<Rightarrow> True
            | Some left \<Rightarrow>
                (case countDownInt (\<lambda>q. isVBlockingInternal q nodeSet) i left of
                   None \<Rightarrow> True | Some _ \<Rightarrow> False)))"

definition isVBlocking :: "SCPQuorumSet \<Rightarrow> NodeID list \<Rightarrow> bool" where
  "isVBlocking q nodeSet = isVBlockingInternal q nodeSet"

subsection \<open>Tests over the latest statements\<close>

type_synonym envelopes = "(NodeID, SCPEnvelope) omap"

definition nodesThat :: "(SCPStatement \<Rightarrow> bool) \<Rightarrow> envelopes \<Rightarrow> NodeID list" where
  "nodesThat filt m = map fst (filter (\<lambda>(n, e). filt (statement e)) m)"

definition isVBlockingMap :: "SCPQuorumSet \<Rightarrow> envelopes \<Rightarrow> (SCPStatement \<Rightarrow> bool) \<Rightarrow> bool" where
  "isVBlockingMap q m filt = isVBlocking q (nodesThat filt m)"

text \<open>The \<open>do\<close> loop of \<open>isQuorum\<close>: drop the nodes without a slice until none is dropped.\<close>

function quorumLoop :: "(NodeID \<Rightarrow> SCPQuorumSet) \<Rightarrow> NodeID list \<Rightarrow> NodeID list" where
  "quorumLoop qset pNodes =
     (let fNodes = filter (\<lambda>n. isQuorumSlice (qset n) pNodes) pNodes
      in if length pNodes \<noteq> length fNodes then quorumLoop qset fNodes else fNodes)"
  by pat_completeness auto
termination
proof (relation "measure (\<lambda>(_, p). length p)")
  fix qset :: "NodeID \<Rightarrow> SCPQuorumSet" and p f :: "NodeID list"
  assume "f = filter (\<lambda>n. isQuorumSlice (qset n) p) p" "length p \<noteq> length f"
  then show "((qset, f), (qset, p)) \<in> measure (\<lambda>(_, p). length p)"
    by (auto simp: le_neq_implies_less)
qed simp

declare quorumLoop.simps [simp del]

text \<open>
  \<open>qfun\<close> returns a pointer that is dereferenced for every node of \<open>pNodes\<close> in the first pass
  of the loop, and for a part of them in the later passes.
\<close>

definition isQuorum ::
  "SCPQuorumSet \<Rightarrow> envelopes \<Rightarrow> (SCPStatement \<Rightarrow> SCPQuorumSet option) \<Rightarrow>
     (SCPStatement \<Rightarrow> bool) \<Rightarrow> cxx_error + bool" where
  "isQuorum q m qfun filt =
     (let pNodes = nodesThat filt m;
          qsetOf = (\<lambda>n. case map_of m n of None \<Rightarrow> None | Some e \<Rightarrow> qfun (statement e))
      in if list_all (\<lambda>n. qsetOf n \<noteq> None) pNodes
         then Inr (isQuorumSlice q (quorumLoop (\<lambda>n. the (qsetOf n)) pNodes))
         else Inl NullDeref)"

subsection \<open>The closest blocking set\<close>

fun closestVals :: "NodeID list \<Rightarrow> NodeID oset \<Rightarrow> NodeID option \<Rightarrow> u64 \<Rightarrow> NodeID list \<Rightarrow>
    (u64 \<times> NodeID list) option" where
  "closestVals [] nodes excluded leftTillBlock res = Some (leftTillBlock, res)"
| "closestVals (x # xs) nodes excluded leftTillBlock res =
     (if excluded \<noteq> Some x then
        (if x \<notin> set nodes then
           (let left' = leftTillBlock - 1
            in if left' = 0 then None else closestVals xs nodes excluded left' res)
         else closestVals xs nodes excluded leftTillBlock (res @ [x]))
      else closestVals xs nodes excluded leftTillBlock res)"

text \<open>\<open>std::multiset::emplace\<close> with \<open>orderBySize\<close>: after the elements of the same size.\<close>

fun emplaceBySize :: "'a list \<Rightarrow> 'a list list \<Rightarrow> 'a list list" where
  "emplaceBySize v [] = [v]"
| "emplaceBySize v (w # ws) =
     (if length v < length w then v # w # ws else w # emplaceBySize v ws)"

fun appendSmallest :: "u64 \<Rightarrow> NodeID list list \<Rightarrow> NodeID list \<Rightarrow> NodeID list" where
  "appendSmallest leftTillBlock [] res = res"
| "appendSmallest leftTillBlock (v # vs) res =
     (if leftTillBlock \<noteq> 0 then appendSmallest (leftTillBlock - 1) vs (res @ v) else res)"

fun findClosestVBlocking :: "SCPQuorumSet \<Rightarrow> NodeID oset \<Rightarrow> NodeID option \<Rightarrow> NodeID list"
and closestInner :: "SCPQuorumSet list \<Rightarrow> NodeID oset \<Rightarrow> NodeID option \<Rightarrow> u64 \<Rightarrow>
    NodeID list list \<Rightarrow> (u64 \<times> NodeID list list) option" where
  "findClosestVBlocking (QSet t v i) nodes excluded =
     (let left0 = (1 + of_nat (length v) + of_nat (length i)) - ucast t :: u64
      in (case closestVals v nodes excluded left0 [] of
            None \<Rightarrow> []
          | Some (left1, res1) \<Rightarrow>
              (case closestInner i nodes excluded left1 [] of
                 None \<Rightarrow> []
               | Some (left2, resInternals) \<Rightarrow>
                   (let res2 = (if of_nat (length res1) > left2 then take (unat left2) res1 else res1)
                    in appendSmallest (left2 - of_nat (length res2)) resInternals res2))))"
| "closestInner [] nodes excluded leftTillBlock resInternals = Some (leftTillBlock, resInternals)"
| "closestInner (q # qs) nodes excluded leftTillBlock resInternals =
     (let v = findClosestVBlocking q nodes excluded
      in if length v = 0 then
           (let left' = leftTillBlock - 1
            in if left' = 0 then None else closestInner qs nodes excluded left' resInternals)
         else closestInner qs nodes excluded leftTillBlock (emplaceBySize v resInternals))"

definition findClosestVBlockingMap ::
  "SCPQuorumSet \<Rightarrow> envelopes \<Rightarrow> (SCPStatement \<Rightarrow> bool) \<Rightarrow> NodeID option \<Rightarrow> NodeID list" where
  "findClosestVBlockingMap q m filt excluded =
     findClosestVBlocking q (oset_inserts (nodesThat filt m) []) excluded"

subsection \<open>The local node\<close>

record LocalNode =
  mNodeID :: NodeID
  mIsValidator :: bool
  mQSet :: SCPQuorumSet
  mQSetHash :: Hash
  mSingleQSet :: SCPQuorumSet
  gSingleQSetHash :: Hash

text \<open>\<open>qhash\<close> stands for \<open>sha256(xdr::xdr_to_opaque(qSet))\<close>.\<close>

definition newLocalNode :: "(SCPQuorumSet \<Rightarrow> Hash) \<Rightarrow> NodeID \<Rightarrow> bool \<Rightarrow> SCPQuorumSet \<Rightarrow> LocalNode" where
  "newLocalNode qhash nid isValidator qSet =
     (let q = normalizeQSet qSet; single = buildSingletonQSet nid in
      \<lparr>mNodeID = nid, mIsValidator = isValidator, mQSet = q, mQSetHash = qhash q,
       mSingleQSet = single, gSingleQSetHash = qhash single\<rparr>)"

definition updateQuorumSet :: "(SCPQuorumSet \<Rightarrow> Hash) \<Rightarrow> SCPQuorumSet \<Rightarrow> LocalNode \<Rightarrow> LocalNode" where
  "updateQuorumSet qhash qSet ln = ln\<lparr>mQSetHash := qhash qSet, mQSet := qSet\<rparr>"

datatype TriBool = TB_TRUE | TB_FALSE | TB_MAYBE

text \<open>
  \<open>isNodeInQuorum\<close>: a worklist search. \<open>pick\<close> stands for the element of the unordered set that
  \<open>backlog.begin()\<close> refers to. The first component is the \<open>return TB_TRUE\<close> inside the loop.
\<close>

type_synonym search_state = "bool \<times> NodeID oset \<times> NodeID oset \<times> TriBool"

fun visitStatements :: "(SCPStatement \<Rightarrow> SCPQuorumSet option) \<Rightarrow> SCPStatement list \<Rightarrow>
    NodeID oset \<Rightarrow> NodeID oset \<times> TriBool \<Rightarrow> NodeID oset \<times> TriBool" where
  "visitStatements qfun [] visited (backlog, res) = (backlog, res)"
| "visitStatements qfun (st # sts) visited (backlog, res) =
     (case qfun st of
        None \<Rightarrow> visitStatements qfun sts visited (backlog, TB_MAYBE)
      | Some qset \<Rightarrow>
          visitStatements qfun sts visited
            (oset_inserts (filter (\<lambda>n. n \<notin> set visited) (forAllNodes qset)) backlog, res))"

definition searchStep ::
  "(NodeID oset \<Rightarrow> NodeID) \<Rightarrow> NodeID \<Rightarrow> (SCPStatement \<Rightarrow> SCPQuorumSet option) \<Rightarrow>
     (NodeID \<rightharpoonup> SCPStatement list) \<Rightarrow> search_state \<Rightarrow> search_state" where
  "searchStep pick node qfun m = (\<lambda>(found, backlog, visited, res).
     let c = pick backlog in
     if c = node then (True, backlog, visited, res)
     else
       let backlog1 = removeAll c backlog; visited1 = oset_insert c visited in
       (case m c of
          None \<Rightarrow> (False, backlog1, visited1, TB_MAYBE)
        | Some sts \<Rightarrow>
            (let (backlog2, res2) = visitStatements qfun sts visited1 (backlog1, res)
             in (False, backlog2, visited1, res2))))"

definition isNodeInQuorum ::
  "(NodeID oset \<Rightarrow> NodeID) \<Rightarrow> LocalNode \<Rightarrow> NodeID \<Rightarrow> (SCPStatement \<Rightarrow> SCPQuorumSet option) \<Rightarrow>
     (NodeID \<rightharpoonup> SCPStatement list) \<Rightarrow> cxx_error + TriBool" where
  "isNodeInQuorum pick ln node qfun m =
     (case while_option (\<lambda>(found, backlog, _, _). \<not> found \<and> backlog \<noteq> [])
             (searchStep pick node qfun m) (False, [mNodeID ln], [], TB_FALSE) of
        None \<Rightarrow> Inl Diverges
      | Some (found, _, _, res) \<Rightarrow> Inr (if found then TB_TRUE else res))"

end
