(* ===== verification/Quorum_Logic.thy ===== *)
theory Quorum_Logic
  imports Local_Node
begin

text \<open>
  What the operations of \<open>Local_Node\<close> compute. \<open>sat q S\<close> is the meaning of a quorum set: the
  nodes of \<open>S\<close> contain a slice of \<open>q\<close>. The threshold test decides \<open>sat\<close>, the blocking test
  its dual, and the loop of \<open>isQuorum\<close> finds the largest set of nodes that is closed under
  slices (the locale \<open>slice_system\<close>, interpreted on the quorum sets of the statements).
\<close>

section \<open>The meaning of a quorum set\<close>

fun sat :: "SCPQuorumSet \<Rightarrow> NodeID set \<Rightarrow> bool" where
  "sat (QSet t v i) S \<longleftrightarrow>
     1 \<le> unat t \<and> unat t \<le> count_sat (\<lambda>x. x \<in> S) v + count_sat (\<lambda>q. sat q S) i"

text \<open>Sizes for which the 32-bit counters of the source do not wrap.\<close>

fun sized :: "SCPQuorumSet \<Rightarrow> bool" where
  "sized (QSet t v i) \<longleftrightarrow> length v + length i < 2147483647 \<and> list_all sized i"

text \<open>Thresholds within the proper range, at every level.\<close>

fun in_range :: "SCPQuorumSet \<Rightarrow> bool" where
  "in_range (QSet t v i) \<longleftrightarrow>
     1 \<le> unat t \<and> unat t \<le> length v + length i \<and> list_all in_range i"

abbreviation qnodes :: "SCPQuorumSet \<Rightarrow> NodeID set" where
  "qnodes q \<equiv> set (forAllNodesInternal q)"

lemma sat_mono: "sat q S \<Longrightarrow> S \<subseteq> T \<Longrightarrow> sat q T"
proof (induction q arbitrary: S T)
  case (QSet t v i)
  have "count_sat (\<lambda>x. x \<in> S) v \<le> count_sat (\<lambda>x. x \<in> T) v"
    using QSet.prems(2) by (intro count_sat_mono) auto
  moreover have "count_sat (\<lambda>q. sat q S) i \<le> count_sat (\<lambda>q. sat q T) i"
    using QSet.IH QSet.prems(2) by (intro count_sat_mono) blast
  ultimately show ?case using QSet.prems(1) by auto
qed

lemma sat_cong: "S \<inter> qnodes q = T \<inter> qnodes q \<Longrightarrow> sat q S \<longleftrightarrow> sat q T"
proof (induction q arbitrary: S T)
  case (QSet t v i)
  have "count_sat (\<lambda>x. x \<in> S) v = count_sat (\<lambda>x. x \<in> T) v"
    using QSet.prems by (intro count_sat_cong) auto
  moreover have "count_sat (\<lambda>q. sat q S) i = count_sat (\<lambda>q. sat q T) i"
    using QSet.prems by (intro count_sat_cong refl QSet.IH) auto
  ultimately show ?case by simp
qed

lemma sat_nodes: "sat q S \<longleftrightarrow> sat q (S \<inter> qnodes q)"
  by (rule sat_cong) auto

section \<open>The threshold test\<close>

lemma countDown_spec:
  assumes "count_sat P xs < 4294967296"
  shows "countDown P xs n =
    (if (if n = 0 then 4294967296 else unat n) \<le> count_sat P xs then None
     else Some (n - of_nat (count_sat P xs)))"
  using assms
proof (induction xs arbitrary: n)
  case Nil
  then show ?case by (simp add: unat_gt_0)
next
  case (Cons x xs)
  show ?case
  proof (cases "P x")
    case False
    then show ?thesis using Cons by simp
  next
    case True
    have le: "n - 1 \<le> 0 \<longleftrightarrow> n = 1" by simp
    show ?thesis
    proof (cases "n = 1")
      case True
      with \<open>P x\<close> show ?thesis by simp
    next
      case False
      have un: "(if n - 1 = 0 then 4294967296 else unat (n - 1)) =
          (if n = 0 then 4294967296 else unat n) - 1"
        using False unat_UINT32_MAX by (cases "n = 0") (auto simp: unat_minus_1)
      have pos: "0 < (if n = 0 then 4294967296 else unat n)" by (simp add: unat_gt_0)
      show ?thesis
        using Cons.IH [of "n - 1"] Cons.prems True False un pos
        by (simp add: Let_def le algebra_simps) linarith
    qed
  qed
qed

lemma isQuorumSliceInternal_sat:
  "sized q \<Longrightarrow> isQuorumSliceInternal q ns \<longleftrightarrow> sat q (set ns)"
proof (induction q)
  case (QSet t v i)
  let ?cv = "count_sat (\<lambda>x. x \<in> set ns) v" and ?ci = "count_sat (\<lambda>q. sat q (set ns)) i"
  have ci: "count_sat (\<lambda>q. isQuorumSliceInternal q ns) i = ?ci"
    using QSet by (intro count_sat_cong) (auto simp: list_all_iff)
  have bnd: "?cv + ?ci < 2147483647"
    using QSet.prems count_sat_le [of "\<lambda>x. x \<in> set ns" v] count_sat_le [of "\<lambda>q. sat q (set ns)" i]
    by simp
  have v: "countDown (\<lambda>x. x \<in> set ns) v t =
      (if (if t = 0 then 4294967296 else unat t) \<le> ?cv then None else Some (t - of_nat ?cv))"
    using bnd by (intro countDown_spec) simp
  have i: "countDown (\<lambda>q. isQuorumSliceInternal q ns) i m =
      (if (if m = 0 then 4294967296 else unat m) \<le> ?ci then None else Some (m - of_nat ?ci))" for m
    using bnd countDown_spec [of "\<lambda>q. isQuorumSliceInternal q ns" i m] unfolding ci by simp
  show ?case
  proof (cases "t = 0")
    case True
    have "(if - of_nat ?cv = (0::u32) then 4294967296 else unat (- of_nat ?cv :: u32)) > ?ci"
    proof (cases "?cv = 0")
      case True
      then show ?thesis using bnd by simp
    next
      case False
      have cv: "unat (of_nat ?cv :: u32) = ?cv" using bnd by (simp add: unat_of_nat_u32)
      with False have "(of_nat ?cv :: u32) \<noteq> 0" by (metis unat_0)
      then have "unat (- of_nat ?cv :: u32) = 4294967296 - ?cv"
        using unat_uminus_u32 cv by simp
      then show ?thesis using False bnd by auto
    qed
    then show ?thesis using True v i bnd by simp
  next
    case False
    show ?thesis
    proof (cases "unat t \<le> ?cv")
      case True
      then show ?thesis using False v by (simp add: Suc_leI unat_gt_0)
    next
      case lt: False
      have "unat (t - of_nat ?cv) = unat t - ?cv"
        using lt bnd by (simp add: unat_sub_if' unat_of_nat_u32)
      then show ?thesis using False lt v i by (auto simp: Suc_leI unat_gt_0 unat_eq_zero)
    qed
  qed
qed

lemma isQuorumSlice_sat: "sized q \<Longrightarrow> isQuorumSlice q ns \<longleftrightarrow> sat q (set ns)"
  by (simp add: isQuorumSlice_def isQuorumSliceInternal_sat)

section \<open>The blocking test\<close>

lemma countDownInt_spec:
  "1 \<le> n \<Longrightarrow> countDownInt P xs n =
    (if n \<le> int (count_sat P xs) then None else Some (n - int (count_sat P xs)))"
proof (induction xs arbitrary: n)
  case Nil
  then show ?case by auto
next
  case (Cons x xs)
  then show ?case using Cons.IH [of "n - 1"] by (auto simp: Let_def)
qed

lemma isVBlockingInternal_sat:
  "sized q \<Longrightarrow> in_range q \<Longrightarrow> isVBlockingInternal q ns \<longleftrightarrow> \<not> sat q (- set ns)"
proof (induction q)
  case (QSet t v i)
  let ?bv = "count_sat (\<lambda>x. x \<in> set ns) v" and ?bi = "count_sat (\<lambda>q. isVBlockingInternal q ns) i"
  let ?sv = "count_sat (\<lambda>x. x \<in> - set ns) v" and ?si = "count_sat (\<lambda>q. sat q (- set ns)) i"
  have v: "?bv + ?sv = length v"
    using count_sat_compl [of "\<lambda>x. x \<in> set ns" v] by (simp only: Compl_iff)
  have "?bi = count_sat (\<lambda>q. \<not> sat q (- set ns)) i"
    using QSet by (intro count_sat_cong) (auto simp: list_all_iff)
  then have i: "?bi + ?si = length i"
    using count_sat_compl [of "\<lambda>q. sat q (- set ns)" i] by simp
  define n where "n = 1 + length v + length i - unat t"
  have t: "1 \<le> unat t" "unat t \<le> length v + length i" using QSet.prems(2) by auto
  have len: "length v + length i < 2147483647" using QSet.prems(1) by simp
  have t': "ucast t = (of_nat (unat t) :: u64)" by (simp add: of_nat_unat)
  have e: "(1 + of_nat (length v) + of_nat (length i)) - ucast t = (of_nat n :: u64)"
    unfolding t' n_def using t by (simp add: of_nat_diff)
  have nb: "n < 2147483648" using len t by (simp add: n_def)
  have left: "sint (ucast ((1 + of_nat (length v) + of_nat (length i)) - ucast t :: u64) :: u32) = int n"
    by (simp only: e sint_ucast_of_nat [OF nb])
  have "1 \<le> n" using t unfolding n_def by linarith
  then have n1: "1 \<le> int n" by linarith
  have "isVBlockingInternal (QSet t v i) ns \<longleftrightarrow> int n \<le> int ?bv + int ?bi"
  proof (cases "int n \<le> int ?bv")
    case True
    then show ?thesis using t n1 left by (auto simp: Let_def countDownInt_spec)
  next
    case False
    then show ?thesis using t n1 left
      by (auto simp: Let_def countDownInt_spec [OF n1] countDownInt_spec [of "int n - int ?bv"])
  qed
  then have vb: "isVBlockingInternal (QSet t v i) ns \<longleftrightarrow> n \<le> ?bv + ?bi"
    by (simp only: of_nat_add [symmetric] of_nat_le_iff)
  have "n \<le> ?bv + ?bi \<longleftrightarrow> \<not> unat t \<le> ?sv + ?si"
    using v i t unfolding n_def by linarith
  then show ?case using t(1) by (simp only: vb sat.simps) simp
qed

text \<open>A set blocks a quorum set exactly when it meets every set that contains a slice of it.\<close>

lemma not_sat_compl_iff:
  "\<not> sat q (- S) \<longleftrightarrow> (\<forall>T. sat q T \<longrightarrow> S \<inter> T \<noteq> {})"
proof
  assume n: "\<not> sat q (- S)"
  show "\<forall>T. sat q T \<longrightarrow> S \<inter> T \<noteq> {}"
  proof (intro allI impI notI)
    fix T assume "sat q T" "S \<inter> T = {}"
    then have "sat q (- S)" by (auto intro: sat_mono)
    with n show False ..
  qed
next
  assume "\<forall>T. sat q T \<longrightarrow> S \<inter> T \<noteq> {}"
  then show "\<not> sat q (- S)" by blast
qed

lemma isVBlocking_sat:
  "sized q \<Longrightarrow> in_range q \<Longrightarrow> isVBlocking q ns \<longleftrightarrow> (\<forall>T. sat q T \<longrightarrow> set ns \<inter> T \<noteq> {})"
  unfolding isVBlocking_def not_sat_compl_iff [symmetric] by (rule isVBlockingInternal_sat)

section \<open>Quorums\<close>

text \<open>
  Slices grow with the set: the only law the quorum search needs. A set is a quorum of a
  system of slices when each of its members has a slice inside it.
\<close>

definition slice_closed :: "('n \<Rightarrow> 'n set \<Rightarrow> bool) \<Rightarrow> 'n set \<Rightarrow> bool" where
  "slice_closed sl U \<longleftrightarrow> (\<forall>n \<in> U. sl n U)"

locale slice_system =
  fixes sl :: "'n \<Rightarrow> 'n set \<Rightarrow> bool"
  assumes slice_mono: "sl n S \<Longrightarrow> S \<subseteq> T \<Longrightarrow> sl n T"
begin

lemma closed_Union: "(\<And>U. U \<in> F \<Longrightarrow> slice_closed sl U) \<Longrightarrow> slice_closed sl (\<Union>F)"
  unfolding slice_closed_def by (blast intro: slice_mono)

lemma closed_survives: "slice_closed sl U \<Longrightarrow> U \<subseteq> P \<Longrightarrow> U \<subseteq> {n \<in> P. sl n P}"
  unfolding slice_closed_def by (blast intro: slice_mono)

lemma closed_union_quorums:
  "slice_closed sl U \<Longrightarrow> slice_closed sl V \<Longrightarrow> slice_closed sl (U \<union> V)"
  unfolding slice_closed_def by (blast intro: slice_mono)

end

interpretation qslices: slice_system "\<lambda>n. sat (qs n)" for qs :: "NodeID \<Rightarrow> SCPQuorumSet"
  by unfold_locales (rule sat_mono)

text \<open>The loop ends in the largest closed subset of the nodes it starts from.\<close>

lemma quorumLoop_greatest:
  assumes "\<And>n. n \<in> set p \<Longrightarrow> sized (qs n)"
  shows "set (quorumLoop qs p) \<subseteq> set p
    \<and> slice_closed (\<lambda>n. sat (qs n)) (set (quorumLoop qs p))
    \<and> (\<forall>U. U \<subseteq> set p \<longrightarrow> slice_closed (\<lambda>n. sat (qs n)) U \<longrightarrow> U \<subseteq> set (quorumLoop qs p))"
  using assms
proof (induction qs p rule: quorumLoop.induct)
  case (1 qs p)
  define f where "f = filter (\<lambda>n. isQuorumSlice (qs n) p) p"
  have f: "set f = {n \<in> set p. sat (qs n) (set p)}"
    unfolding f_def using "1.prems" by (auto simp: isQuorumSlice_sat)
  have keep: "U \<subseteq> set f" if "U \<subseteq> set p" "slice_closed (\<lambda>n. sat (qs n)) U" for U
    using qslices.closed_survives [OF that(2,1)] f by simp
  show ?case
  proof (cases "length p = length f")
    case True
    then have "\<forall>n \<in> set p. isQuorumSlice (qs n) p"
      unfolding f_def using length_filter_less [of _ p "\<lambda>n. isQuorumSlice (qs n) p"] by fastforce
    then have "f = p" unfolding f_def by simp
    moreover have "quorumLoop qs p = f"
      using True by (subst quorumLoop.simps) (simp add: f_def [symmetric] Let_def)
    ultimately show ?thesis
      using f keep by (auto simp: slice_closed_def)
  next
    case False
    then have l: "quorumLoop qs p = quorumLoop qs f"
      by (subst quorumLoop.simps) (simp add: f_def [symmetric] Let_def)
    have sub: "set f \<subseteq> set p" using f by auto
    have "\<And>n. n \<in> set f \<Longrightarrow> sized (qs n)" using "1.prems" sub by blast
    note IH = "1.IH" [OF f_def False this]
    show ?thesis
      unfolding l using IH sub keep by (meson subset_trans)
  qed
qed

definition qsetOfNode :: "envelopes \<Rightarrow> (SCPStatement \<Rightarrow> SCPQuorumSet option) \<Rightarrow> NodeID \<Rightarrow> SCPQuorumSet" where
  "qsetOfNode m qfun n = the (qfun (statement (the (map_of m n))))"

definition quorum_among ::
  "SCPQuorumSet \<Rightarrow> (NodeID \<Rightarrow> SCPQuorumSet) \<Rightarrow> NodeID set \<Rightarrow> bool" where
  "quorum_among q qs P \<longleftrightarrow> (\<exists>U \<subseteq> P. slice_closed (\<lambda>n. sat (qs n)) U \<and> sat q U)"

lemma quorum_among_mono: "quorum_among q qs P \<Longrightarrow> P \<subseteq> P' \<Longrightarrow> quorum_among q qs P'"
  unfolding quorum_among_def by blast

lemma nodesThat_mem:
  "omap_ok m \<Longrightarrow> n \<in> set (nodesThat P m) \<longleftrightarrow> (\<exists>e. map_of m n = Some e \<and> P (statement e))"
  unfolding nodesThat_def using omap_ok_map_of [of m n] by force

lemma isQuorum_iff:
  assumes ok: "omap_ok m" and run: "isQuorum q m qfun filt = Inr b"
    and sz: "sized q" "\<And>st qs. qfun st = Some qs \<Longrightarrow> sized qs"
  shows "b \<longleftrightarrow> quorum_among q (qsetOfNode m qfun) (set (nodesThat filt m))"
proof -
  let ?p = "nodesThat filt m" and ?qs = "qsetOfNode m qfun"
  define qo where "qo n = (case map_of m n of None \<Rightarrow> None | Some e \<Rightarrow> qfun (statement e))" for n
  have all: "\<forall>n \<in> set ?p. qo n \<noteq> None" and b: "b = isQuorumSlice q (quorumLoop (\<lambda>n. the (qo n)) ?p)"
    using run unfolding isQuorum_def qo_def [symmetric] Let_def
    by (auto simp: list_all_iff split: if_splits)
  have qs: "the (qo n) = ?qs n" if "n \<in> set ?p" for n
    using that ok unfolding qo_def qsetOfNode_def by (auto simp: nodesThat_mem)
  have szn: "sized (the (qo n))" if "n \<in> set ?p" for n
    using all that sz(2) unfolding qo_def by (auto split: option.splits)
  note gr = quorumLoop_greatest [of ?p "\<lambda>n. the (qo n)", OF szn]
  have cl: "slice_closed (\<lambda>n. sat (the (qo n))) U \<longleftrightarrow> slice_closed (\<lambda>n. sat (?qs n)) U"
    if "U \<subseteq> set ?p" for U
    using that qs unfolding slice_closed_def by (metis subsetD)
  show ?thesis
    unfolding b isQuorumSlice_sat [OF sz(1)] quorum_among_def
    using gr cl by (meson sat_mono)
qed

lemma isQuorum_total:
  assumes "omap_ok m" "\<And>n e. map_of m n = Some e \<Longrightarrow> filt (statement e) \<Longrightarrow> qfun (statement e) \<noteq> None"
  shows "\<exists>b. isQuorum q m qfun filt = Inr b"
  using assms unfolding isQuorum_def Let_def by (auto simp: list_all_iff nodesThat_mem split: option.splits)

section \<open>Normal form\<close>

lemma sat_singleton: "isSingletonSet q \<Longrightarrow> sat q S \<longleftrightarrow> hd (validators q) \<in> S"
  by (cases q) (auto simp: isSingletonSet_def length_Suc_conv split: if_splits)

lemma count_sat_split:
  "count_sat P xs = count_sat P (filter Q xs) + count_sat P (filter (\<lambda>x. \<not> Q x) xs)"
  by (induction xs) auto

lemma count_sat_map: "count_sat P (map f xs) = count_sat (\<lambda>x. P (f x)) xs"
  by (induction xs) auto

lemma sat_normalizeQSet: "sat (normalizeQSet q) S \<longleftrightarrow> sat q S"
proof (induction q)
  case (QSet t v i)
  define ns where "ns = map normalizeQSet i"
  define v' where "v' = v @ map (\<lambda>q. hd (validators q)) (filter isSingletonSet ns)"
  define i' where "i' = filter (\<lambda>q. \<not> isSingletonSet q) ns"
  have "count_sat (\<lambda>x. x \<in> S) (map (\<lambda>q. hd (validators q)) (filter isSingletonSet ns))
      = count_sat (\<lambda>q. sat q S) (filter isSingletonSet ns)"
    unfolding count_sat_map by (rule count_sat_cong) (auto simp: sat_singleton)
  moreover have "count_sat (\<lambda>q. sat q S) ns = count_sat (\<lambda>q. sat q S) i"
    unfolding ns_def count_sat_map using QSet.IH by (intro count_sat_cong) auto
  ultimately have cnt: "count_sat (\<lambda>x. x \<in> S) v' + count_sat (\<lambda>q. sat q S) i'
      = count_sat (\<lambda>x. x \<in> S) v + count_sat (\<lambda>q. sat q S) i"
    using count_sat_split [of "\<lambda>q. sat q S" ns isSingletonSet] unfolding v'_def i'_def by simp
  have n: "normalizeQSet (QSet t v i) =
      (if t = 1 \<and> length v' = 0 \<and> length i' = 1 then last i' else QSet t v' i')"
    unfolding v'_def i'_def ns_def normalizeQSet.simps Let_def by (rule refl)
  show ?case
  proof (cases "t = 1 \<and> length v' = 0 \<and> length i' = 1")
    case True
    then obtain q where q: "i' = [q]" by (auto simp: length_Suc_conv)
    then have "sat (normalizeQSet (QSet t v i)) S = sat q S" using n True by simp
    then show ?thesis using cnt True q by auto
  next
    case False
    show ?thesis unfolding n if_not_P [OF False] by (simp add: cnt)
  qed
qed

text \<open>Nothing is left to merge: no inner set is a singleton and no level is a mere wrapper.\<close>

fun normal :: "SCPQuorumSet \<Rightarrow> bool" where
  "normal (QSet t v i) \<longleftrightarrow>
     list_all (\<lambda>q. \<not> isSingletonSet q) i \<and> list_all normal i \<and>
     \<not> (t = 1 \<and> length v = 0 \<and> length i = 1)"

lemma normal_normalizeQSet: "normal (normalizeQSet q)"
proof (induction q)
  case (QSet t v i)
  define ns where "ns = map normalizeQSet i"
  have ns: "list_all normal ns" unfolding ns_def using QSet.IH by (simp add: list_all_iff)
  define v' where "v' = v @ map (\<lambda>q. hd (validators q)) (filter isSingletonSet ns)"
  define i' where "i' = filter (\<lambda>q. \<not> isSingletonSet q) ns"
  have i': "list_all normal i'" "list_all (\<lambda>q. \<not> isSingletonSet q) i'"
    using ns unfolding i'_def by (auto simp: list_all_iff)
  have n: "normalizeQSet (QSet t v i) =
      (if t = 1 \<and> length v' = 0 \<and> length i' = 1 then last i' else QSet t v' i')"
    unfolding v'_def i'_def ns_def normalizeQSet.simps Let_def by (rule refl)
  have "normal (last i')" if "length i' = 1"
    using that i'(1) by (auto simp: length_Suc_conv)
  then show ?case using i' unfolding n by simp
qed

lemma normalizeQSet_normal: "normal q \<Longrightarrow> normalizeQSet q = q"
proof (induction q)
  case (QSet t v i)
  then have m: "map normalizeQSet i = i"
    by (intro map_idI) (auto simp: list_all_iff)
  have f: "filter isSingletonSet i = []" "filter (\<lambda>q. \<not> isSingletonSet q) i = i"
    using QSet.prems by (auto simp: list_all_iff filter_empty_conv)
  show ?case using QSet.prems unfolding normalizeQSet.simps Let_def m f by auto
qed

section \<open>Sanity\<close>

lemma insertNew_spec:
  "insertNew ns known = (if distinct ns \<and> set ns \<inter> set known = {}
     then Some (oset_inserts ns known) else None)"
  by (induction ns arbitrary: known) (auto simp: set_insort_insert)

text \<open>With the extra checks the threshold is above one half at every level.\<close>

fun majority :: "SCPQuorumSet \<Rightarrow> bool" where
  "majority (QSet t v i) \<longleftrightarrow> length v + length i < 2 * unat t \<and> list_all majority i"

lemma threshold_range:
  fixes t :: u32
  assumes "length v + length i < 2147483647"
  shows "(t \<ge> 1 \<and> ucast t \<le> (of_nat (length v) + of_nat (length i) :: u64) \<and>
      (\<not> extra \<or> ucast t \<ge> (of_nat (length v) + of_nat (length i) - ucast t + 1 :: u64)))
    \<longleftrightarrow> 1 \<le> unat t \<and> unat t \<le> length v + length i \<and> (extra \<longrightarrow> length v + length i < 2 * unat t)"
proof -
  let ?n = "length v + length i"
  have n: "of_nat (length v) + of_nat (length i) = (of_nat ?n :: u64)" by simp
  have un: "unat (of_nat ?n :: u64) = ?n" using assms by (intro unat_of_nat_u64) simp
  have t1: "t \<ge> 1 \<longleftrightarrow> 1 \<le> unat t" by (simp add: word_le_nat_alt)
  have tn: "ucast t \<le> (of_nat ?n :: u64) \<longleftrightarrow> unat t \<le> ?n"
    by (simp only: word_le_nat_alt unat_ucast_32_64 un)
  have "ucast t \<ge> (of_nat ?n - ucast t + 1 :: u64) \<longleftrightarrow> ?n < 2 * unat t" if "unat t \<le> ?n"
  proof -
    have "(of_nat ?n - ucast t + 1 :: u64) = of_nat (?n - unat t + 1)"
      using that by (simp add: of_nat_diff of_nat_unat)
    moreover have "unat (of_nat (?n - unat t + 1) :: u64) = ?n - unat t + 1"
      using assms by (intro unat_of_nat_u64) simp
    ultimately show ?thesis
      using that by (simp only: word_le_nat_alt unat_ucast_32_64) linarith
  qed
  then show ?thesis unfolding n t1 tn by blast
qed

lemma distinct_append_iff:
  "distinct (xs @ ys) \<longleftrightarrow> distinct xs \<and> distinct ys \<and> set xs \<inter> set ys = {}"
  by auto

lemma sane_internal:
  "sized q \<Longrightarrow> isQuorumSetSaneInternal q known extra =
     (if in_range q \<and> (extra \<longrightarrow> majority q) \<and> distinct (forAllNodesInternal q)
         \<and> qnodes q \<inter> set known = {}
      then Some (oset_inserts (forAllNodesInternal q) known) else None)"
  "list_all sized i \<Longrightarrow> innerSetsSane i known extra =
     (if list_all in_range i \<and> (extra \<longrightarrow> list_all majority i)
         \<and> distinct (concat (map forAllNodesInternal i))
         \<and> set (concat (map forAllNodesInternal i)) \<inter> set known = {}
      then Some (oset_inserts (concat (map forAllNodesInternal i)) known) else None)"
proof (induction q known extra and i known extra rule: isQuorumSetSaneInternal_innerSetsSane.induct)
  case (1 t v i known extra)
  have len: "length v + length i < 2147483647" and szi: "list_all sized i" using "1.prems" by auto
  show ?case
  proof (cases "1 \<le> unat t \<and> unat t \<le> length v + length i \<and> (extra \<longrightarrow> length v + length i < 2 * unat t)")
    case False
    then show ?thesis
      using threshold_range [OF len, of t extra] by (auto simp: Let_def)
  next
    case True
    then have r: "t \<ge> 1 \<and> ucast t \<le> (of_nat (length v) + of_nat (length i) :: u64) \<and>
      (\<not> extra \<or> ucast t \<ge> (of_nat (length v) + of_nat (length i) - ucast t + 1 :: u64))"
      using threshold_range [OF len, of t extra] by blast
    show ?thesis
    proof (cases "distinct v \<and> set v \<inter> set known = {}")
      case False
      then show ?thesis using r by (auto simp: Let_def insertNew_spec)
    next
      case dv: True
      have IH: "innerSetsSane i (oset_inserts v known) extra =
        (if list_all in_range i \<and> (extra \<longrightarrow> list_all majority i)
           \<and> distinct (concat (map forAllNodesInternal i))
           \<and> set (concat (map forAllNodesInternal i)) \<inter> set (oset_inserts v known) = {}
         then Some (oset_inserts (concat (map forAllNodesInternal i)) (oset_inserts v known)) else None)"
        using "1.IH" [OF refl refl r _ szi] dv by (simp add: insertNew_spec)
      have ap: "oset_inserts (v @ xs) known = oset_inserts xs (oset_inserts v known)" for xs
        by (simp add: oset_inserts_def)
      have "isQuorumSetSaneInternal (QSet t v i) known extra = innerSetsSane i (oset_inserts v known) extra"
        using r dv by (simp add: Let_def insertNew_spec)
      also have "\<dots> = (if in_range (QSet t v i) \<and> (extra \<longrightarrow> majority (QSet t v i)) \<and>
            distinct (v @ concat (map forAllNodesInternal i)) \<and>
            set (v @ concat (map forAllNodesInternal i)) \<inter> set known = {}
          then Some (oset_inserts (v @ concat (map forAllNodesInternal i)) known) else None)"
        unfolding IH ap distinct_append_iff using True dv by (intro if_cong refl) auto
      finally show ?thesis by simp
    qed
  qed
next
  case (2 known extra)
  then show ?case by simp
next
  case (3 q qs known extra)
  show ?case
  proof (cases "in_range q \<and> (extra \<longrightarrow> majority q) \<and> distinct (forAllNodesInternal q)
         \<and> qnodes q \<inter> set known = {}")
    case False
    then show ?thesis using "3.IH"(1) "3.prems" by auto
  next
    case True
    let ?k = "oset_inserts (forAllNodesInternal q) known"
    have q: "isQuorumSetSaneInternal q known extra = Some ?k" using "3.IH"(1) "3.prems" True by simp
    have ap: "oset_inserts (forAllNodesInternal q @ xs) known = oset_inserts xs ?k" for xs
      by (simp add: oset_inserts_def)
    have IH: "innerSetsSane qs ?k extra = (if list_all in_range qs \<and> (extra \<longrightarrow> list_all majority qs)
         \<and> distinct (concat (map forAllNodesInternal qs))
         \<and> set (concat (map forAllNodesInternal qs)) \<inter> set ?k = {}
      then Some (oset_inserts (concat (map forAllNodesInternal qs)) ?k) else None)"
      using "3.IH"(2) [OF q] "3.prems" by simp
    show ?thesis
      unfolding innerSetsSane.simps q option.case IH list.map concat.simps ap distinct_append_iff
      using True by (intro if_cong refl) auto
  qed
qed

lemma isQuorumSetSane_iff:
  "sized q \<Longrightarrow> isQuorumSetSane q extra \<longleftrightarrow>
     in_range q \<and> (extra \<longrightarrow> majority q) \<and> distinct (forAllNodesInternal q)"
  by (simp add: isQuorumSetSane_def sane_internal)

text \<open>Any two sets that satisfy a quorum set with majority thresholds share a node.\<close>

lemma count_sat_both:
  "length xs < count_sat P xs + count_sat Q xs \<Longrightarrow> \<exists>x \<in> set xs. P x \<and> Q x"
proof (rule ccontr)
  assume l: "length xs < count_sat P xs + count_sat Q xs" and "\<not> (\<exists>x \<in> set xs. P x \<and> Q x)"
  then have "\<And>x. x \<in> set xs \<Longrightarrow> P x \<Longrightarrow> \<not> Q x" by blast
  then have "count_sat P xs \<le> count_sat (\<lambda>x. \<not> Q x) xs" by (intro count_sat_mono) auto
  with l show False using count_sat_compl [of Q xs] by linarith
qed

lemma majority_intersect:
  "majority q \<Longrightarrow> sat q S \<Longrightarrow> sat q T \<Longrightarrow> S \<inter> T \<noteq> {}"
proof (induction q)
  case (QSet t v i)
  let ?v = "\<lambda>S. count_sat (\<lambda>x. x \<in> S) v" and ?i = "\<lambda>S. count_sat (\<lambda>q. sat q S) i"
  have "length v + length i < (?v S + ?i S) + (?v T + ?i T)"
    using QSet.prems by simp
  then consider "length v < ?v S + ?v T" | "length i < ?i S + ?i T" by linarith
  then show ?case
  proof cases
    case 1
    then show ?thesis using count_sat_both by fastforce
  next
    case 2
    then obtain q where "q \<in> set i" "sat q S" "sat q T" using count_sat_both by blast
    then show ?thesis using QSet.IH QSet.prems(1) by (auto simp: list_all_iff)
  qed
qed

section \<open>The closest blocking set\<close>

lemma closestVals_spec:
  assumes "1 \<le> unat left"
  shows "closestVals xs nodes None left res =
    (let a = count_sat (\<lambda>x. x \<notin> set nodes) xs in
     if unat left \<le> a then None
     else Some (left - of_nat a, res @ filter (\<lambda>x. x \<in> set nodes) xs))"
  using assms
proof (induction xs arbitrary: left res)
  case Nil
  then show ?case by (simp add: Let_def)
next
  case (Cons x xs)
  show ?case
  proof (cases "x \<in> set nodes")
    case True
    then show ?thesis using Cons by (simp add: Let_def)
  next
    case False
    show ?thesis
    proof (cases "left = 1")
      case True
      then show ?thesis using False by (simp add: Let_def)
    next
      case l: False
      then have nz: "left - 1 \<noteq> 0" by simp
      have u: "unat (left - 1) = unat left - 1" using Cons.prems by (intro unat_minus_1) auto
      moreover have "1 \<le> unat (left - 1)" using nz by (simp add: Suc_leI unat_gt_0)
      ultimately show ?thesis
        using Cons.IH [of "left - 1" res] False nz by (simp add: Let_def algebra_simps) linarith
    qed
  qed
qed

lemma set_emplaceBySize [simp]: "set (emplaceBySize v ws) = insert v (set ws)"
  by (induction ws) auto

lemma length_emplaceBySize [simp]: "length (emplaceBySize v ws) = Suc (length ws)"
  by (induction ws) auto

lemma appendSmallest_take:
  "appendSmallest left vs res = res @ concat (take (unat left) vs)"
proof (induction vs arbitrary: left res)
  case (Cons v vs)
  show ?case
  proof (cases "left = 0")
    case False
    then have "unat left = Suc (unat (left - 1))" by (simp add: unat_minus_1 Suc_pred unat_gt_0)
    then show ?thesis using False Cons.IH by simp
  qed simp
qed simp

text \<open>
  What the recursion maintains for the inner sets: the ones already blocked lower the counter,
  the others contribute a non-empty list of live nodes that blocks them.
\<close>

definition blocker :: "NodeID oset \<Rightarrow> SCPQuorumSet \<Rightarrow> NodeID list \<Rightarrow> bool" where
  "blocker nodes q r \<longleftrightarrow> set r \<subseteq> set nodes \<and> (r = [] \<longleftrightarrow> \<not> sat q (set nodes))
     \<and> \<not> sat q (set nodes - set r)"

lemma count_emplaceBySize [simp]: "count_sat P (emplaceBySize v ws) = count_sat P (v # ws)"
  by (induction ws) auto

abbreviation closest :: "NodeID oset \<Rightarrow> SCPQuorumSet \<Rightarrow> NodeID list" where
  "closest nodes q \<equiv> findClosestVBlocking q nodes None"

lemma closestInner_spec:
  assumes "1 \<le> unat left"
    and "\<And>q. q \<in> set i \<Longrightarrow> closest nodes q = [] \<longleftrightarrow> \<not> sat q (set nodes)"
  shows "case closestInner i nodes None left acc of
     None \<Rightarrow> unat left \<le> count_sat (\<lambda>q. \<not> sat q (set nodes)) i
   | Some (left', acc') \<Rightarrow>
       unat left = unat left' + count_sat (\<lambda>q. \<not> sat q (set nodes)) i \<and> 1 \<le> unat left'
       \<and> (\<forall>P. count_sat P acc' = count_sat P acc +
            count_sat (\<lambda>q. sat q (set nodes) \<and> P (closest nodes q)) i)"
  using assms
proof (induction i arbitrary: left acc)
  case Nil
  then show ?case by simp
next
  case (Cons q i)
  show ?case
  proof (cases "sat q (set nodes)")
    case True
    then have "closest nodes q \<noteq> []" using Cons.prems(2) by auto
    then show ?thesis
      using Cons.IH [OF Cons.prems(1), of "emplaceBySize (closest nodes q) acc"] Cons.prems(2) True
      by (auto simp: Let_def split: option.splits)
  next
    case False
    then have e: "closest nodes q = []" using Cons.prems(2) by auto
    show ?thesis
    proof (cases "left = 1")
      case True
      then show ?thesis using e False by (simp add: Let_def)
    next
      case l: False
      have nz: "left \<noteq> 0" using Cons.prems(1) by auto
      have u: "unat (left - 1) = unat left - 1" using nz by (rule unat_minus_1)
      have "1 \<le> unat (left - 1)" using l by (simp add: Suc_leI unat_gt_0)
      then show ?thesis
        using Cons.IH [of "left - 1" acc] Cons.prems e False l u
        by (auto simp: Let_def split: option.splits)
    qed
  qed
qed

text \<open>The list returned: the shortest prefix of the live entries that uses the counter up.\<close>

lemma take_blocks:
  assumes "k \<le> length ws"
    and "\<And>q. q \<in> set i \<Longrightarrow> sat q N \<Longrightarrow> \<not> sat q (N - set (f q))"
    and cnt: "\<And>P. count_sat P ws = count_sat (\<lambda>q. sat q N \<and> P (f q)) i"
    and R: "set (concat (take k ws)) \<subseteq> R"
  shows "count_sat (\<lambda>q. \<not> sat q N) i + k \<le> count_sat (\<lambda>q. \<not> sat q (N - R)) i"
proof -
  let ?P = "\<lambda>w. set w \<subseteq> R"
  have "k \<le> count_sat ?P (take k ws)"
    using R assms(1) unfolding count_sat_def
    by (subst filter_True) auto
  also have "\<dots> \<le> count_sat ?P ws"
    using count_sat_append [of ?P "take k ws" "drop k ws"] by simp
  also have "\<dots> = count_sat (\<lambda>q. sat q N \<and> set (f q) \<subseteq> R) i" by (rule cnt)
  also have "\<dots> \<le> count_sat (\<lambda>q. sat q N \<and> \<not> sat q (N - R)) i"
    using assms(2) by (intro count_sat_mono) (meson Diff_mono order_refl sat_mono)
  finally have "count_sat (\<lambda>q. \<not> sat q N) i + k \<le>
      count_sat (\<lambda>q. \<not> sat q N) i + count_sat (\<lambda>q. sat q N \<and> \<not> sat q (N - R)) i" by simp
  also have "\<dots> \<le> count_sat (\<lambda>q. \<not> sat q (N - R)) i"
    by (induction i) (auto dest: sat_mono [where T = N])
  finally show ?thesis .
qed

lemma set_concat_mem: "(\<And>w. w \<in> set ws \<Longrightarrow> set w \<subseteq> N) \<Longrightarrow> set (concat (take k ws)) \<subseteq> N"
  by (auto dest!: in_set_takeD)

lemma count_sat_True: "count_sat (\<lambda>x. True) xs = length xs"
  by (simp add: count_sat_def)

lemma count_sat_all: "count_sat P xs = length xs \<longleftrightarrow> (\<forall>x \<in> set xs. P x)"
proof (induction xs)
  case (Cons x xs)
  then show ?case using count_sat_le [of P xs] by auto
qed simp

lemma blocked_count:
  assumes "1 \<le> unat t" "unat t \<le> length v + length i"
  shows "\<not> sat (QSet t v i) S \<longleftrightarrow>
    length v + length i + 1 - unat t \<le> count_sat (\<lambda>x. x \<notin> S) v + count_sat (\<lambda>q. \<not> sat q S) i"
  using assms count_sat_compl [of "\<lambda>x. x \<in> S" v] count_sat_compl [of "\<lambda>q. sat q S" i]
  unfolding sat.simps by linarith

lemma count_removed:
  assumes "m \<le> count_sat (\<lambda>x. x \<in> N) v" and "set (take m (filter (\<lambda>x. x \<in> N) v)) \<subseteq> R"
  shows "count_sat (\<lambda>x. x \<notin> N) v + m \<le> count_sat (\<lambda>x. x \<notin> N - R) v"
proof -
  let ?l = "filter (\<lambda>x. x \<in> N) v"
  have "m \<le> count_sat (\<lambda>x. x \<in> R) (take m ?l)"
    using assms unfolding count_sat_def by (subst filter_True) auto
  also have "\<dots> \<le> count_sat (\<lambda>x. x \<in> R) ?l"
    using count_sat_append [of "\<lambda>x. x \<in> R" "take m ?l" "drop m ?l"] by simp
  finally have "count_sat (\<lambda>x. x \<notin> N) v + m \<le>
      count_sat (\<lambda>x. x \<notin> N) v + count_sat (\<lambda>x. x \<in> R) ?l" by simp
  also have "\<dots> \<le> count_sat (\<lambda>x. x \<notin> N - R) v" by (induction v) auto
  finally show ?thesis .
qed

text \<open>One level, after the two loops: \<open>l1\<close> live validators, \<open>ws\<close> the inner lists, \<open>m\<close> the counter.\<close>

lemma closest_level:
  fixes t :: u32 and v :: "NodeID list" and N :: "NodeID set" and ws :: "NodeID list list" and m :: nat
  defines "l1 \<equiv> filter (\<lambda>x. x \<in> N) v"
  defines "r \<equiv> take m l1 @ concat (take (m - length (take m l1)) ws)"
  assumes t: "1 \<le> unat t" "unat t \<le> length v + length i"
    and m: "length v + length i + 1 - unat t =
      m + (count_sat (\<lambda>x. x \<notin> N) v + count_sat (\<lambda>q. \<not> sat q N) i)" "1 \<le> m"
    and f: "\<And>q. q \<in> set i \<Longrightarrow> set (f q) \<subseteq> N \<and> (f q = [] \<longleftrightarrow> \<not> sat q N) \<and> \<not> sat q (N - set (f q))"
    and cnt: "\<And>P. count_sat P ws = count_sat (\<lambda>q. sat q N \<and> P (f q)) i"
  shows "set r \<subseteq> N \<and> r \<noteq> [] \<and> \<not> sat (QSet t v i) (N - set r)"
proof -
  have len: "length ws + count_sat (\<lambda>q. \<not> sat q N) i = length i"
    using cnt [of "\<lambda>_. True"] count_sat_compl [of "\<lambda>q. sat q N" i] by (simp add: count_sat_def)
  have l1: "length l1 + count_sat (\<lambda>x. x \<notin> N) v = length v"
    using count_sat_compl [of "\<lambda>x. x \<in> N" v] unfolding l1_def count_sat_def by simp
  define a where "a = min m (length l1)"
  have a: "length (take m l1) = a" "take m l1 = take a l1" by (auto simp: a_def min_def)
  have k: "m - a \<le> length ws" and mk: "a + (m - a) = m" using m len l1 t unfolding a_def by auto
  have "count_sat (\<lambda>w. set w \<subseteq> N \<and> w \<noteq> []) ws = count_sat (\<lambda>w. True) ws"
    unfolding cnt using f by (intro count_sat_cong) auto
  then have all: "\<forall>w \<in> set ws. set w \<subseteq> N \<and> w \<noteq> []"
    by (simp only: count_sat_True count_sat_all)
  have sub: "set r \<subseteq> N"
    using all set_concat_mem [of ws N] unfolding r_def l1_def by (auto dest!: in_set_takeD)
  have ne: "r \<noteq> []"
  proof (cases "l1 = []")
    case True
    then have "m - a = m" "ws \<noteq> []" using k m by (auto simp: a_def)
    then show ?thesis using all m unfolding r_def a by (cases ws; cases m) auto
  qed (use m in \<open>auto simp: r_def\<close>)
  have "count_sat (\<lambda>x. x \<notin> N) v + a \<le> count_sat (\<lambda>x. x \<notin> N - set r) v"
  proof (rule count_removed)
    show "a \<le> count_sat (\<lambda>x. x \<in> N) v" by (simp add: a_def count_sat_def l1_def)
    show "set (take a (filter (\<lambda>x. x \<in> N) v)) \<subseteq> set r"
      using a(2) unfolding r_def l1_def set_append by simp
  qed
  moreover have "count_sat (\<lambda>q. \<not> sat q N) i + (m - a) \<le> count_sat (\<lambda>q. \<not> sat q (N - set r)) i"
  proof (rule take_blocks [OF k _ cnt])
    show "\<not> sat q (N - set (f q))" if "q \<in> set i" for q using f [OF that] by blast
    show "set (concat (take (m - a) ws)) \<subseteq> set r" unfolding r_def a(1) by simp
  qed
  ultimately have "\<not> sat (QSet t v i) (N - set r)"
    unfolding blocked_count [OF t] using m mk by linarith
  with sub ne show ?thesis by blast
qed

lemma closest_blocker:
  "sized q \<Longrightarrow> in_range q \<Longrightarrow> blocker nodes q (closest nodes q)"
proof (induction q)
  case (QSet t v i)
  let ?N = "set nodes"
  have t: "1 \<le> unat t" "unat t \<le> length v + length i" using QSet.prems(2) by auto
  have IH: "blocker nodes q (closest nodes q)" if "q \<in> set i" for q
    using that QSet by (auto simp: list_all_iff)
  define n where "n = length v + length i + 1 - unat t"
  define left where "left = ((1 + of_nat (length v) + of_nat (length i)) - ucast t :: u64)"
  have "left = of_nat n"
    unfolding left_def n_def using t by (simp add: of_nat_diff of_nat_unat)
  moreover have nb: "1 \<le> n" "n < 2147483648" using t QSet.prems(1) unfolding n_def by auto
  ultimately have left: "unat left = n" using unat_of_nat_u64 [of n] by simp
  define a where "a = count_sat (\<lambda>x. x \<notin> ?N) v"
  define b where "b = count_sat (\<lambda>q. \<not> sat q ?N) i"
  have vals: "closestVals v nodes None left [] =
      (if n \<le> a then None else Some (left - of_nat a, filter (\<lambda>x. x \<in> ?N) v))"
    using closestVals_spec [of left v nodes "[]"] left nb by (simp add: Let_def a_def)
  note c = findClosestVBlocking.simps [of t v i nodes None, folded left_def, unfolded Let_def vals]
  have bc: "\<not> sat (QSet t v i) ?N \<longleftrightarrow> n \<le> a + b"
    unfolding a_def b_def n_def by (rule blocked_count [OF t])
  show ?case
  proof (cases "n \<le> a")
    case True
    then have "closest nodes (QSet t v i) = []" using c by simp
    then show ?thesis using True bc by (simp add: blocker_def)
  next
    case False
    have l1: "unat (left - of_nat a) = n - a"
      using False left nb by (simp add: unat_sub_if' unat_of_nat_u64)
    have ci: "case closestInner i nodes None (left - of_nat a) [] of
       None \<Rightarrow> n - a \<le> b
     | Some (left', ws) \<Rightarrow> n - a = unat left' + b \<and> 1 \<le> unat left'
         \<and> (\<forall>P. count_sat P ws = count_sat (\<lambda>q. sat q ?N \<and> P (closest nodes q)) i)"
    proof -
      have "1 \<le> unat (left - of_nat a)" using False l1 by simp
      moreover have "closest nodes q = [] \<longleftrightarrow> \<not> sat q ?N" if "q \<in> set i" for q
        using IH [OF that] by (simp add: blocker_def)
      ultimately show ?thesis
        using closestInner_spec [of "left - of_nat a" i nodes "[]"]
        unfolding b_def l1 count_sat_Nil add_0 by blast
    qed
    show ?thesis
    proof (cases "closestInner i nodes None (left - of_nat a) []")
      case None
      then have "closest nodes (QSet t v i) = []" using c False by simp
      then show ?thesis using None ci bc False by (simp add: blocker_def)
    next
      case (Some x)
      obtain left2 ws where x: "x = (left2, ws)" by (cases x)
      define m l where "m = unat left2" and "l = filter (\<lambda>x. x \<in> ?N) v"
      have m: "n = m + (a + b)" "1 \<le> m"
        "\<And>P. count_sat P ws = count_sat (\<lambda>q. sat q ?N \<and> P (closest nodes q)) i"
        using ci Some x False by (auto simp: m_def)
      have "length l \<le> length v" unfolding l_def by simp
      then have "length l < 18446744073709551616" using QSet.prems(1) by simp
      then have lu: "unat (of_nat (length l) :: u64) = length l" by (rule unat_of_nat_u64)
      have tk: "(if of_nat (length l) > left2 then take (unat left2) l else l) = take m l"
        unfolding m_def word_less_unat lu by auto
      have "length (take m l) \<le> m" by simp
      then have sb: "unat (left2 - of_nat (length (take m l))) = m - length (take m l)"
        using lu unfolding m_def by (simp add: unat_sub_if' unat_of_nat_u64 min_def)
      have "closest nodes (QSet t v i) = take m l @ concat (take (m - length (take m l)) ws)"
        using c False Some x unfolding l_def [symmetric]
        by (simp add: tk appendSmallest_take sb del: length_take)
      moreover have "set (take m l @ concat (take (m - length (take m l)) ws)) \<subseteq> ?N
          \<and> take m l @ concat (take (m - length (take m l)) ws) \<noteq> []
          \<and> \<not> sat (QSet t v i) (?N - set (take m l @ concat (take (m - length (take m l)) ws)))"
        unfolding l_def using m IH unfolding n_def a_def b_def blocker_def
        by (intro closest_level [OF t, where f = "closest nodes"]) auto
      ultimately show ?thesis using bc m by (auto simp: blocker_def)
    qed
  qed
qed

section \<open>Visiting the nodes and the search for a node\<close>

lemma set_firstCalls: "set (firstCalls d ns) = set ns - set d"
  by (induction d ns rule: firstCalls.induct) (auto simp: set_insort_insert)

lemma distinct_firstCalls: "distinct (firstCalls d ns)"
  by (induction d ns rule: firstCalls.induct) (auto simp: set_firstCalls set_insort_insert)

lemma set_forAllNodes: "set (forAllNodes q) = qnodes q"
  by (simp add: forAllNodes_def set_firstCalls)

lemma distinct_forAllNodes: "distinct (forAllNodes q)"
  by (simp add: forAllNodes_def distinct_firstCalls)

text \<open>The trust graph the search walks, and the nodes whose quorum sets it does not know.\<close>

definition trusts ::
  "(SCPStatement \<Rightarrow> SCPQuorumSet option) \<Rightarrow> (NodeID \<rightharpoonup> SCPStatement list) \<Rightarrow> (NodeID \<times> NodeID) set" where
  "trusts qfun m = {(a, b). \<exists>sts st q. m a = Some sts \<and> st \<in> set sts \<and> qfun st = Some q \<and> b \<in> qnodes q}"

definition unknown_node ::
  "(SCPStatement \<Rightarrow> SCPQuorumSet option) \<Rightarrow> (NodeID \<rightharpoonup> SCPStatement list) \<Rightarrow> NodeID \<Rightarrow> bool" where
  "unknown_node qfun m a \<longleftrightarrow>
     (case m a of None \<Rightarrow> True | Some sts \<Rightarrow> list_ex (\<lambda>st. qfun st = None) sts)"

lemma visitStatements_spec:
  "visitStatements qfun sts vis (b, r) = (b', r') \<Longrightarrow>
     set b' = set b \<union> (\<Union>st \<in> set sts. case qfun st of None \<Rightarrow> {} | Some q \<Rightarrow> qnodes q - set vis)
     \<and> r' = (if list_ex (\<lambda>st. qfun st = None) sts then TB_MAYBE else r)"
proof (induction sts arbitrary: b r)
  case (Cons st sts)
  show ?case
  proof (cases "qfun st")
    case None
    then show ?thesis using Cons.prems Cons.IH [of b TB_MAYBE] by auto
  next
    case (Some q)
    then show ?thesis using Cons.prems
      by (auto dest!: Cons.IH simp: set_forAllNodes)
  qed
qed simp

definition search_inv ::
  "NodeID \<Rightarrow> NodeID \<Rightarrow> (SCPStatement \<Rightarrow> SCPQuorumSet option) \<Rightarrow> (NodeID \<rightharpoonup> SCPStatement list) \<Rightarrow>
     search_state \<Rightarrow> bool" where
  "search_inv self node qfun m = (\<lambda>(found, backlog, visited, res).
     self \<in> set visited \<union> set backlog \<and> set visited \<inter> set backlog = {} \<and>
     (\<forall>x \<in> set visited \<union> set backlog. (self, x) \<in> (trusts qfun m)\<^sup>*) \<and>
     (\<forall>x \<in> set visited. \<forall>y. (x, y) \<in> trusts qfun m \<longrightarrow> y \<in> set visited \<union> set backlog) \<and>
     node \<notin> set visited \<and> (found \<longrightarrow> node \<in> set backlog) \<and>
     res = (if \<exists>x \<in> set visited. unknown_node qfun m x then TB_MAYBE else TB_FALSE))"

lemma search_inv_step:
  assumes inv: "search_inv self node qfun m (False, b, v, r)" and c: "pick b \<in> set b"
    and step: "searchStep pick node qfun m (False, b, v, r) = (f', b', v', r')"
  shows "search_inv self node qfun m (f', b', v', r')
    \<and> (f' \<or> (set v' = insert (pick b) (set v) \<and> pick b \<notin> set v))"
proof (cases "pick b = node")
  case True
  then show ?thesis using assms by (auto simp: searchStep_def Let_def search_inv_def)
next
  case False
  let ?c = "pick b" and ?T = "trusts qfun m"
  have cv: "?c \<notin> set v" "(self, ?c) \<in> ?T\<^sup>*" using inv c by (auto simp: search_inv_def)
  have v': "set v' = insert ?c (set v)" and f': "\<not> f'"
    using step False by (auto simp: searchStep_def Let_def set_insort_insert
        split: option.splits prod.splits)
  have b': "set b' = (set b - {?c}) \<union> ({y. (?c, y) \<in> ?T} - set v')"
    and r': "r' = (if unknown_node qfun m ?c then TB_MAYBE else r)"
    using step False v'
    by (auto simp: searchStep_def Let_def trusts_def unknown_node_def set_insort_insert
        dest!: visitStatements_spec split: option.splits prod.splits)
  have reach: "(self, y) \<in> ?T\<^sup>*" if "(?c, y) \<in> ?T" for y
    using cv(2) that by (rule rtrancl_into_rtrancl)
  show ?thesis
    using inv cv f' reach False c unfolding search_inv_def prod.case v' b' r'
    by auto
qed

definition reaches ::
  "NodeID \<Rightarrow> NodeID \<Rightarrow> (SCPStatement \<Rightarrow> SCPQuorumSet option) \<Rightarrow> (NodeID \<rightharpoonup> SCPStatement list) \<Rightarrow> TriBool" where
  "reaches self node qfun m =
     (if (self, node) \<in> (trusts qfun m)\<^sup>* then TB_TRUE
      else if \<exists>x. (self, x) \<in> (trusts qfun m)\<^sup>* \<and> unknown_node qfun m x then TB_MAYBE
      else TB_FALSE)"

lemma search_inv_final:
  assumes inv: "search_inv self node qfun m (f, b, v, r)" and fin: "f \<or> b = []"
  shows "(if f then TB_TRUE else r) = reaches self node qfun m"
proof (cases f)
  case True
  then show ?thesis using inv by (auto simp: search_inv_def reaches_def)
next
  case False
  then have b: "b = []" using fin by simp
  have I: "self \<in> set v" "\<forall>x \<in> set v. (self, x) \<in> (trusts qfun m)\<^sup>*" "node \<notin> set v"
    "\<forall>x \<in> set v. \<forall>y. (x, y) \<in> trusts qfun m \<longrightarrow> y \<in> set v"
    "r = (if \<exists>x \<in> set v. unknown_node qfun m x then TB_MAYBE else TB_FALSE)"
    using inv unfolding search_inv_def prod.case b list.set(1) Un_empty_right by blast+
  have "x \<in> set v" if "(self, x) \<in> (trusts qfun m)\<^sup>*" for x
    using that by (induction rule: rtrancl_induct) (use I(1,4) in blast)+
  then have v: "x \<in> set v \<longleftrightarrow> (self, x) \<in> (trusts qfun m)\<^sup>*" for x using I(2) by blast
  have "(\<exists>x \<in> set v. unknown_node qfun m x) \<longleftrightarrow>
      (\<exists>x. (self, x) \<in> (trusts qfun m)\<^sup>* \<and> unknown_node qfun m x)"
    using v by blast
  then show ?thesis using I(3) False unfolding reaches_def I(5) v by simp
qed

lemma isNodeInQuorum_reaches:
  assumes pick: "\<And>b. b \<noteq> [] \<Longrightarrow> pick b \<in> set b"
  shows "isNodeInQuorum pick ln node qfun m = Inr (reaches (mNodeID ln) node qfun m)"
proof -
  let ?I = "search_inv (mNodeID ln) node qfun m" and ?c = "searchStep pick node qfun m"
  let ?b = "\<lambda>(found, backlog, _, _). \<not> found \<and> backlog \<noteq> []" 
  let ?s = "(False, [mNodeID ln], [], TB_FALSE)"
  define R where "R = measure (\<lambda>s :: search_state. case s of (f, b, v, r) \<Rightarrow>
     (if f then 0 else Suc (card (UNIV - set v))))"
  have init: "?I ?s" by (auto simp: search_inv_def)
  have step: "?I (?c s) \<and> (?c s, s) \<in> R" if "?I s" "?b s" for s
  proof -
    obtain f b v r where s: "s = (f, b, v, r)" by (cases s)
    obtain f' b' v' r' where c: "?c s = (f', b', v', r')" by (cases "?c s")
    have f: "\<not> f" "b \<noteq> []" using that(2) s by auto
    have st: "?I (f', b', v', r') \<and> (f' \<or> (set v' = insert (pick b) (set v) \<and> pick b \<notin> set v))"
      using search_inv_step [of "mNodeID ln" node qfun m b v r pick f' b' v' r'] that(1) c s f pick
      by auto
    moreover have "card (UNIV - insert (pick b) (set v)) < card (UNIV - set v)" if "pick b \<notin> set v"
      using that by (intro psubset_card_mono) auto
    ultimately show ?thesis unfolding c R_def using s f by auto
  qed
  obtain t where t: "while_option ?b ?c ?s = Some t"
    using wf_rel_while_option_Some [of R ?I ?b ?c ?s] step init unfolding R_def by blast
  obtain f b v r where tt: "t = (f, b, v, r)" by (cases t)
  have "?I t" using while_option_rule [of ?I ?b ?c, OF _ t init] step by blast
  moreover have "\<not> ?b t" using t by (rule while_option_stop)
  ultimately have "(if f then TB_TRUE else r) = reaches (mNodeID ln) node qfun m"
    using tt by (intro search_inv_final) auto
  then show ?thesis unfolding isNodeInQuorum_def t tt by simp
qed

section \<open>Properties\<close>

text \<open>A quorum set with an inner set, used by the witnesses below.\<close>

definition exampleQSet :: SCPQuorumSet where
  "exampleQSet = QSet 3 [1, 2, 3] [QSet 2 [4, 5, 6] []]"

text \<open>
  C12. The threshold test of \<open>LocalNode::isQuorumSlice\<close>, which counts a 32-bit \<open>thresholdLeft\<close>
  down over the validators and the inner sets and stops at zero, holds exactly when the nodes
  contain a slice: at every level at least \<open>threshold\<close> entries are satisfied.
\<close>

theorem slice_test_correct:
  "sized q \<Longrightarrow> isQuorumSlice q ns \<longleftrightarrow> sat q (set ns)"
  by (rule isQuorumSlice_sat)

theorem slice_test_correct_witness:
  "sized exampleQSet \<and> isQuorumSlice exampleQSet [1, 3, 4, 5] \<and> sat exampleQSet (set [1, 3, 4, 5])
   \<and> \<not> isQuorumSlice exampleQSet [1, 3, 4] \<and> \<not> sat exampleQSet (set [1, 3, 4])"
  using slice_test_correct [of exampleQSet "[1, 3, 4, 5]"] slice_test_correct [of exampleQSet "[1, 3, 4]"]
  by (simp add: exampleQSet_def isQuorumSlice_def Let_def)

text \<open>
  C11. \<open>LocalNode::isVBlocking\<close>, whose counter starts from \<open>1 + entries - threshold\<close>, holds
  exactly when the nodes meet every set of nodes that contains a slice of the quorum set.
\<close>

theorem vblocking_test_correct:
  "sized q \<Longrightarrow> in_range q \<Longrightarrow> isVBlocking q ns \<longleftrightarrow> (\<forall>T. sat q T \<longrightarrow> set ns \<inter> T \<noteq> {})"
  by (rule isVBlocking_sat)

theorem vblocking_test_correct_witness:
  "isVBlocking exampleQSet [1, 4, 5] \<and> sat exampleQSet {1, 2, 3} \<and> set [1, 4, 5] \<inter> {1, 2, 3 :: NodeID} \<noteq> {}
   \<and> \<not> isVBlocking exampleQSet [1, 4]"
proof -
  have b: "isVBlocking exampleQSet [1, 4, 5]" "\<not> isVBlocking exampleQSet [1, 4]"
    by (simp_all add: exampleQSet_def isVBlocking_def Let_def)
  have q: "sized exampleQSet" "in_range exampleQSet" and s: "sat exampleQSet {1, 2, 3}"
    by (simp_all add: exampleQSet_def)
  have "set [1, 4, 5] \<inter> {1, 2, 3 :: NodeID} \<noteq> {}"
    using vblocking_test_correct [OF q, THEN iffD1, OF b(1), THEN spec, THEN mp, OF s] .
  with b s show ?thesis by (intro conjI)
qed

text \<open>
  C5. \<open>LocalNode::isQuorum\<close> returns whenever every statement that passes the filter has a known
  quorum set, and then it holds exactly when some set of such nodes is a quorum, each member
  having a slice inside the set, that contains a slice of the local quorum set.
\<close>

theorem isQuorum_correct:
  assumes "omap_ok m" "sized q" "\<And>st qs. qfun st = Some qs \<Longrightarrow> sized qs"
    and "\<And>n e. map_of m n = Some e \<Longrightarrow> filt (statement e) \<Longrightarrow> qfun (statement e) \<noteq> None"
  shows "isQuorum q m qfun filt =
    Inr (quorum_among q (qsetOfNode m qfun) (set (nodesThat filt m)))"
  using isQuorum_total [of m filt qfun q] isQuorum_iff [of m q qfun filt] assms by blast

definition exampleEnvelope :: "NodeID \<Rightarrow> SCPPledges \<Rightarrow> SCPEnvelope" where
  "exampleEnvelope n p = \<lparr>statement = \<lparr>nodeID = n, slotIndex = 1, pledges = p\<rparr>, signature = []\<rparr>"

definition exampleExternalize :: SCPPledges where
  "exampleExternalize = EXTERNALIZE
     \<lparr>e_commit = SCPBallot 1 [7], e_nH = 1, e_commitQuorumSetHash = 0\<rparr>"

definition exampleMap :: envelopes where
  "exampleMap = map (\<lambda>n. (n, exampleEnvelope n exampleExternalize)) [1, 2, 3]"

theorem isQuorum_correct_witness:
  "isQuorum (QSet 2 [1, 2, 3] []) exampleMap (\<lambda>st. Some (QSet 2 [1, 2, 3] []))
       (\<lambda>st. nodeID st \<noteq> 3) = Inr True
   \<and> quorum_among (QSet 2 [1, 2, 3] [])
       (qsetOfNode exampleMap (\<lambda>st. Some (QSet 2 [1, 2, 3] []))) (set [1, 2])"
proof -
  have n: "nodesThat (\<lambda>st. nodeID st \<noteq> 3) exampleMap = [1, 2]"
    by (simp add: nodesThat_def exampleMap_def exampleEnvelope_def)
  have "isQuorum (QSet 2 [1, 2, 3] []) exampleMap (\<lambda>st. Some (QSet 2 [1, 2, 3] []))
       (\<lambda>st. nodeID st \<noteq> 3) = Inr True"
    unfolding isQuorum_def Let_def n
    by (simp add: quorumLoop.simps isQuorumSlice_def Let_def exampleMap_def)
  moreover have "omap_ok exampleMap" by (simp add: omap_ok_def exampleMap_def)
  ultimately show ?thesis
    using isQuorum_correct [of exampleMap "QSet 2 [1, 2, 3] []" "\<lambda>st. Some (QSet 2 [1, 2, 3] [])"
        "\<lambda>st. nodeID st \<noteq> 3"] n by auto
qed

text \<open>
  C14. \<open>LocalNode::normalizeQSet\<close> does not change which sets of nodes contain a slice; its result
  has no inner singleton and no level that only wraps one inner set; and normalizing twice
  changes nothing more.
\<close>

theorem normalizeQSet_correct:
  "(\<forall>S. sat (normalizeQSet q) S = sat q S) \<and> normal (normalizeQSet q)
   \<and> normalizeQSet (normalizeQSet q) = normalizeQSet q"
  by (simp add: sat_normalizeQSet normal_normalizeQSet normalizeQSet_normal)

text \<open>
  C13. \<open>isQuorumSetSane\<close> accepts exactly the quorum sets whose thresholds are between one and the
  number of entries at every level (above one half with the extra checks) and in which no node
  occurs twice; with the extra checks any two slices share a node.
\<close>

theorem isQuorumSetSane_correct:
  assumes "sized q"
  shows "(isQuorumSetSane q extra \<longleftrightarrow>
       in_range q \<and> (extra \<longrightarrow> majority q) \<and> distinct (forAllNodesInternal q))
    \<and> (isQuorumSetSane q True \<and> isQuorumSlice q a \<and> isQuorumSlice q b \<longrightarrow> set a \<inter> set b \<noteq> {})"
  using assms by (auto simp: isQuorumSetSane_iff isQuorumSlice_sat dest: majority_intersect)

theorem isQuorumSetSane_correct_witness:
  "isQuorumSetSane exampleQSet True \<and> isQuorumSlice exampleQSet [1, 2, 3]
   \<and> isQuorumSlice exampleQSet [1, 2, 4, 5] \<and> set [1, 2, 3] \<inter> set [1, 2, 4, 5 :: NodeID] \<noteq> {}"
proof -
  have "sized exampleQSet" by (simp add: exampleQSet_def)
  moreover have "isQuorumSlice exampleQSet [1, 2, 3]" "isQuorumSlice exampleQSet [1, 2, 4, 5]"
    by (simp_all add: exampleQSet_def isQuorumSlice_def Let_def)
  moreover have "in_range exampleQSet \<and> (True \<longrightarrow> majority exampleQSet) \<and> distinct (forAllNodesInternal exampleQSet)"
    by (simp add: exampleQSet_def)
  ultimately show ?thesis using isQuorumSetSane_correct by blast
qed

text \<open>
  C15. \<open>LocalNode::findClosestVBlocking\<close> returns nodes out of the given ones whose removal leaves
  no slice, and returns the empty list exactly when there was none to begin with.
\<close>

theorem findClosestVBlocking_correct:
  assumes "sized q" "in_range q"
  shows "set (findClosestVBlocking q nodes None) \<subseteq> set nodes
    \<and> \<not> sat q (set nodes - set (findClosestVBlocking q nodes None))
    \<and> (findClosestVBlocking q nodes None = [] \<longleftrightarrow> \<not> sat q (set nodes))"
  using closest_blocker [OF assms, of nodes] by (simp add: blocker_def)

theorem findClosestVBlocking_correct_witness:
  "findClosestVBlocking exampleQSet [1, 2, 3, 4, 5] None = [1, 2]
   \<and> \<not> sat exampleQSet (set [1, 2, 3, 4, 5] - set [1, 2])"
proof -
  have "findClosestVBlocking exampleQSet [1, 2, 3, 4, 5] None = [1, 2]"
    by (simp add: exampleQSet_def Let_def)
  moreover have "sized exampleQSet" "in_range exampleQSet" by (simp_all add: exampleQSet_def)
  ultimately show ?thesis
    using findClosestVBlocking_correct [of exampleQSet "[1, 2, 3, 4, 5]"] by simp
qed

text \<open>
  C16. \<open>LocalNode::isNodeInQuorum\<close> ends, whichever element of the unordered backlog each
  iteration takes, and answers: true when the node can be reached from the local node through
  the quorum sets of the statements; otherwise unknown when some reached node has no statement
  or no known quorum set, and false when all are known.
\<close>

theorem isNodeInQuorum_correct:
  assumes "\<And>b. b \<noteq> [] \<Longrightarrow> pick b \<in> set b"
  shows "isNodeInQuorum pick ln node qfun m = Inr (reaches (mNodeID ln) node qfun m)"
  using assms by (rule isNodeInQuorum_reaches)

definition exampleNode :: LocalNode where
  "exampleNode = newLocalNode (\<lambda>q. 0) 1 True (QSet 2 [1, 2] [])"

definition exampleStatement :: SCPStatement where
  "exampleStatement = statement (exampleEnvelope 1 exampleExternalize)"

theorem isNodeInQuorum_correct_witness:
  "isNodeInQuorum hd exampleNode 2 (\<lambda>st. Some (QSet 2 [1, 2] [])) [1 \<mapsto> [exampleStatement]] = Inr TB_TRUE
   \<and> reaches 1 2 (\<lambda>st. Some (QSet 2 [1, 2] [])) [1 \<mapsto> [exampleStatement]] = TB_TRUE"
proof -
  have n: "mNodeID exampleNode = 1" by (simp add: exampleNode_def newLocalNode_def Let_def)
  have "isNodeInQuorum hd exampleNode 2 (\<lambda>st. Some (QSet 2 [1, 2] [])) [1 \<mapsto> [exampleStatement]] = Inr TB_TRUE"
    unfolding isNodeInQuorum_def n
    by (simp add: while_option_unfold searchStep_def forAllNodes_def insort_insert_key_def Let_def)
  then show ?thesis
    using isNodeInQuorum_correct [of hd exampleNode 2 "\<lambda>st. Some (QSet 2 [1, 2] [])"
        "[1 \<mapsto> [exampleStatement]]"] n by simp
qed

end
