(* ===== verification/Ballot_Statements.thy ===== *)
theory Ballot_Statements
  imports Quorum_Logic
begin

text \<open>
  The ballots and the statements of the ballot protocol: the static members of
  \<open>BallotProtocol\<close> in \<open>src/src/scp/BallotProtocol.cpp\<close>, which read statements and do not touch
  the state of the slot. A statement predicate is only ever applied to PREPARE, CONFIRM and
  EXTERNALIZE statements; the \<open>default:\<close> branches, which abort, are the guard
  \<open>ballotEnvelopes\<close> that the operations over the map of statements test first.
\<close>

section \<open>Ballots\<close>

definition compareBallots :: "SCPBallot \<Rightarrow> SCPBallot \<Rightarrow> int" where
  "compareBallots b1 b2 =
     (if counter b1 < counter b2 then - 1
      else if counter b2 < counter b1 then 1
      else if bvalue b1 < bvalue b2 then - 1
      else if bvalue b2 < bvalue b1 then 1
      else 0)"

fun compareBallotsPtr :: "SCPBallot option \<Rightarrow> SCPBallot option \<Rightarrow> int" where
  "compareBallotsPtr (Some b1) (Some b2) = compareBallots b1 b2"
| "compareBallotsPtr (Some b1) None = 1"
| "compareBallotsPtr None (Some b2) = - 1"
| "compareBallotsPtr None None = 0"

definition areBallotsCompatible :: "SCPBallot \<Rightarrow> SCPBallot \<Rightarrow> bool" where
  "areBallotsCompatible b1 b2 \<longleftrightarrow> bvalue b1 = bvalue b2"

definition areBallotsLessAndIncompatible :: "SCPBallot \<Rightarrow> SCPBallot \<Rightarrow> bool" where
  "areBallotsLessAndIncompatible b1 b2 \<longleftrightarrow> compareBallots b1 b2 \<le> 0 \<and> \<not> areBallotsCompatible b1 b2"

definition areBallotsLessAndCompatible :: "SCPBallot \<Rightarrow> SCPBallot \<Rightarrow> bool" where
  "areBallotsLessAndCompatible b1 b2 \<longleftrightarrow> compareBallots b1 b2 \<le> 0 \<and> areBallotsCompatible b1 b2"

section \<open>The order of statements\<close>

fun isNewerPledges :: "SCPPledges \<Rightarrow> SCPPledges \<Rightarrow> bool" where
  "isNewerPledges (PREPARE oldPrep) (PREPARE prep) =
     (let compBallot = compareBallots (p_ballot oldPrep) (p_ballot prep) in
      if compBallot < 0 then True
      else if compBallot = 0 then
        (let compBallot = compareBallotsPtr (p_prepared oldPrep) (p_prepared prep) in
         if compBallot < 0 then True
         else if compBallot = 0 then
           (let compBallot = compareBallotsPtr (p_preparedPrime oldPrep) (p_preparedPrime prep) in
            if compBallot < 0 then True
            else if compBallot = 0 then p_nH oldPrep < p_nH prep
            else False)
         else False)
      else False)"
| "isNewerPledges (CONFIRM oldC) (CONFIRM c) =
     (let compBallot = compareBallots (c_ballot oldC) (c_ballot c) in
      if compBallot < 0 then True
      else if compBallot = 0 then
        (if c_nPrepared oldC = c_nPrepared c then c_nH oldC < c_nH c
         else c_nPrepared oldC < c_nPrepared c)
      else False)"
| "isNewerPledges (EXTERNALIZE _) (EXTERNALIZE _) = False"
| "isNewerPledges oldp p = (stType oldp < stType p)"

definition isNewerStatement :: "SCPStatement \<Rightarrow> SCPStatement \<Rightarrow> bool" where
  "isNewerStatement oldst st = isNewerPledges (pledges oldst) (pledges st)"

definition isNewerStatementFor :: "envelopes \<Rightarrow> NodeID \<Rightarrow> SCPStatement \<Rightarrow> bool" where
  "isNewerStatementFor m n st =
     (case map_of m n of None \<Rightarrow> True | Some e \<Rightarrow> isNewerStatement (statement e) st)"

section \<open>What a statement says\<close>

fun ballotPledges :: "SCPPledges \<Rightarrow> bool" where
  "ballotPledges (NOMINATE _) = False"
| "ballotPledges _ = True"

definition ballotEnvelopes :: "envelopes \<Rightarrow> bool" where
  "ballotEnvelopes m \<longleftrightarrow> list_all (\<lambda>(n, e). ballotPledges (pledges (statement e))) m"

fun prepareSane :: "SCPPrepare \<Rightarrow> bool \<Rightarrow> bool" where
  "prepareSane p self =
     ((self \<or> counter (p_ballot p) > 0) \<and>
      (case (p_preparedPrime p, p_prepared p) of
         (Some pp, Some pr) \<Rightarrow> areBallotsLessAndIncompatible pp pr | _ \<Rightarrow> True) \<and>
      (p_nH p = 0 \<or> (case p_prepared p of None \<Rightarrow> False | Some pr \<Rightarrow> p_nH p \<le> counter pr)) \<and>
      (p_nC p = 0 \<or> (p_nH p \<noteq> 0 \<and> counter (p_ballot p) \<ge> p_nH p \<and> p_nH p \<ge> p_nC p)))"

text \<open>\<open>qset\<close> is the quorum set of the statement, already dereferenced.\<close>

fun isStatementSane :: "SCPQuorumSet \<Rightarrow> SCPPledges \<Rightarrow> bool \<Rightarrow> cxx_error + bool" where
  "isStatementSane qset pl self =
     (if \<not> isQuorumSetSane qset False then Inr False
      else (case pl of
        PREPARE p \<Rightarrow> Inr (prepareSane p self)
      | CONFIRM c \<Rightarrow>
          Inr (counter (c_ballot c) > 0 \<and> c_nH c \<le> counter (c_ballot c) \<and> c_nCommit c \<le> c_nH c)
      | EXTERNALIZE e \<Rightarrow> Inr (counter (e_commit e) > 0 \<and> e_nH e \<ge> counter (e_commit e))
      | NOMINATE _ \<Rightarrow> Inl DbgAbort))"

fun hasPreparedBallot :: "SCPBallot \<Rightarrow> SCPPledges \<Rightarrow> bool" where
  "hasPreparedBallot ballot (PREPARE p) =
     ((case p_prepared p of None \<Rightarrow> False | Some pr \<Rightarrow> areBallotsLessAndCompatible ballot pr) \<or>
      (case p_preparedPrime p of None \<Rightarrow> False | Some pp \<Rightarrow> areBallotsLessAndCompatible ballot pp))"
| "hasPreparedBallot ballot (CONFIRM c) =
     areBallotsLessAndCompatible ballot (SCPBallot (c_nPrepared c) (bvalue (c_ballot c)))"
| "hasPreparedBallot ballot (EXTERNALIZE e) = areBallotsCompatible ballot (e_commit e)"
| "hasPreparedBallot ballot (NOMINATE _) = False"

text \<open>The \<open>voted\<close> predicate of \<open>attemptPreparedAccept\<close>.\<close>

fun votesPrepared :: "SCPBallot \<Rightarrow> SCPPledges \<Rightarrow> bool" where
  "votesPrepared ballot (PREPARE p) = areBallotsLessAndCompatible ballot (p_ballot p)"
| "votesPrepared ballot (CONFIRM c) = areBallotsCompatible ballot (c_ballot c)"
| "votesPrepared ballot (EXTERNALIZE e) = areBallotsCompatible ballot (e_commit e)"
| "votesPrepared ballot (NOMINATE _) = False"

type_synonym interval = "u32 \<times> u32"

fun commitPredicate :: "SCPBallot \<Rightarrow> interval \<Rightarrow> SCPPledges \<Rightarrow> bool" where
  "commitPredicate ballot check (CONFIRM c) =
     (areBallotsCompatible ballot (c_ballot c) \<and> c_nCommit c \<le> fst check \<and> snd check \<le> c_nH c)"
| "commitPredicate ballot check (EXTERNALIZE e) =
     (areBallotsCompatible ballot (e_commit e) \<and> counter (e_commit e) \<le> fst check)"
| "commitPredicate ballot check _ = False"

text \<open>The \<open>voted\<close> predicate of \<open>attemptAcceptCommit\<close>.\<close>

fun votesCommit :: "SCPBallot \<Rightarrow> interval \<Rightarrow> SCPPledges \<Rightarrow> bool" where
  "votesCommit ballot cur (PREPARE p) =
     (areBallotsCompatible ballot (p_ballot p) \<and> p_nC p \<noteq> 0 \<and> p_nC p \<le> fst cur \<and> snd cur \<le> p_nH p)"
| "votesCommit ballot cur (CONFIRM c) =
     (areBallotsCompatible ballot (c_ballot c) \<and> c_nCommit c \<le> fst cur)"
| "votesCommit ballot cur (EXTERNALIZE e) =
     (areBallotsCompatible ballot (e_commit e) \<and> counter (e_commit e) \<le> fst cur)"
| "votesCommit ballot cur (NOMINATE _) = False"

fun getCompanionQuorumSetHashFromStatement :: "SCPPledges \<Rightarrow> Hash" where
  "getCompanionQuorumSetHashFromStatement (PREPARE p) = p_quorumSetHash p"
| "getCompanionQuorumSetHashFromStatement (CONFIRM c) = c_quorumSetHash c"
| "getCompanionQuorumSetHashFromStatement (EXTERNALIZE e) = e_commitQuorumSetHash e"
| "getCompanionQuorumSetHashFromStatement (NOMINATE n) = n_quorumSetHash n"

fun getWorkingBallot :: "SCPPledges \<Rightarrow> cxx_error + SCPBallot" where
  "getWorkingBallot (PREPARE p) = Inr (p_ballot p)"
| "getWorkingBallot (CONFIRM c) = Inr (SCPBallot (c_nCommit c) (bvalue (c_ballot c)))"
| "getWorkingBallot (EXTERNALIZE e) = Inr (e_commit e)"
| "getWorkingBallot (NOMINATE _) = Inl DbgAbort"

section \<open>Candidates and intervals\<close>

definition optElem :: "'a option \<Rightarrow> 'a list" where
  "optElem p = (case p of None \<Rightarrow> [] | Some a \<Rightarrow> [a])"

fun hintBallots :: "SCPPledges \<Rightarrow> cxx_error + SCPBallot oset" where
  "hintBallots (PREPARE prep) =
     Inr (oset_inserts ([p_ballot prep] @ optElem (p_prepared prep) @ optElem (p_preparedPrime prep)) [])"
| "hintBallots (CONFIRM con) =
     Inr (oset_inserts [SCPBallot (c_nPrepared con) (bvalue (c_ballot con)),
                        SCPBallot UINT32_MAX (bvalue (c_ballot con))] [])"
| "hintBallots (EXTERNALIZE ext) = Inr (oset_inserts [SCPBallot UINT32_MAX (bvalue (e_commit ext))] [])"
| "hintBallots (NOMINATE _) = Inl DbgAbort"

fun candidatesOf :: "SCPBallot \<Rightarrow> SCPPledges \<Rightarrow> SCPBallot list" where
  "candidatesOf topVote (PREPARE prep) =
     filter (\<lambda>b. areBallotsLessAndCompatible b topVote)
       ([p_ballot prep] @ optElem (p_prepared prep) @ optElem (p_preparedPrime prep))"
| "candidatesOf topVote (CONFIRM con) =
     (if areBallotsCompatible topVote (c_ballot con)
      then topVote # (if c_nPrepared con < counter topVote
                      then [SCPBallot (c_nPrepared con) (bvalue topVote)] else [])
      else [])"
| "candidatesOf topVote (EXTERNALIZE ext) =
     (if areBallotsCompatible topVote (e_commit ext) then [topVote] else [])"
| "candidatesOf topVote (NOMINATE _) = []"

definition getPrepareCandidates :: "envelopes \<Rightarrow> SCPPledges \<Rightarrow> cxx_error + SCPBallot oset" where
  "getPrepareCandidates m hint =
     bindE (hintBallots hint) (\<lambda>hints.
     bindE (assertE (ballotEnvelopes m) DbgAbort) (\<lambda>_.
       Inr (oset_inserts
         (concat (map (\<lambda>topVote. concat (map (\<lambda>(n, e). candidatesOf topVote (pledges (statement e))) m))
           (rev hints))) [])))"

text \<open>\<open>boundaries\<close> is given from the top; \<open>pred\<close> may fail, as the quorum search it calls.\<close>

fun findExtendedInterval ::
  "interval \<Rightarrow> u32 list \<Rightarrow> (interval \<Rightarrow> cxx_error + bool) \<Rightarrow> cxx_error + interval" where
  "findExtendedInterval candidate [] pred = Inr candidate"
| "findExtendedInterval candidate (b # bs) pred =
     (if fst candidate \<noteq> 0 \<and> b > snd candidate then findExtendedInterval candidate bs pred
      else
        let cur = (if fst candidate = 0 then (b, b) else (b, snd candidate)) in
        bindE (pred cur) (\<lambda>ok.
          if ok then findExtendedInterval cur bs pred
          else if fst candidate \<noteq> 0 then Inr candidate
          else findExtendedInterval candidate bs pred))"

fun commitBoundaries :: "SCPBallot \<Rightarrow> SCPPledges \<Rightarrow> u32 list" where
  "commitBoundaries ballot (PREPARE p) =
     (if areBallotsCompatible ballot (p_ballot p) \<and> p_nC p \<noteq> 0 then [p_nC p, p_nH p] else [])"
| "commitBoundaries ballot (CONFIRM c) =
     (if areBallotsCompatible ballot (c_ballot c) then [c_nCommit c, c_nH c] else [])"
| "commitBoundaries ballot (EXTERNALIZE e) =
     (if areBallotsCompatible ballot (e_commit e)
      then [counter (e_commit e), e_nH e, UINT32_MAX] else [])"
| "commitBoundaries ballot (NOMINATE _) = []"

definition getCommitBoundariesFromStatements :: "envelopes \<Rightarrow> SCPBallot \<Rightarrow> cxx_error + u32 oset" where
  "getCommitBoundariesFromStatements m ballot =
     bindE (assertE (ballotEnvelopes m) DbgAbort) (\<lambda>_.
       Inr (oset_inserts (concat (map (\<lambda>(n, e). commitBoundaries ballot (pledges (statement e))) m)) []))"

section \<open>Validation of the values\<close>

datatype ValidationLevel = kInvalidValue | kFullyValidatedValue | kMaybeValidValue

fun statementValues :: "SCPPledges \<Rightarrow> Value oset option" where
  "statementValues (PREPARE prep) =
     Some (oset_inserts ((if counter (p_ballot prep) \<noteq> 0 then [bvalue (p_ballot prep)] else []) @
                         map bvalue (optElem (p_prepared prep))) [])"
| "statementValues (CONFIRM c) = Some [bvalue (c_ballot c)]"
| "statementValues (EXTERNALIZE e) = Some [bvalue (e_commit e)]"
| "statementValues (NOMINATE _) = None"

definition worseLevel :: "ValidationLevel \<Rightarrow> ValidationLevel \<Rightarrow> ValidationLevel" where
  "worseLevel tr res =
     (if tr \<noteq> kFullyValidatedValue then
        (if tr = kInvalidValue then kInvalidValue else kMaybeValidValue)
      else res)"

definition validateValues :: "(Value \<Rightarrow> ValidationLevel) \<Rightarrow> SCPPledges \<Rightarrow> ValidationLevel" where
  "validateValues validate pl =
     (case statementValues pl of
        None \<Rightarrow> kInvalidValue
      | Some values \<Rightarrow> fold (\<lambda>v res. worseLevel (validate v) res) values kFullyValidatedValue)"

end
