(* ===== verification/Slot_State.thy ===== *)
theory Slot_State
  imports Ballot_Statements
begin

text \<open>
  The state of a slot and what it is connected to: the members of \<open>Slot\<close>, \<open>BallotProtocol\<close> and
  \<open>NominationProtocol\<close> (\<open>src/src/scp\<close>) as one record, the local node and the driver
  (\<open>SCPDriver\<close>, whose virtual functions the application provides) as the environment, and the
  calls the slot makes on the driver as a trace of events, newest last.

  Pointers are options. \<open>mLastEnvelope\<close> and \<open>mLastEnvelopeEmit\<close> are compared as pointers in
  the source and as envelopes here: a new object is only stored when its statement is newer
  than the one stored before, so that two objects never hold the same envelope.
\<close>

section \<open>The environment\<close>

record slot_env =
  localNode :: LocalNode
  mSlotIndex :: u64
  getQSet :: "Hash \<Rightarrow> SCPQuorumSet option"
  validateValue :: "Value \<Rightarrow> ValidationLevel"
  extractValidValue :: "Value \<Rightarrow> Value"
  combineCandidates :: "Value oset \<Rightarrow> Value"
  computeHashNode :: "Value \<Rightarrow> bool \<Rightarrow> int \<Rightarrow> NodeID \<Rightarrow> u64"
  computeValueHash :: "Value \<Rightarrow> int \<Rightarrow> Value \<Rightarrow> u64"
  signEnvelope :: "SCPStatement \<Rightarrow> bytes"

abbreviation selfID :: "slot_env \<Rightarrow> NodeID" where
  "selfID E \<equiv> mNodeID (localNode E)"

abbreviation selfQSet :: "slot_env \<Rightarrow> SCPQuorumSet" where
  "selfQSet E \<equiv> mQSet (localNode E)"

text \<open>\<open>SCPDriver::computeTimeout\<close>, in seconds.\<close>

definition MAX_TIMEOUT_SECONDS :: int where
  "MAX_TIMEOUT_SECONDS = 30 * 60"

definition computeTimeout :: "u32 \<Rightarrow> int" where
  "computeTimeout roundNumber =
     (if uint roundNumber > MAX_TIMEOUT_SECONDS then MAX_TIMEOUT_SECONDS else uint roundNumber)"

section \<open>The state\<close>

datatype SCPPhase = SCP_PHASE_PREPARE | SCP_PHASE_CONFIRM | SCP_PHASE_EXTERNALIZE

datatype EnvelopeState = INVALID | VALID

datatype timerIDs = NOMINATION_TIMER | BALLOT_PROTOCOL_TIMER

datatype event =
    EvEmitEnvelope SCPEnvelope
  | EvSetupTimer timerIDs int
  | EvValueExternalized Value
  | EvNominatingValue Value
  | EvUpdatedCandidateValue Value
  | EvStartedBallotProtocol SCPBallot
  | EvAcceptedBallotPrepared SCPBallot
  | EvConfirmedBallotPrepared SCPBallot
  | EvAcceptedCommit SCPBallot
  | EvBallotDidHearFromQuorum SCPBallot

record slot =
  mFullyValidated :: bool
  mStatementsHistory :: "(SCPStatement \<times> bool) list"
  events :: "event list"
  mHeardFromQuorum :: bool
  mCurrentBallot :: "SCPBallot option"
  mPrepared :: "SCPBallot option"
  mPreparedPrime :: "SCPBallot option"
  mHighBallot :: "SCPBallot option"
  mCommit :: "SCPBallot option"
  mLatestEnvelopes :: envelopes
  mPhase :: SCPPhase
  mCurrentMessageLevel :: nat
  mLastEnvelope :: "SCPEnvelope option"
  mLastEnvelopeEmit :: "SCPEnvelope option"
  mRoundNumber :: int
  mVotes :: "Value oset"
  mAccepted :: "Value oset"
  mCandidates :: "Value oset"
  mLatestNominations :: envelopes
  mLastNomination :: "SCPEnvelope option"
  mRoundLeaders :: "NodeID oset"
  mNominationStarted :: bool
  mLatestCompositeCandidate :: Value
  mPreviousValue :: Value

text \<open>The constructors of \<open>Slot\<close>, \<open>BallotProtocol\<close> and \<open>NominationProtocol\<close>.\<close>

definition newSlot :: "slot_env \<Rightarrow> slot" where
  "newSlot E =
     \<lparr>mFullyValidated = mIsValidator (localNode E), mStatementsHistory = [], events = [],
      mHeardFromQuorum = True, mCurrentBallot = None, mPrepared = None, mPreparedPrime = None,
      mHighBallot = None, mCommit = None, mLatestEnvelopes = [], mPhase = SCP_PHASE_PREPARE,
      mCurrentMessageLevel = 0, mLastEnvelope = None, mLastEnvelopeEmit = None,
      mRoundNumber = 0, mVotes = [], mAccepted = [], mCandidates = [], mLatestNominations = [],
      mLastNomination = None, mRoundLeaders = [], mNominationStarted = False,
      mLatestCompositeCandidate = [], mPreviousValue = []\<rparr>"

definition emitEvent :: "event \<Rightarrow> slot \<Rightarrow> slot" where
  "emitEvent ev s = s\<lparr>events := events s @ [ev]\<rparr>"

section \<open>Operations of the slot that both protocols use\<close>

definition recordStatement :: "SCPStatement \<Rightarrow> slot \<Rightarrow> slot" where
  "recordStatement st s =
     s\<lparr>mStatementsHistory := mStatementsHistory s @ [(st, mFullyValidated s)]\<rparr>"

definition setFullyValidated :: "bool \<Rightarrow> slot \<Rightarrow> slot" where
  "setFullyValidated b s = s\<lparr>mFullyValidated := b\<rparr>"

definition stopNomination :: "slot \<Rightarrow> slot" where
  "stopNomination s = s\<lparr>mNominationStarted := False\<rparr>"

definition createEnvelope :: "slot_env \<Rightarrow> SCPPledges \<Rightarrow> SCPEnvelope" where
  "createEnvelope E pl =
     (let mySt = \<lparr>nodeID = selfID E, slotIndex = mSlotIndex E, pledges = pl\<rparr>
      in \<lparr>statement = mySt, signature = signEnvelope E mySt\<rparr>)"

definition getQuorumSetFromStatement :: "slot_env \<Rightarrow> SCPStatement \<Rightarrow> SCPQuorumSet option" where
  "getQuorumSetFromStatement E st =
     (case pledges st of
        EXTERNALIZE _ \<Rightarrow> Some (getSingletonQSet (nodeID st))
      | PREPARE p \<Rightarrow> getQSet E (p_quorumSetHash p)
      | CONFIRM c \<Rightarrow> getQSet E (c_quorumSetHash c)
      | NOMINATE n \<Rightarrow> getQSet E (n_quorumSetHash n))"

definition federatedAccept ::
  "slot_env \<Rightarrow> (SCPStatement \<Rightarrow> bool) \<Rightarrow> (SCPStatement \<Rightarrow> bool) \<Rightarrow> envelopes \<Rightarrow> cxx_error + bool" where
  "federatedAccept E voted accepted envs =
     (if isVBlockingMap (selfQSet E) envs accepted then Inr True
      else isQuorum (selfQSet E) envs (getQuorumSetFromStatement E)
             (\<lambda>st. accepted st \<or> voted st))"

definition federatedRatify ::
  "slot_env \<Rightarrow> (SCPStatement \<Rightarrow> bool) \<Rightarrow> envelopes \<Rightarrow> cxx_error + bool" where
  "federatedRatify E voted envs =
     isQuorum (selfQSet E) envs (getQuorumSetFromStatement E) voted"

end
