(* ===== verification/Ballot_Protocol.thy ===== *)
theory Ballot_Protocol
  imports Slot_State
begin

text \<open>
  The ballot protocol: the operations of \<open>BallotProtocol\<close> (\<open>src/src/scp/BallotProtocol.cpp\<close>)
  that read and write the state of the slot.

  The recursion of the source goes through \<open>mSlot.processEnvelope(envelope, true)\<close>, called by
  \<open>emitCurrentStateStatement\<close>: the operations take that call as the argument \<open>pe\<close>, and
  \<open>processEnvelopeAt\<close> ties the knot. \<open>advanceSlot\<close> throws at message level
  \<open>MAX_ADVANCE_SLOT_RECURSION\<close>, so that the recursion is never deeper.
\<close>

type_synonym 'a run = "cxx_error + (slot \<times> 'a)"
type_synonym process = "SCPEnvelope \<Rightarrow> slot \<Rightarrow> EnvelopeState run"

definition MAX_ADVANCE_SLOT_RECURSION :: nat where
  "MAX_ADVANCE_SLOT_RECURSION = 50"

section \<open>The local state\<close>

definition recordEnvelope :: "SCPEnvelope \<Rightarrow> slot \<Rightarrow> slot" where
  "recordEnvelope env s =
     recordStatement (statement env)
       (s\<lparr>mLatestEnvelopes := omap_put (nodeID (statement env)) env (mLatestEnvelopes s)\<rparr>)"

definition dbgAssert :: "bool \<Rightarrow> cxx_error + unit" where
  "dbgAssert b = assertE b DbgAbort"

definition deref :: "'a option \<Rightarrow> cxx_error + 'a" where
  "deref p = derefE NullDeref p"

definition checkInvariants :: "slot \<Rightarrow> cxx_error + unit" where
  "checkInvariants s =
     bindE (case mCurrentBallot s of
              None \<Rightarrow> Inr ()
            | Some b \<Rightarrow> dbgAssert (counter b \<noteq> 0)) (\<lambda>_.
     bindE (case (mPrepared s, mPreparedPrime s) of
              (Some p, Some pp) \<Rightarrow> dbgAssert (areBallotsLessAndIncompatible pp p)
            | _ \<Rightarrow> Inr ()) (\<lambda>_.
     bindE (case mCommit s of
              None \<Rightarrow> Inr ()
            | Some c \<Rightarrow>
                bindE (dbgAssert (mCurrentBallot s \<noteq> None)) (\<lambda>_.
                bindE (deref (mHighBallot s)) (\<lambda>h.
                bindE (dbgAssert (areBallotsLessAndCompatible c h)) (\<lambda>_.
                bindE (deref (mCurrentBallot s)) (\<lambda>b.
                  dbgAssert (areBallotsLessAndCompatible h b)))))) (\<lambda>_.
     (case mPhase s of
        SCP_PHASE_PREPARE \<Rightarrow> Inr ()
      | SCP_PHASE_CONFIRM \<Rightarrow> dbgAssert (mCommit s \<noteq> None)
      | SCP_PHASE_EXTERNALIZE \<Rightarrow>
          bindE (dbgAssert (mCommit s \<noteq> None)) (\<lambda>_. dbgAssert (mHighBallot s \<noteq> None))))))"

definition startBallotProtocolTimer :: "slot \<Rightarrow> cxx_error + slot" where
  "startBallotProtocolTimer s =
     bindE (deref (mCurrentBallot s)) (\<lambda>b.
       Inr (emitEvent (EvSetupTimer BALLOT_PROTOCOL_TIMER (computeTimeout (counter b))) s))"

definition bumpToBallot :: "SCPBallot \<Rightarrow> bool \<Rightarrow> slot \<Rightarrow> cxx_error + slot" where
  "bumpToBallot ballot check s =
     bindE (dbgAssert (mPhase s \<noteq> SCP_PHASE_EXTERNALIZE)) (\<lambda>_.
     bindE (if check
            then dbgAssert (case mCurrentBallot s of
                              None \<Rightarrow> True | Some b \<Rightarrow> compareBallots ballot b \<ge> 0)
            else Inr ()) (\<lambda>_.
       let gotBumped = (mCurrentBallot s \<noteq> Some ballot);
           s' = s\<lparr>mCurrentBallot := Some ballot, mHeardFromQuorum := False\<rparr>
       in if gotBumped then startBallotProtocolTimer s' else Inr s'))"

definition updateCurrentValue :: "SCPBallot \<Rightarrow> slot \<Rightarrow> bool run" where
  "updateCurrentValue ballot s =
     (if mPhase s \<noteq> SCP_PHASE_PREPARE \<and> mPhase s \<noteq> SCP_PHASE_CONFIRM then Inr (s, False)
      else (case mCurrentBallot s of
        None \<Rightarrow>
          bindE (bumpToBallot ballot True s) (\<lambda>s.
          bindE (checkInvariants s) (\<lambda>_. Inr (s, True)))
      | Some b \<Rightarrow>
          bindE (dbgAssert (compareBallots b ballot \<le> 0)) (\<lambda>_.
            if (case mCommit s of None \<Rightarrow> False | Some c \<Rightarrow> \<not> areBallotsCompatible c ballot)
            then Inr (s, False)
            else
              let comp = compareBallots b ballot in
              if comp < 0 then
                bindE (bumpToBallot ballot True s) (\<lambda>s.
                bindE (checkInvariants s) (\<lambda>_. Inr (s, True)))
              else if comp > 0 then Inr (s, False)
              else bindE (checkInvariants s) (\<lambda>_. Inr (s, False)))))"

definition updateCurrentIfNeeded :: "slot \<Rightarrow> cxx_error + slot" where
  "updateCurrentIfNeeded s =
     (case mCurrentBallot s of
        None \<Rightarrow> bindE (deref (mHighBallot s)) (\<lambda>h. bumpToBallot h True s)
      | Some b \<Rightarrow>
          bindE (deref (mHighBallot s)) (\<lambda>h.
            if compareBallots b h < 0 then bumpToBallot h True s else Inr s))"

definition setPrepared :: "SCPBallot \<Rightarrow> slot \<Rightarrow> slot \<times> bool" where
  "setPrepared ballot s =
     (case mPrepared s of
        Some p \<Rightarrow>
          (let comp = compareBallots p ballot in
           if comp < 0 then
             ((if \<not> areBallotsCompatible p ballot then s\<lparr>mPreparedPrime := Some p\<rparr> else s)
                \<lparr>mPrepared := Some ballot\<rparr>, True)
           else if comp > 0 then
             (if (case mPreparedPrime s of None \<Rightarrow> True | Some pp \<Rightarrow> compareBallots pp ballot < 0)
              then (s\<lparr>mPreparedPrime := Some ballot\<rparr>, True) else (s, False))
           else (s, False))
      | None \<Rightarrow> (s\<lparr>mPrepared := Some ballot\<rparr>, True))"

section \<open>Statements about the local state\<close>

text \<open>
  \<open>createStatement\<close> for the statement type of the phase: the caller is
  \<open>emitCurrentStateStatement\<close>, which chooses the type by the phase.
\<close>

definition createStatement :: "slot_env \<Rightarrow> slot \<Rightarrow> cxx_error + SCPPledges" where
  "createStatement E s =
     bindE (checkInvariants s) (\<lambda>_.
     (case mPhase s of
        SCP_PHASE_PREPARE \<Rightarrow>
          Inr (PREPARE
            \<lparr>p_quorumSetHash = mQSetHash (localNode E),
             p_ballot = (case mCurrentBallot s of None \<Rightarrow> nullBallot | Some b \<Rightarrow> b),
             p_prepared = mPrepared s,
             p_preparedPrime = mPreparedPrime s,
             p_nC = (case mCommit s of None \<Rightarrow> 0 | Some c \<Rightarrow> counter c),
             p_nH = (case mHighBallot s of None \<Rightarrow> 0 | Some h \<Rightarrow> counter h)\<rparr>)
      | SCP_PHASE_CONFIRM \<Rightarrow>
          bindE (deref (mCommit s)) (\<lambda>c.
          bindE (deref (mHighBallot s)) (\<lambda>h.
          bindE (dbgAssert (areBallotsLessAndCompatible c h)) (\<lambda>_.
          bindE (deref (mCurrentBallot s)) (\<lambda>b.
          bindE (deref (mPrepared s)) (\<lambda>p.
            Inr (CONFIRM \<lparr>c_ballot = b, c_nPrepared = counter p, c_nCommit = counter c,
                   c_nH = counter h, c_quorumSetHash = mQSetHash (localNode E)\<rparr>))))))
      | SCP_PHASE_EXTERNALIZE \<Rightarrow>
          bindE (deref (mCommit s)) (\<lambda>c.
          bindE (deref (mHighBallot s)) (\<lambda>h.
          bindE (dbgAssert (areBallotsLessAndCompatible c h)) (\<lambda>_.
            Inr (EXTERNALIZE \<lparr>e_commit = c, e_nH = counter h,
                   e_commitQuorumSetHash = mQSetHash (localNode E)\<rparr>))))))"

definition sendLatestEnvelope :: "slot \<Rightarrow> slot" where
  "sendLatestEnvelope s =
     (case mLastEnvelope s of
        None \<Rightarrow> s
      | Some env \<Rightarrow>
          if mCurrentMessageLevel s = 0 \<and> mFullyValidated s \<and> mLastEnvelopeEmit s \<noteq> Some env
          then emitEvent (EvEmitEnvelope env) (s\<lparr>mLastEnvelopeEmit := Some env\<rparr>)
          else s)"

definition emitCurrentStateStatement :: "slot_env \<Rightarrow> process \<Rightarrow> slot \<Rightarrow> cxx_error + slot" where
  "emitCurrentStateStatement E pe s =
     bindE (createStatement E s) (\<lambda>pl.
       let envelope = createEnvelope E pl;
           canEmit = (mCurrentBallot s \<noteq> None)
       in if map_of (mLatestEnvelopes s) (selfID E) \<noteq> Some envelope then
            bindE (pe envelope s) (\<lambda>(s, res).
              if res = VALID then
                (if canEmit \<and>
                    (case mLastEnvelope s of
                       None \<Rightarrow> True
                     | Some l \<Rightarrow> isNewerStatement (statement l) (statement envelope))
                 then Inr (sendLatestEnvelope (s\<lparr>mLastEnvelope := Some envelope\<rparr>))
                 else Inr s)
              else Inl (RuntimeError ''moved to a bad state (ballot protocol)''))
          else Inr s)"

section \<open>Bumping the ballot\<close>

definition bumpStateTo :: "slot_env \<Rightarrow> process \<Rightarrow> Value \<Rightarrow> u32 \<Rightarrow> slot \<Rightarrow> bool run" where
  "bumpStateTo E pe value n s =
     (if mPhase s \<noteq> SCP_PHASE_PREPARE \<and> mPhase s \<noteq> SCP_PHASE_CONFIRM then Inr (s, False)
      else
        let newb = SCPBallot n (case mHighBallot s of Some h \<Rightarrow> bvalue h | None \<Rightarrow> value) in
        bindE (updateCurrentValue newb s) (\<lambda>(s, updated).
          if updated then
            bindE (emitCurrentStateStatement E pe (emitEvent (EvStartedBallotProtocol newb) s))
              (\<lambda>s. Inr (s, updated))
          else Inr (s, updated)))"

definition bumpState :: "slot_env \<Rightarrow> process \<Rightarrow> Value \<Rightarrow> bool \<Rightarrow> slot \<Rightarrow> bool run" where
  "bumpState E pe value force s =
     (if \<not> force \<and> mCurrentBallot s \<noteq> None then Inr (s, False)
      else
        let n = (case mCurrentBallot s of Some b \<Rightarrow> counter b + 1 | None \<Rightarrow> 1)
        in bumpStateTo E pe value n s)"

definition abandonBallot :: "slot_env \<Rightarrow> process \<Rightarrow> u32 \<Rightarrow> slot \<Rightarrow> bool run" where
  "abandonBallot E pe n s =
     (let v = (if mLatestCompositeCandidate s = []
               then (case mCurrentBallot s of Some b \<Rightarrow> bvalue b | None \<Rightarrow> [])
               else mLatestCompositeCandidate s)
      in if v \<noteq> [] then
           (if n = 0 then bumpState E pe v True s else bumpStateTo E pe v n s)
         else Inr (s, False))"

definition ballotProtocolTimerExpired :: "slot_env \<Rightarrow> process \<Rightarrow> slot \<Rightarrow> cxx_error + slot" where
  "ballotProtocolTimerExpired E pe s =
     (if mHeardFromQuorum s then bindE (abandonBallot E pe 0 s) (\<lambda>(s, _). Inr s)
      else startBallotProtocolTimer s)"

section \<open>Accepting a prepared ballot\<close>

definition ballotAccept ::
  "slot_env \<Rightarrow> (SCPPledges \<Rightarrow> bool) \<Rightarrow> (SCPPledges \<Rightarrow> bool) \<Rightarrow> slot \<Rightarrow> cxx_error + bool" where
  "ballotAccept E voted accepted s =
     bindE (assertE (ballotEnvelopes (mLatestEnvelopes s)) DbgAbort) (\<lambda>_.
       federatedAccept E (\<lambda>st. voted (pledges st)) (\<lambda>st. accepted (pledges st)) (mLatestEnvelopes s))"

definition ballotRatify :: "slot_env \<Rightarrow> (SCPPledges \<Rightarrow> bool) \<Rightarrow> slot \<Rightarrow> cxx_error + bool" where
  "ballotRatify E voted s =
     bindE (assertE (ballotEnvelopes (mLatestEnvelopes s)) DbgAbort) (\<lambda>_.
       federatedRatify E (\<lambda>st. voted (pledges st)) (mLatestEnvelopes s))"

definition setPreparedAccept :: "slot_env \<Rightarrow> process \<Rightarrow> SCPBallot \<Rightarrow> slot \<Rightarrow> bool run" where
  "setPreparedAccept E pe ballot s0 =
     (let (s, didWork) = setPrepared ballot s0 in
      bindE
        (case (mCommit s, mHighBallot s) of
           (Some c, Some h) \<Rightarrow>
             if (case mPrepared s of None \<Rightarrow> False | Some p \<Rightarrow> areBallotsLessAndIncompatible h p) \<or>
                (case mPreparedPrime s of None \<Rightarrow> False | Some pp \<Rightarrow> areBallotsLessAndIncompatible h pp)
             then bindE (dbgAssert (mPhase s = SCP_PHASE_PREPARE)) (\<lambda>_. Inr (s\<lparr>mCommit := None\<rparr>, True))
             else Inr (s, didWork)
         | _ \<Rightarrow> Inr (s, didWork)) (\<lambda>(s, didWork).
        if didWork then
          bindE (emitCurrentStateStatement E pe (emitEvent (EvAcceptedBallotPrepared ballot) s))
            (\<lambda>s. Inr (s, didWork))
        else Inr (s, didWork)))"

text \<open>The loop over the candidates, highest first: the first ballot that is accepted, if any.\<close>

fun findAccepted :: "slot_env \<Rightarrow> slot \<Rightarrow> SCPBallot list \<Rightarrow> cxx_error + SCPBallot option" where
  "findAccepted E s [] = Inr None"
| "findAccepted E s (ballot # cur) =
     bindE (if mPhase s = SCP_PHASE_CONFIRM then
              bindE (deref (mPrepared s)) (\<lambda>p.
                if \<not> areBallotsLessAndCompatible p ballot then Inr False
                else bindE (deref (mCommit s)) (\<lambda>c.
                     bindE (dbgAssert (areBallotsCompatible c ballot)) (\<lambda>_. Inr True)))
            else Inr True) (\<lambda>consider.
       if \<not> consider then findAccepted E s cur
       else if (case mPreparedPrime s of None \<Rightarrow> False | Some pp \<Rightarrow> compareBallots ballot pp \<le> 0)
       then findAccepted E s cur
       else if (case mPrepared s of None \<Rightarrow> False | Some p \<Rightarrow> areBallotsLessAndCompatible ballot p)
       then findAccepted E s cur
       else bindE (ballotAccept E (votesPrepared ballot) (hasPreparedBallot ballot) s) (\<lambda>accepted.
              if accepted then Inr (Some ballot) else findAccepted E s cur))"

definition attemptPreparedAccept :: "slot_env \<Rightarrow> process \<Rightarrow> SCPPledges \<Rightarrow> slot \<Rightarrow> bool run" where
  "attemptPreparedAccept E pe hint s =
     (if mPhase s \<noteq> SCP_PHASE_PREPARE \<and> mPhase s \<noteq> SCP_PHASE_CONFIRM then Inr (s, False)
      else
        bindE (getPrepareCandidates (mLatestEnvelopes s) hint) (\<lambda>candidates.
        bindE (findAccepted E s (rev candidates)) (\<lambda>found.
          case found of
            None \<Rightarrow> Inr (s, False)
          | Some ballot \<Rightarrow> setPreparedAccept E pe ballot s)))"

section \<open>Confirming a prepared ballot\<close>

definition setPreparedConfirmed ::
  "slot_env \<Rightarrow> process \<Rightarrow> SCPBallot \<Rightarrow> SCPBallot \<Rightarrow> slot \<Rightarrow> bool run" where
  "setPreparedConfirmed E pe newC newH s0 =
     (let (s, didWork) =
            (if (case mHighBallot s0 of None \<Rightarrow> True | Some h \<Rightarrow> compareBallots newH h > 0)
             then (s0\<lparr>mHighBallot := Some newH\<rparr>, True) else (s0, False)) in
      bindE (if counter newC \<noteq> 0 then
               bindE (dbgAssert (mCommit s = None)) (\<lambda>_. Inr (s\<lparr>mCommit := Some newC\<rparr>, True))
             else Inr (s, didWork)) (\<lambda>(s, didWork).
        if didWork then
          bindE (updateCurrentIfNeeded s) (\<lambda>s.
          bindE (emitCurrentStateStatement E pe (emitEvent (EvConfirmedBallotPrepared newH) s))
            (\<lambda>s. Inr (s, didWork)))
        else Inr (s, didWork)))"

text \<open>The first loop: \<open>newH\<close> and the iterator, which still points at it.\<close>

fun findNewH :: "slot_env \<Rightarrow> slot \<Rightarrow> SCPBallot list \<Rightarrow> cxx_error + (SCPBallot \<times> SCPBallot list) option" where
  "findNewH E s [] = Inr None"
| "findNewH E s (ballot # cur) =
     (if (case mHighBallot s of None \<Rightarrow> False | Some h \<Rightarrow> compareBallots h ballot \<ge> 0) then Inr None
      else bindE (ballotRatify E (hasPreparedBallot ballot) s) (\<lambda>ratified.
             if ratified then Inr (Some (ballot, ballot # cur)) else findNewH E s cur))"

text \<open>The second loop: \<open>newC\<close> goes down from the iterator while the ballots are ratified.\<close>

fun findNewC :: "slot_env \<Rightarrow> slot \<Rightarrow> SCPBallot \<Rightarrow> SCPBallot \<Rightarrow> SCPBallot list \<Rightarrow> cxx_error + SCPBallot" where
  "findNewC E s b newC [] = Inr newC"
| "findNewC E s b newC (ballot # cur) =
     (if compareBallots ballot b < 0 then Inr newC
      else bindE (ballotRatify E (hasPreparedBallot ballot) s) (\<lambda>ratified.
             if ratified then findNewC E s b ballot cur else Inr newC))"

definition attemptPreparedConfirmed :: "slot_env \<Rightarrow> process \<Rightarrow> SCPPledges \<Rightarrow> slot \<Rightarrow> bool run" where
  "attemptPreparedConfirmed E pe hint s =
     (if mPhase s \<noteq> SCP_PHASE_PREPARE then Inr (s, False)
      else (case mPrepared s of
        None \<Rightarrow> Inr (s, False)
      | Some p \<Rightarrow>
          bindE (getPrepareCandidates (mLatestEnvelopes s) hint) (\<lambda>candidates.
          bindE (findNewH E s (rev candidates)) (\<lambda>found.
          case found of
            None \<Rightarrow> Inr (s, False)
          | Some (newH, cur) \<Rightarrow>
              let b = (case mCurrentBallot s of Some b \<Rightarrow> b | None \<Rightarrow> nullBallot) in
              bindE (if mCommit s = None \<and> \<not> areBallotsLessAndIncompatible newH p \<and>
                        (case mPreparedPrime s of
                           None \<Rightarrow> True | Some pp \<Rightarrow> \<not> areBallotsLessAndIncompatible newH pp)
                     then findNewC E s b nullBallot cur
                     else Inr nullBallot) (\<lambda>newC.
                setPreparedConfirmed E pe newC newH s)))))"

section \<open>Accepting and confirming a commit\<close>

definition setAcceptCommit :: "slot_env \<Rightarrow> process \<Rightarrow> SCPBallot \<Rightarrow> SCPBallot \<Rightarrow> slot \<Rightarrow> bool run" where
  "setAcceptCommit E pe c h s0 =
     (let (s, didWork) =
            (if (case mHighBallot s0 of None \<Rightarrow> True | Some h' \<Rightarrow> compareBallots h' h \<noteq> 0) \<or>
                (case mCommit s0 of None \<Rightarrow> True | Some c' \<Rightarrow> compareBallots c' c \<noteq> 0)
             then (s0\<lparr>mCommit := Some c, mHighBallot := Some h\<rparr>, True) else (s0, False)) in
      bindE (if mPhase s = SCP_PHASE_PREPARE then
               let s1 = s\<lparr>mPhase := SCP_PHASE_CONFIRM\<rparr> in
               bindE (if (case mCurrentBallot s1 of
                            None \<Rightarrow> False | Some b \<Rightarrow> \<not> areBallotsLessAndCompatible h b)
                      then bumpToBallot h False s1 else Inr s1) (\<lambda>s2.
                 Inr (s2\<lparr>mPreparedPrime := None\<rparr>, True))
             else Inr (s, didWork)) (\<lambda>(s, didWork).
        if didWork then
          bindE (updateCurrentIfNeeded s) (\<lambda>s.
          bindE (emitCurrentStateStatement E pe (emitEvent (EvAcceptedCommit h) s))
            (\<lambda>s. Inr (s, didWork)))
        else Inr (s, didWork)))"

text \<open>The ballot the hint commits to; \<open>None\<close> is the early \<open>return false\<close>.\<close>

fun acceptCommitHint :: "SCPPledges \<Rightarrow> cxx_error + SCPBallot option" where
  "acceptCommitHint (PREPARE prep) =
     Inr (if p_nC prep \<noteq> 0 then Some (SCPBallot (p_nH prep) (bvalue (p_ballot prep))) else None)"
| "acceptCommitHint (CONFIRM con) = Inr (Some (SCPBallot (c_nH con) (bvalue (c_ballot con))))"
| "acceptCommitHint (EXTERNALIZE ext) = Inr (Some (SCPBallot (e_nH ext) (bvalue (e_commit ext))))"
| "acceptCommitHint (NOMINATE _) = Inl DbgAbort"

definition attemptAcceptCommit :: "slot_env \<Rightarrow> process \<Rightarrow> SCPPledges \<Rightarrow> slot \<Rightarrow> bool run" where
  "attemptAcceptCommit E pe hint s =
     (if mPhase s \<noteq> SCP_PHASE_PREPARE \<and> mPhase s \<noteq> SCP_PHASE_CONFIRM then Inr (s, False)
      else
        bindE (acceptCommitHint hint) (\<lambda>fromHint.
        case fromHint of
          None \<Rightarrow> Inr (s, False)
        | Some ballot \<Rightarrow>
            bindE (if mPhase s = SCP_PHASE_CONFIRM
                   then bindE (deref (mHighBallot s)) (\<lambda>h. Inr (areBallotsCompatible ballot h))
                   else Inr True) (\<lambda>goOn.
            if \<not> goOn then Inr (s, False)
            else
              bindE (getCommitBoundariesFromStatements (mLatestEnvelopes s) ballot) (\<lambda>boundaries.
              if boundaries = [] then Inr (s, False)
              else
                bindE (findExtendedInterval (0, 0) (rev boundaries)
                         (\<lambda>cur. ballotAccept E (votesCommit ballot cur) (commitPredicate ballot cur) s))
                  (\<lambda>candidate.
                if fst candidate \<noteq> 0 then
                  bindE (if mPhase s \<noteq> SCP_PHASE_CONFIRM then Inr True
                         else bindE (deref (mHighBallot s)) (\<lambda>h. Inr (snd candidate > counter h)))
                    (\<lambda>raises.
                    if raises
                    then setAcceptCommit E pe (SCPBallot (fst candidate) (bvalue ballot))
                           (SCPBallot (snd candidate) (bvalue ballot)) s
                    else Inr (s, False))
                else Inr (s, False))))))"

definition setConfirmCommit :: "slot_env \<Rightarrow> process \<Rightarrow> SCPBallot \<Rightarrow> SCPBallot \<Rightarrow> slot \<Rightarrow> bool run" where
  "setConfirmCommit E pe c h s =
     bindE (updateCurrentIfNeeded (s\<lparr>mCommit := Some c, mHighBallot := Some h\<rparr>)) (\<lambda>s.
     bindE (emitCurrentStateStatement E pe (s\<lparr>mPhase := SCP_PHASE_EXTERNALIZE\<rparr>)) (\<lambda>s.
     bindE (deref (mCommit s)) (\<lambda>commit.
       Inr (emitEvent (EvValueExternalized (bvalue commit)) (stopNomination s), True))))"

fun confirmCommitHint :: "SCPPledges \<Rightarrow> cxx_error + SCPBallot option" where
  "confirmCommitHint (PREPARE prep) = Inr None"
| "confirmCommitHint (CONFIRM con) = Inr (Some (SCPBallot (c_nH con) (bvalue (c_ballot con))))"
| "confirmCommitHint (EXTERNALIZE ext) = Inr (Some (SCPBallot (e_nH ext) (bvalue (e_commit ext))))"
| "confirmCommitHint (NOMINATE _) = Inl DbgAbort"

definition attemptConfirmCommit :: "slot_env \<Rightarrow> process \<Rightarrow> SCPPledges \<Rightarrow> slot \<Rightarrow> bool run" where
  "attemptConfirmCommit E pe hint s =
     (if mPhase s \<noteq> SCP_PHASE_CONFIRM then Inr (s, False)
      else (case (mHighBallot s, mCommit s) of
        (Some h, Some c) \<Rightarrow>
          bindE (confirmCommitHint hint) (\<lambda>fromHint.
          case fromHint of
            None \<Rightarrow> Inr (s, False)
          | Some ballot \<Rightarrow>
              if \<not> areBallotsCompatible ballot c then Inr (s, False)
              else
                bindE (getCommitBoundariesFromStatements (mLatestEnvelopes s) ballot) (\<lambda>boundaries.
                bindE (findExtendedInterval (0, 0) (rev boundaries)
                         (\<lambda>cur. ballotRatify E (commitPredicate ballot cur) s)) (\<lambda>candidate.
                if fst candidate \<noteq> 0
                then setConfirmCommit E pe (SCPBallot (fst candidate) (bvalue ballot))
                       (SCPBallot (snd candidate) (bvalue ballot)) s
                else Inr (s, False))))
      | _ \<Rightarrow> Inr (s, False)))"

section \<open>Following a blocking set to a higher counter\<close>

fun ballotCounter :: "SCPPledges \<Rightarrow> u32" where
  "ballotCounter (PREPARE p) = counter (p_ballot p)"
| "ballotCounter (CONFIRM c) = counter (c_ballot c)"
| "ballotCounter _ = UINT32_MAX"

fun isAhead :: "u32 \<Rightarrow> SCPPledges \<Rightarrow> bool" where
  "isAhead n (PREPARE p) = (n < counter (p_ballot p))"
| "isAhead n (CONFIRM c) = (n < counter (c_ballot c))"
| "isAhead n _ = (n \<noteq> UINT32_MAX)"

text \<open>The loop over the counters, ascending: the counter to move to, if any.\<close>

fun findBump :: "slot_env \<Rightarrow> slot \<Rightarrow> u32 \<Rightarrow> u32 list \<Rightarrow> u32 option" where
  "findBump E s targetCounter [] = None"
| "findBump E s targetCounter (n # it) =
     (if n < targetCounter then None
      else
        let vBlocking = isVBlockingMap (selfQSet E) (mLatestEnvelopes s) (\<lambda>st. isAhead n (pledges st))
        in if n = targetCounter then
             (if \<not> vBlocking then None else findBump E s targetCounter it)
           else (if \<not> vBlocking then Some n else findBump E s targetCounter it))"

definition attemptBump :: "slot_env \<Rightarrow> process \<Rightarrow> slot \<Rightarrow> bool run" where
  "attemptBump E pe s =
     (if mPhase s = SCP_PHASE_PREPARE \<or> mPhase s = SCP_PHASE_CONFIRM then
        bindE (assertE (ballotEnvelopes (mLatestEnvelopes s)) DbgAbort) (\<lambda>_.
          let targetCounter = (case mCurrentBallot s of Some b \<Rightarrow> counter b | None \<Rightarrow> 0);
              allCounters = oset_insert targetCounter (oset_inserts
                (map (\<lambda>(n, e). ballotCounter (pledges (statement e))) (mLatestEnvelopes s)) [])
          in (case findBump E s targetCounter allCounters of
                None \<Rightarrow> Inr (s, False)
              | Some n \<Rightarrow> abandonBallot E pe n s))
      else Inr (s, False))"

text \<open>The \<open>do ... while (didBump)\<close> loop; its state is the slot, \<open>didBump\<close> and \<open>didWork\<close>.\<close>

type_synonym bump_state = "cxx_error + (slot \<times> bool \<times> bool)"

definition bumpCond :: "bump_state \<Rightarrow> bool" where
  "bumpCond r = (case r of Inl _ \<Rightarrow> False | Inr (_, didBump, _) \<Rightarrow> didBump)"

definition bumpBody :: "slot_env \<Rightarrow> process \<Rightarrow> bump_state \<Rightarrow> bump_state" where
  "bumpBody E pe r =
     bindE r (\<lambda>(s, _, didWork).
     bindE (attemptBump E pe s) (\<lambda>(s, didBump). Inr (s, didBump, didBump \<or> didWork)))"

definition bumpLoop :: "slot_env \<Rightarrow> process \<Rightarrow> bool \<Rightarrow> slot \<Rightarrow> bool run" where
  "bumpLoop E pe didWork s =
     (case while_option bumpCond (bumpBody E pe) (bumpBody E pe (Inr (s, False, didWork))) of
        None \<Rightarrow> Inl Diverges
      | Some r \<Rightarrow> bindE r (\<lambda>(s, _, didWork). Inr (s, didWork)))"

section \<open>Processing an envelope\<close>

definition checkHeardFromQuorum :: "slot_env \<Rightarrow> slot \<Rightarrow> cxx_error + slot" where
  "checkHeardFromQuorum E s =
     (case mCurrentBallot s of
        Some b \<Rightarrow>
          if mHeardFromQuorum s then Inr s
          else
            bindE (isQuorum (selfQSet E) (mLatestEnvelopes s) (getQuorumSetFromStatement E)
                     (\<lambda>st. case pledges st of
                             PREPARE p \<Rightarrow> counter b \<le> counter (p_ballot p) | _ \<Rightarrow> True)) (\<lambda>heard.
              if heard
              then Inr (emitEvent (EvBallotDidHearFromQuorum b) (s\<lparr>mHeardFromQuorum := True\<rparr>))
              else Inr s)
      | None \<Rightarrow> Inr s)"

text \<open>The four steps of the protocol, in the order of the source; the flag is \<open>didWork\<close>.\<close>

definition attemptSteps :: "slot_env \<Rightarrow> process \<Rightarrow> SCPPledges \<Rightarrow> slot \<Rightarrow> bool run" where
  "attemptSteps E pe hint s =
     bindE (attemptPreparedAccept E pe hint s) (\<lambda>(s, w1).
     bindE (attemptPreparedConfirmed E pe hint s) (\<lambda>(s, w2).
     bindE (attemptAcceptCommit E pe hint s) (\<lambda>(s, w3).
     bindE (attemptConfirmCommit E pe hint s) (\<lambda>(s, w4).
       Inr (s, w4 \<or> w3 \<or> w2 \<or> w1)))))"

definition advanceSlot :: "slot_env \<Rightarrow> process \<Rightarrow> SCPPledges \<Rightarrow> slot \<Rightarrow> cxx_error + slot" where
  "advanceSlot E pe hint s0 =
     (let s = s0\<lparr>mCurrentMessageLevel := mCurrentMessageLevel s0 + 1\<rparr> in
      if mCurrentMessageLevel s \<ge> MAX_ADVANCE_SLOT_RECURSION
      then Inl (RuntimeError ''maximum number of transitions reached in advanceSlot'')
      else
        bindE (checkHeardFromQuorum E s) (\<lambda>s.
        bindE (attemptSteps E pe hint s) (\<lambda>(s, didWork).
        bindE (if mCurrentMessageLevel s = 1 then bumpLoop E pe didWork s else Inr (s, didWork))
          (\<lambda>(s, didWork).
          let s = s\<lparr>mCurrentMessageLevel := mCurrentMessageLevel s - 1\<rparr>
          in Inr (if didWork then sendLatestEnvelope s else s)))))"

definition processBallotEnvelope :: "slot_env \<Rightarrow> process \<Rightarrow> bool \<Rightarrow> SCPEnvelope \<Rightarrow> slot \<Rightarrow> EnvelopeState run" where
  "processBallotEnvelope E pe self envelope s =
     bindE (dbgAssert (slotIndex (statement envelope) = mSlotIndex E)) (\<lambda>_.
     let st = statement envelope; pl = pledges st in
     bindE (deref (getQuorumSetFromStatement E st)) (\<lambda>qset.
     bindE (isStatementSane qset pl self) (\<lambda>sane.
     if \<not> sane then Inr (s, INVALID)
     else if \<not> isNewerStatementFor (mLatestEnvelopes s) (nodeID st) st then Inr (s, INVALID)
     else
       let validationRes = validateValues (validateValue E) pl in
       if validationRes \<noteq> kInvalidValue then
         (if mPhase s \<noteq> SCP_PHASE_EXTERNALIZE then
            bindE (advanceSlot E pe pl (recordEnvelope envelope
                     (if validationRes = kMaybeValidValue then setFullyValidated False s else s)))
              (\<lambda>s. Inr (s, VALID))
          else
            bindE (deref (mCommit s)) (\<lambda>c.
            bindE (getWorkingBallot pl) (\<lambda>b.
              if bvalue c = bvalue b then Inr (recordEnvelope envelope s, VALID)
              else Inr (s, INVALID))))
       else Inr (s, INVALID))))"

text \<open>
  \<open>Slot::processEnvelope(envelope, true)\<close> on the envelopes the ballot protocol creates, with
  \<open>n\<close> nested calls left. At the message level \<open>l\<close> at most
  \<open>MAX_ADVANCE_SLOT_RECURSION - l\<close> calls can be nested, so that the value for \<open>0\<close> is never
  reached from the entry points below, which leave \<open>MAX_ADVANCE_SLOT_RECURSION\<close> of them.
\<close>

primrec processEnvelopeAt :: "slot_env \<Rightarrow> nat \<Rightarrow> process" where
  "processEnvelopeAt E 0 = (\<lambda>envelope s. Inl Diverges)"
| "processEnvelopeAt E (Suc n) =
     (\<lambda>envelope s. processBallotEnvelope E (processEnvelopeAt E n) True envelope s)"

definition selfProcess :: "slot_env \<Rightarrow> process" where
  "selfProcess E = processEnvelopeAt E MAX_ADVANCE_SLOT_RECURSION"

definition ballotProcessEnvelope :: "slot_env \<Rightarrow> bool \<Rightarrow> SCPEnvelope \<Rightarrow> slot \<Rightarrow> EnvelopeState run" where
  "ballotProcessEnvelope E self envelope s = processBallotEnvelope E (selfProcess E) self envelope s"

section \<open>Restoring and reporting the state\<close>

definition ballotSetStateFromEnvelope :: "slot_env \<Rightarrow> SCPEnvelope \<Rightarrow> slot \<Rightarrow> cxx_error + slot" where
  "ballotSetStateFromEnvelope E e s0 =
     (if mCurrentBallot s0 \<noteq> None
      then Inl (RuntimeError ''Cannot set state after starting ballot protocol'')
      else
        let s = (recordEnvelope e s0)\<lparr>mLastEnvelope := Some e, mLastEnvelopeEmit := Some e\<rparr> in
        (case pledges (statement e) of
           PREPARE prep \<Rightarrow>
             (let b = p_ballot prep in
              bindE (bumpToBallot b True s) (\<lambda>s.
              let s = (case p_prepared prep of Some p \<Rightarrow> s\<lparr>mPrepared := Some p\<rparr> | None \<Rightarrow> s);
                  s = (case p_preparedPrime prep of Some p \<Rightarrow> s\<lparr>mPreparedPrime := Some p\<rparr> | None \<Rightarrow> s);
                  s = (if p_nH prep \<noteq> 0 then s\<lparr>mHighBallot := Some (SCPBallot (p_nH prep) (bvalue b))\<rparr> else s);
                  s = (if p_nC prep \<noteq> 0 then s\<lparr>mCommit := Some (SCPBallot (p_nC prep) (bvalue b))\<rparr> else s)
              in Inr (s\<lparr>mPhase := SCP_PHASE_PREPARE\<rparr>)))
         | CONFIRM c \<Rightarrow>
             (let v = bvalue (c_ballot c) in
              bindE (bumpToBallot (c_ballot c) True s) (\<lambda>s.
                Inr (s\<lparr>mPrepared := Some (SCPBallot (c_nPrepared c) v),
                       mHighBallot := Some (SCPBallot (c_nH c) v),
                       mCommit := Some (SCPBallot (c_nCommit c) v),
                       mPhase := SCP_PHASE_CONFIRM\<rparr>)))
         | EXTERNALIZE ext \<Rightarrow>
             (let v = bvalue (e_commit ext) in
              bindE (bumpToBallot (SCPBallot UINT32_MAX v) True s) (\<lambda>s.
                Inr (s\<lparr>mPrepared := Some (SCPBallot UINT32_MAX v),
                       mHighBallot := Some (SCPBallot (e_nH ext) v),
                       mCommit := Some (e_commit ext),
                       mPhase := SCP_PHASE_EXTERNALIZE\<rparr>)))
         | NOMINATE _ \<Rightarrow> Inl DbgAbort))"

definition ballotGetCurrentState :: "slot_env \<Rightarrow> slot \<Rightarrow> SCPEnvelope list" where
  "ballotGetCurrentState E s =
     map snd (filter (\<lambda>(n, e). n \<noteq> selfID E \<or> mFullyValidated s) (mLatestEnvelopes s))"

fun externalizingEnvelopes :: "slot_env \<Rightarrow> slot \<Rightarrow> envelopes \<Rightarrow> cxx_error + SCPEnvelope list" where
  "externalizingEnvelopes E s [] = Inr []"
| "externalizingEnvelopes E s ((n, e) # m) =
     (if n \<noteq> selfID E then
        bindE (getWorkingBallot (pledges (statement e))) (\<lambda>b.
        bindE (deref (mCommit s)) (\<lambda>c.
        bindE (externalizingEnvelopes E s m) (\<lambda>res.
          Inr (if areBallotsCompatible b c then e # res else res))))
      else bindE (externalizingEnvelopes E s m) (\<lambda>res.
             Inr (if mFullyValidated s then e # res else res)))"

definition ballotGetExternalizingState :: "slot_env \<Rightarrow> slot \<Rightarrow> cxx_error + SCPEnvelope list" where
  "ballotGetExternalizingState E s =
     (if mPhase s = SCP_PHASE_EXTERNALIZE then externalizingEnvelopes E s (mLatestEnvelopes s)
      else Inr [])"

end
