(* ===== verification/Nomination_Protocol.thy ===== *)
theory Nomination_Protocol
  imports Ballot_Protocol
begin

text \<open>
  The nomination protocol: \<open>src/src/scp/NominationProtocol.cpp\<close>.

  \<open>emitNomination\<close> processes the envelope it creates through \<open>mSlot.processEnvelope\<close>, which may
  emit again. Nothing in the source bounds that recursion, so it is a \<open>partial_function\<close>: the
  value \<open>None\<close> is a call that does not return. The map \<open>mLatestNominations\<close> only holds
  nominations, so that the branches of the accessor \<open>pledges.nominate()\<close> for the other types of
  statement, which throw in the source, are not reached.
\<close>

section \<open>Nominations\<close>

text \<open>\<open>std::includes\<close> on the ranges \<open>v\<close> and \<open>p\<close>: the merge of the standard library.\<close>

fun std_includes :: "'a::linorder list \<Rightarrow> 'a list \<Rightarrow> bool" where
  "std_includes v [] = True"
| "std_includes [] (p # ps) = False"
| "std_includes (x # v) (p # ps) =
     (if p < x then False else if \<not> x < p then std_includes v ps else std_includes v (p # ps))"

text \<open>The result and the output parameter \<open>notEqual\<close>.\<close>

definition isSubsetHelper :: "Value list \<Rightarrow> Value list \<Rightarrow> bool \<times> bool" where
  "isSubsetHelper p v =
     (if length p \<le> length v then
        (let res = std_includes v p in (res, if res then length p \<noteq> length v else True))
      else (False, True))"

definition isNewerNomination :: "SCPNomination \<Rightarrow> SCPNomination \<Rightarrow> bool" where
  "isNewerNomination oldst st =
     (let (sub, g) = isSubsetHelper (n_votes oldst) (n_votes st) in
      if sub then
        (let (sub', g') = isSubsetHelper (n_accepted oldst) (n_accepted st)
         in if sub' then g \<or> g' else False)
      else False)"

definition nominate_of :: "SCPPledges \<Rightarrow> SCPNomination" where
  "nominate_of pl =
     (case pl of NOMINATE n \<Rightarrow> n | _ \<Rightarrow> \<lparr>n_quorumSetHash = 0, n_votes = [], n_accepted = []\<rparr>)"

definition isNewerNominationFor :: "envelopes \<Rightarrow> NodeID \<Rightarrow> SCPNomination \<Rightarrow> bool" where
  "isNewerNominationFor m n nom =
     (case map_of m n of
        None \<Rightarrow> True
      | Some e \<Rightarrow> isNewerNomination (nominate_of (pledges (statement e))) nom)"

definition nominationSane :: "slot_env \<Rightarrow> SCPStatement \<Rightarrow> cxx_error + bool" where
  "nominationSane E st =
     (let nom = nominate_of (pledges st) in
      if length (n_votes nom) + length (n_accepted nom) \<noteq> 0 \<and> sorted (n_votes nom) \<and> sorted (n_accepted nom)
      then bindE (deref (getQuorumSetFromStatement E st)) (\<lambda>q. Inr (isQuorumSetSane q False))
      else Inr False)"

definition recordNomination :: "SCPEnvelope \<Rightarrow> slot \<Rightarrow> slot" where
  "recordNomination env s =
     recordStatement (statement env)
       (s\<lparr>mLatestNominations := omap_put (nodeID (statement env)) env (mLatestNominations s)\<rparr>)"

definition acceptPredicate :: "Value \<Rightarrow> SCPStatement \<Rightarrow> bool" where
  "acceptPredicate v st \<longleftrightarrow> v \<in> set (n_accepted (nominate_of (pledges st)))"

definition votePredicate :: "Value \<Rightarrow> SCPStatement \<Rightarrow> bool" where
  "votePredicate v st \<longleftrightarrow> v \<in> set (n_votes (nominate_of (pledges st)))"

text \<open>The values \<open>applyAll\<close> applies its argument to, in order.\<close>

definition applyAll :: "SCPNomination \<Rightarrow> Value list" where
  "applyAll nom = n_votes nom @ n_accepted nom"

definition nominationStatementValues :: "SCPPledges \<Rightarrow> Value list" where
  "nominationStatementValues pl = applyAll (nominate_of pl)"

section \<open>Leaders\<close>

definition hashNode :: "slot_env \<Rightarrow> slot \<Rightarrow> bool \<Rightarrow> NodeID \<Rightarrow> cxx_error + u64" where
  "hashNode E s isPriority n =
     bindE (dbgAssert (mPreviousValue s \<noteq> [])) (\<lambda>_.
       Inr (computeHashNode E (mPreviousValue s) isPriority (mRoundNumber s) n))"

definition hashValue :: "slot_env \<Rightarrow> slot \<Rightarrow> Value \<Rightarrow> cxx_error + u64" where
  "hashValue E s v =
     bindE (dbgAssert (mPreviousValue s \<noteq> [])) (\<lambda>_.
       Inr (computeValueHash E (mPreviousValue s) (mRoundNumber s) v))"

definition getNodePriority :: "slot_env \<Rightarrow> slot \<Rightarrow> NodeID \<Rightarrow> SCPQuorumSet \<Rightarrow> cxx_error + u64" where
  "getNodePriority E s n qset =
     bindE (getNodeWeight n qset) (\<lambda>w.
     bindE (hashNode E s False n) (\<lambda>h.
       if h < w then hashNode E s True n else Inr 0))"

fun leadersLoop :: "slot_env \<Rightarrow> slot \<Rightarrow> NodeID list \<Rightarrow> u64 \<Rightarrow> NodeID oset \<Rightarrow> cxx_error + NodeID oset" where
  "leadersLoop E s [] topPriority leaders = Inr leaders"
| "leadersLoop E s (cur # ns) topPriority leaders =
     bindE (getNodePriority E s cur (selfQSet E)) (\<lambda>w.
       let (topPriority, leaders) = (if w > topPriority then (w, []) else (topPriority, leaders));
           leaders = (if w = topPriority \<and> w > 0 then oset_insert cur leaders else leaders)
       in leadersLoop E s ns topPriority leaders)"

definition updateRoundLeaders :: "slot_env \<Rightarrow> slot \<Rightarrow> cxx_error + slot" where
  "updateRoundLeaders E s =
     bindE (leadersLoop E s (forAllNodes (selfQSet E)) 0 []) (\<lambda>leaders. Inr (s\<lparr>mRoundLeaders := leaders\<rparr>))"

text \<open>\<open>newVote\<close> and \<open>newHash\<close> go through the values of the nomination.\<close>

fun newValueLoop :: "slot_env \<Rightarrow> slot \<Rightarrow> Value list \<Rightarrow> Value \<Rightarrow> u64 \<Rightarrow> cxx_error + Value" where
  "newValueLoop E s [] newVote newHash = Inr newVote"
| "newValueLoop E s (v # vs) newVote newHash =
     (let toNominate = (if validateValue E v = kFullyValidatedValue then v else extractValidValue E v) in
      if toNominate \<noteq> [] \<and> toNominate \<notin> set (mVotes s) then
        bindE (hashValue E s toNominate) (\<lambda>curHash.
          if curHash \<ge> newHash then newValueLoop E s vs toNominate curHash
          else newValueLoop E s vs newVote newHash)
      else newValueLoop E s vs newVote newHash)"

definition getNewValueFromNomination :: "slot_env \<Rightarrow> slot \<Rightarrow> SCPNomination \<Rightarrow> cxx_error + Value" where
  "getNewValueFromNomination E s nom = newValueLoop E s (applyAll nom) [] 0"

section \<open>Processing a nomination\<close>

text \<open>The first loop of \<open>processEnvelope\<close>: votes that are accepted; the flag is \<open>modified\<close>.\<close>

fun promoteVotes :: "slot_env \<Rightarrow> Value list \<Rightarrow> slot \<times> bool \<Rightarrow> bool run" where
  "promoteVotes E [] (s, modified) = Inr (s, modified)"
| "promoteVotes E (v # vs) (s, modified) =
     (if v \<in> set (mAccepted s) then promoteVotes E vs (s, modified)
      else
        bindE (federatedAccept E (votePredicate v) (acceptPredicate v) (mLatestNominations s)) (\<lambda>acc.
          if acc then
            (if validateValue E v = kFullyValidatedValue then
               promoteVotes E vs
                 (s\<lparr>mAccepted := oset_insert v (mAccepted s), mVotes := oset_insert v (mVotes s)\<rparr>, True)
             else
               let toVote = extractValidValue E v in
               if toVote \<noteq> [] \<and> toVote \<notin> set (mVotes s)
               then promoteVotes E vs (s\<lparr>mVotes := oset_insert toVote (mVotes s)\<rparr>, True)
               else promoteVotes E vs (s, modified))
          else promoteVotes E vs (s, modified)))"

text \<open>The second loop: accepted values that are ratified; the flag is \<open>newCandidates\<close>.\<close>

fun promoteAccepted :: "slot_env \<Rightarrow> Value list \<Rightarrow> slot \<times> bool \<Rightarrow> bool run" where
  "promoteAccepted E [] (s, newCandidates) = Inr (s, newCandidates)"
| "promoteAccepted E (a # as) (s, newCandidates) =
     (if a \<in> set (mCandidates s) then promoteAccepted E as (s, newCandidates)
      else
        bindE (federatedRatify E (acceptPredicate a) (mLatestNominations s)) (\<lambda>rat.
          if rat then promoteAccepted E as (s\<lparr>mCandidates := oset_insert a (mCandidates s)\<rparr>, True)
          else promoteAccepted E as (s, newCandidates)))"

definition takeLeaderVote :: "slot_env \<Rightarrow> SCPStatement \<Rightarrow> slot \<times> bool \<Rightarrow> bool run" where
  "takeLeaderVote E st = (\<lambda>(s, modified).
     if mCandidates s = [] \<and> nodeID st \<in> set (mRoundLeaders s) then
       bindE (getNewValueFromNomination E s (nominate_of (pledges st))) (\<lambda>newVote.
         if newVote \<noteq> [] then Inr (s\<lparr>mVotes := oset_insert newVote (mVotes s)\<rparr>, True)
         else Inr (s, modified))
     else Inr (s, modified))"

text \<open>
  \<open>processEnvelope\<close> up to \<open>if (modified)\<close>: the state, the result, \<open>modified\<close> and
  \<open>newCandidates\<close>.
\<close>

definition nominationStep ::
  "slot_env \<Rightarrow> SCPEnvelope \<Rightarrow> slot \<Rightarrow> cxx_error + (slot \<times> EnvelopeState \<times> bool \<times> bool)" where
  "nominationStep E env s =
     (let st = statement env; nom = nominate_of (pledges st) in
      if isNewerNominationFor (mLatestNominations s) (nodeID st) nom then
        bindE (nominationSane E st) (\<lambda>sane.
          if sane then
            let s = recordNomination env s in
            if mNominationStarted s then
              bindE (promoteVotes E (n_votes nom) (s, False)) (\<lambda>(s, modified).
              bindE (promoteAccepted E (mAccepted s) (s, False)) (\<lambda>(s, newCandidates).
              bindE (takeLeaderVote E st (s, modified)) (\<lambda>(s, modified).
                Inr (s, VALID, modified, newCandidates))))
            else Inr (s, VALID, False, False)
          else Inr (s, INVALID, False, False))
      else Inr (s, INVALID, False, False))"

definition nominationEnvelope :: "slot_env \<Rightarrow> slot \<Rightarrow> SCPEnvelope" where
  "nominationEnvelope E s =
     createEnvelope E (NOMINATE
       \<lparr>n_quorumSetHash = mQSetHash (localNode E), n_votes = mVotes s, n_accepted = mAccepted s\<rparr>)"

text \<open>The rest of \<open>emitNomination\<close>, once the envelope is processed.\<close>

definition nominationEmitted :: "SCPEnvelope \<Rightarrow> slot \<times> EnvelopeState \<Rightarrow> cxx_error + slot" where
  "nominationEmitted env = (\<lambda>(s, res).
     if res = VALID then
       (if (case mLastNomination s of
              None \<Rightarrow> True
            | Some l \<Rightarrow> isNewerNomination (nominate_of (pledges (statement l)))
                          (nominate_of (pledges (statement env))))
        then
          let s = s\<lparr>mLastNomination := Some env\<rparr>
          in Inr (if mFullyValidated s then emitEvent (EvEmitEnvelope env) s else s)
        else Inr s)
     else Inl (RuntimeError ''moved to a bad state (nomination)''))"

definition newCandidatesStep :: "slot_env \<Rightarrow> slot \<Rightarrow> cxx_error + slot" where
  "newCandidatesStep E s =
     (let v = combineCandidates E (mCandidates s);
          s = emitEvent (EvUpdatedCandidateValue v) (s\<lparr>mLatestCompositeCandidate := v\<rparr>)
      in bindE (bumpState E (selfProcess E) v False s) (\<lambda>(s, _). Inr s))"

definition nominationDone :: "slot_env \<Rightarrow> EnvelopeState \<Rightarrow> bool \<Rightarrow> slot \<Rightarrow> EnvelopeState run" where
  "nominationDone E res newCandidates s =
     (if newCandidates then bindE (newCandidatesStep E s) (\<lambda>s. Inr (s, res)) else Inr (s, res))"

partial_function (option) processNomination ::
  "slot_env \<Rightarrow> SCPEnvelope \<Rightarrow> slot \<Rightarrow> EnvelopeState run option" where
  "processNomination E env s =
     (case nominationStep E env s of
        Inl e \<Rightarrow> Some (Inl e)
      | Inr (s, res, modified, newCandidates) \<Rightarrow>
          if modified then
            Option.bind (processNomination E (nominationEnvelope E s) s) (\<lambda>r.
              Some (bindE (bindE r (nominationEmitted (nominationEnvelope E s)))
                      (nominationDone E res newCandidates)))
          else Some (nominationDone E res newCandidates s))"

declare processNomination.simps [code]

definition emitNomination :: "slot_env \<Rightarrow> slot \<Rightarrow> (cxx_error + slot) option" where
  "emitNomination E s =
     Option.bind (processNomination E (nominationEnvelope E s) s) (\<lambda>r.
       Some (bindE r (nominationEmitted (nominationEnvelope E s))))"

section \<open>Nominating a value\<close>

text \<open>The loop over the leaders: the state, the value to nominate and \<open>updated\<close>.\<close>

fun leaderValues :: "slot_env \<Rightarrow> NodeID list \<Rightarrow> slot \<times> Value \<times> bool \<Rightarrow> cxx_error + (slot \<times> Value \<times> bool)" where
  "leaderValues E [] r = Inr r"
| "leaderValues E (leader # ls) (s, nominatingValue, updated) =
     (case map_of (mLatestNominations s) leader of
        None \<Rightarrow> leaderValues E ls (s, nominatingValue, updated)
      | Some e \<Rightarrow>
          bindE (getNewValueFromNomination E s (nominate_of (pledges (statement e)))) (\<lambda>v.
            if v \<noteq> [] then leaderValues E ls (s\<lparr>mVotes := oset_insert v (mVotes s)\<rparr>, v, True)
            else leaderValues E ls (s, v, updated)))"

text \<open>\<open>nominate\<close> up to \<open>if (updated)\<close>.\<close>

definition nominateStep :: "slot_env \<Rightarrow> Value \<Rightarrow> Value \<Rightarrow> slot \<Rightarrow> bool run" where
  "nominateStep E value previousValue s =
     bindE (assertE (mRoundNumber s < 2147483647) SignedOverflow) (\<lambda>_.
     bindE (updateRoundLeaders E
              (s\<lparr>mNominationStarted := True, mPreviousValue := previousValue,
                 mRoundNumber := mRoundNumber s + 1\<rparr>)) (\<lambda>s.
     bindE (if selfID E \<in> set (mRoundLeaders s)
            then Inr (s\<lparr>mVotes := oset_insert value (mVotes s)\<rparr>, value, value \<notin> set (mVotes s))
            else leaderValues E (mRoundLeaders s) (s, [], False)) (\<lambda>(s, nominatingValue, updated).
       let timeout = computeTimeout (of_int (mRoundNumber s));
           s = emitEvent (EvSetupTimer NOMINATION_TIMER timeout)
                 (emitEvent (EvNominatingValue nominatingValue) s)
       in Inr (s, updated))))"

definition nominate :: "slot_env \<Rightarrow> Value \<Rightarrow> Value \<Rightarrow> bool \<Rightarrow> slot \<Rightarrow> bool run option" where
  "nominate E value previousValue timedout s =
     (if timedout \<and> \<not> mNominationStarted s then Some (Inr (s, False))
      else (case nominateStep E value previousValue s of
        Inl e \<Rightarrow> Some (Inl e)
      | Inr (s, updated) \<Rightarrow>
          if updated then
            Option.bind (emitNomination E s) (\<lambda>r. Some (bindE r (\<lambda>s. Inr (s, updated))))
          else Some (Inr (s, updated))))"

section \<open>Restoring and reporting the state\<close>

definition nominationSetStateFromEnvelope :: "SCPEnvelope \<Rightarrow> slot \<Rightarrow> cxx_error + slot" where
  "nominationSetStateFromEnvelope e s =
     (if mNominationStarted s
      then Inl (RuntimeError ''Cannot set state after nomination is started'')
      else
        let s = recordNomination e s; nom = nominate_of (pledges (statement e)) in
        Inr (s\<lparr>mAccepted := oset_inserts (n_accepted nom) (mAccepted s),
               mVotes := oset_inserts (n_votes nom) (mVotes s),
               mLastNomination := Some e\<rparr>))"

definition nominationGetCurrentState :: "slot_env \<Rightarrow> slot \<Rightarrow> SCPEnvelope list" where
  "nominationGetCurrentState E s =
     map snd (filter (\<lambda>(n, e). n \<noteq> selfID E \<or> mFullyValidated s) (mLatestNominations s))"

end
