(* ===== verification/Slot_Operations.thy ===== *)
theory Slot_Operations
  imports Nomination_Protocol
begin

text \<open>
  The operations of a slot (\<open>src/src/scp/Slot.cpp\<close>) and of the protocol object that owns the
  slots (\<open>src/src/scp/SCP.cpp\<close>). A slot sends each envelope to the protocol of its statement;
  \<open>SCP\<close> finds or creates the slot and checks signatures. An operation that may process a
  nomination returns an option, as \<open>processNomination\<close> does.
\<close>

section \<open>Slots\<close>

definition slotProcessEnvelope :: "slot_env \<Rightarrow> bool \<Rightarrow> SCPEnvelope \<Rightarrow> slot \<Rightarrow> EnvelopeState run option" where
  "slotProcessEnvelope E self env s =
     (if slotIndex (statement env) \<noteq> mSlotIndex E then Some (Inl DbgAbort)
      else (case pledges (statement env) of
        NOMINATE _ \<Rightarrow> processNomination E env s
      | _ \<Rightarrow> Some (ballotProcessEnvelope E self env s)))"

definition slotAbandonBallot :: "slot_env \<Rightarrow> slot \<Rightarrow> bool run" where
  "slotAbandonBallot E s = abandonBallot E (selfProcess E) 0 s"

definition slotBumpState :: "slot_env \<Rightarrow> Value \<Rightarrow> bool \<Rightarrow> slot \<Rightarrow> bool run" where
  "slotBumpState E value force s = bumpState E (selfProcess E) value force s"

definition slotSetStateFromEnvelope :: "slot_env \<Rightarrow> SCPEnvelope \<Rightarrow> slot \<Rightarrow> cxx_error + slot" where
  "slotSetStateFromEnvelope E e s =
     (if nodeID (statement e) = selfID E \<and> slotIndex (statement e) = mSlotIndex E then
        (case pledges (statement e) of
           NOMINATE _ \<Rightarrow> nominationSetStateFromEnvelope e s
         | _ \<Rightarrow> ballotSetStateFromEnvelope E e s)
      else Inr s)"

definition slotGetLatestMessagesSend :: "slot \<Rightarrow> SCPEnvelope list" where
  "slotGetLatestMessagesSend s =
     (if mFullyValidated s then optElem (mLastNomination s) @ optElem (mLastEnvelopeEmit s) else [])"

definition slotGetCurrentState :: "slot_env \<Rightarrow> slot \<Rightarrow> SCPEnvelope list" where
  "slotGetCurrentState E s = nominationGetCurrentState E s @ ballotGetCurrentState E s"

definition getEntireCurrentState :: "slot_env \<Rightarrow> slot \<Rightarrow> SCPEnvelope list" where
  "getEntireCurrentState E s = slotGetCurrentState E (s\<lparr>mFullyValidated := True\<rparr>)"

definition getStatementValues :: "SCPPledges \<Rightarrow> cxx_error + Value list" where
  "getStatementValues pl =
     (case pl of
        NOMINATE _ \<Rightarrow> Inr (nominationStatementValues pl)
      | _ \<Rightarrow> bindE (getWorkingBallot pl) (\<lambda>b. Inr [bvalue b]))"

text \<open>The statements of each node, in the order they were recorded.\<close>

definition statementsByNode :: "(SCPStatement \<times> bool) list \<Rightarrow> NodeID \<Rightarrow> SCPStatement list option" where
  "statementsByNode hist n =
     (let sts = filter (\<lambda>st. nodeID st = n) (map fst hist) in if sts = [] then None else Some sts)"

definition slotIsNodeInQuorum ::
  "(NodeID oset \<Rightarrow> NodeID) \<Rightarrow> slot_env \<Rightarrow> NodeID \<Rightarrow> slot \<Rightarrow> cxx_error + TriBool" where
  "slotIsNodeInQuorum pick E node s =
     isNodeInQuorum pick (localNode E) node
       (\<lambda>st. getQSet E (getCompanionQuorumSetHashFromStatement (pledges st)))
       (statementsByNode (mStatementsHistory s))"

section \<open>The protocol object\<close>

text \<open>\<open>SCPDriver\<close>: the functions of the application, by slot.\<close>

record SCPDriver =
  d_getQSet :: "Hash \<Rightarrow> SCPQuorumSet option"
  d_validateValue :: "u64 \<Rightarrow> Value \<Rightarrow> ValidationLevel"
  d_extractValidValue :: "u64 \<Rightarrow> Value \<Rightarrow> Value"
  d_combineCandidates :: "u64 \<Rightarrow> Value oset \<Rightarrow> Value"
  d_computeHashNode :: "u64 \<Rightarrow> Value \<Rightarrow> bool \<Rightarrow> int \<Rightarrow> NodeID \<Rightarrow> u64"
  d_computeValueHash :: "u64 \<Rightarrow> Value \<Rightarrow> int \<Rightarrow> Value \<Rightarrow> u64"
  d_signEnvelope :: "SCPStatement \<Rightarrow> bytes"
  d_verifyEnvelope :: "SCPEnvelope \<Rightarrow> bool"

record SCP =
  mLocalNode :: LocalNode
  mKnownSlots :: "(u64, slot) omap"

definition slotEnv :: "SCPDriver \<Rightarrow> LocalNode \<Rightarrow> u64 \<Rightarrow> slot_env" where
  "slotEnv D ln i =
     \<lparr>localNode = ln, mSlotIndex = i, getQSet = d_getQSet D, validateValue = d_validateValue D i,
      extractValidValue = d_extractValidValue D i, combineCandidates = d_combineCandidates D i,
      computeHashNode = d_computeHashNode D i, computeValueHash = d_computeValueHash D i,
      signEnvelope = d_signEnvelope D\<rparr>"

definition newSCP :: "(SCPQuorumSet \<Rightarrow> Hash) \<Rightarrow> NodeID \<Rightarrow> bool \<Rightarrow> SCPQuorumSet \<Rightarrow> SCP" where
  "newSCP qhash nid isValidator qSet =
     \<lparr>mLocalNode = newLocalNode qhash nid isValidator qSet, mKnownSlots = []\<rparr>"

definition getSlot :: "SCPDriver \<Rightarrow> u64 \<Rightarrow> bool \<Rightarrow> SCP \<Rightarrow> SCP \<times> slot option" where
  "getSlot D i create scp =
     (case map_of (mKnownSlots scp) i of
        None \<Rightarrow>
          (if create then
             let s = newSlot (slotEnv D (mLocalNode scp) i)
             in (scp\<lparr>mKnownSlots := omap_put i s (mKnownSlots scp)\<rparr>, Some s)
           else (scp, None))
      | Some s \<Rightarrow> (scp, Some s))"

definition putSlot :: "u64 \<Rightarrow> slot \<Rightarrow> SCP \<Rightarrow> SCP" where
  "putSlot i s scp = scp\<lparr>mKnownSlots := omap_put i s (mKnownSlots scp)\<rparr>"

text \<open>A call on the slot that \<open>getSlot(slotIndex, true)\<close> returns.\<close>

definition onSlot :: "SCPDriver \<Rightarrow> u64 \<Rightarrow> (slot_env \<Rightarrow> slot \<Rightarrow> 'a run) \<Rightarrow> SCP \<Rightarrow> cxx_error + (SCP \<times> 'a)" where
  "onSlot D i call scp =
     (case getSlot D i True scp of
        (scp, None) \<Rightarrow> Inl NullDeref
      | (scp, Some s) \<Rightarrow>
          bindE (call (slotEnv D (mLocalNode scp) i) s) (\<lambda>(s, r). Inr (putSlot i s scp, r)))"

definition onSlotOpt ::
  "SCPDriver \<Rightarrow> u64 \<Rightarrow> (slot_env \<Rightarrow> slot \<Rightarrow> 'a run option) \<Rightarrow> SCP \<Rightarrow> (cxx_error + (SCP \<times> 'a)) option" where
  "onSlotOpt D i call scp =
     (case getSlot D i True scp of
        (scp, None) \<Rightarrow> Some (Inl NullDeref)
      | (scp, Some s) \<Rightarrow>
          map_option (\<lambda>r. bindE r (\<lambda>(s, res). Inr (putSlot i s scp, res)))
            (call (slotEnv D (mLocalNode scp) i) s))"

definition receiveEnvelope :: "SCPDriver \<Rightarrow> SCPEnvelope \<Rightarrow> SCP \<Rightarrow> (cxx_error + (SCP \<times> EnvelopeState)) option" where
  "receiveEnvelope D env scp =
     (if \<not> d_verifyEnvelope D env then Some (Inr (scp, INVALID))
      else onSlotOpt D (slotIndex (statement env)) (\<lambda>E s. slotProcessEnvelope E False env s) scp)"

definition scpAbandonBallot :: "SCPDriver \<Rightarrow> u64 \<Rightarrow> SCP \<Rightarrow> cxx_error + (SCP \<times> bool)" where
  "scpAbandonBallot D i scp =
     bindE (dbgAssert (mIsValidator (mLocalNode scp))) (\<lambda>_. onSlot D i slotAbandonBallot scp)"

definition scpNominate :: "SCPDriver \<Rightarrow> u64 \<Rightarrow> Value \<Rightarrow> Value \<Rightarrow> SCP \<Rightarrow> (cxx_error + (SCP \<times> bool)) option" where
  "scpNominate D i value previousValue scp =
     (if mIsValidator (mLocalNode scp)
      then onSlotOpt D i (\<lambda>E s. nominate E value previousValue False s) scp
      else Some (Inl DbgAbort))"

definition scpStopNomination :: "u64 \<Rightarrow> SCP \<Rightarrow> SCP" where
  "scpStopNomination i scp =
     (case map_of (mKnownSlots scp) i of
        None \<Rightarrow> scp | Some s \<Rightarrow> putSlot i (stopNomination s) scp)"

definition updateLocalQuorumSet :: "(SCPQuorumSet \<Rightarrow> Hash) \<Rightarrow> SCPQuorumSet \<Rightarrow> SCP \<Rightarrow> SCP" where
  "updateLocalQuorumSet qhash qSet scp =
     scp\<lparr>mLocalNode := updateQuorumSet qhash qSet (mLocalNode scp)\<rparr>"

definition purgeSlots :: "u64 \<Rightarrow> SCP \<Rightarrow> SCP" where
  "purgeSlots maxSlotIndex scp =
     scp\<lparr>mKnownSlots := filter (\<lambda>(i, s). \<not> i < maxSlotIndex) (mKnownSlots scp)\<rparr>"

definition scpGetLatestMessagesSend :: "u64 \<Rightarrow> SCP \<Rightarrow> SCPEnvelope list" where
  "scpGetLatestMessagesSend i scp =
     (case map_of (mKnownSlots scp) i of None \<Rightarrow> [] | Some s \<Rightarrow> slotGetLatestMessagesSend s)"

definition scpSetStateFromEnvelope :: "SCPDriver \<Rightarrow> u64 \<Rightarrow> SCPEnvelope \<Rightarrow> SCP \<Rightarrow> cxx_error + SCP" where
  "scpSetStateFromEnvelope D i e scp =
     (if d_verifyEnvelope D e
      then bindE (onSlot D i (\<lambda>E s. bindE (slotSetStateFromEnvelope E e s) (\<lambda>s. Inr (s, ()))) scp)
             (\<lambda>(scp, _). Inr scp)
      else Inr scp)"

definition scpGetCurrentState :: "SCPDriver \<Rightarrow> u64 \<Rightarrow> SCP \<Rightarrow> SCPEnvelope list" where
  "scpGetCurrentState D i scp =
     (case map_of (mKnownSlots scp) i of
        None \<Rightarrow> [] | Some s \<Rightarrow> slotGetCurrentState (slotEnv D (mLocalNode scp) i) s)"

definition scpGetExternalizingState :: "SCPDriver \<Rightarrow> u64 \<Rightarrow> SCP \<Rightarrow> cxx_error + SCPEnvelope list" where
  "scpGetExternalizingState D i scp =
     (case map_of (mKnownSlots scp) i of
        None \<Rightarrow> Inr [] | Some s \<Rightarrow> ballotGetExternalizingState (slotEnv D (mLocalNode scp) i) s)"

fun nodeInQuorumLoop ::
  "(NodeID oset \<Rightarrow> NodeID) \<Rightarrow> SCPDriver \<Rightarrow> LocalNode \<Rightarrow> NodeID \<Rightarrow> (u64 \<times> slot) list \<Rightarrow> TriBool \<Rightarrow>
     cxx_error + TriBool" where
  "nodeInQuorumLoop pick D ln node [] res = Inr res"
| "nodeInQuorumLoop pick D ln node ((i, s) # slots) res =
     bindE (slotIsNodeInQuorum pick (slotEnv D ln i) node s) (\<lambda>res.
       if res = TB_TRUE \<or> res = TB_FALSE then Inr res
       else nodeInQuorumLoop pick D ln node slots res)"

definition scpIsNodeInQuorum ::
  "(NodeID oset \<Rightarrow> NodeID) \<Rightarrow> SCPDriver \<Rightarrow> NodeID \<Rightarrow> SCP \<Rightarrow> cxx_error + TriBool" where
  "scpIsNodeInQuorum pick D node scp =
     nodeInQuorumLoop pick D (mLocalNode scp) node (mKnownSlots scp) TB_MAYBE"

definition getKnownSlotsCount :: "SCP \<Rightarrow> nat" where
  "getKnownSlotsCount scp = length (mKnownSlots scp)"

definition getCumulativeStatemtCount :: "SCP \<Rightarrow> nat" where
  "getCumulativeStatemtCount scp =
     sum_list (map (\<lambda>(i, s). length (mStatementsHistory s)) (mKnownSlots scp))"

end
