(* ===== verification/Ballot_Order.thy ===== *)
theory Ballot_Order
  imports Ballot_Statements "HOL-Library.Product_Lexorder" "HOL-Library.Option_ord"
begin

text \<open>
  The orders of the ballot protocol. \<open>compareBallots\<close> is the sign of the order of ballots, and
  \<open>isNewerStatement\<close> compares statements by a key in a linear order, lexicographically. What a
  map of latest statements relies on is the locale \<open>statement_order\<close>.
\<close>

section \<open>Ballots\<close>

lemma compareBallots_simps [simp]:
  "compareBallots a b \<le> 0 \<longleftrightarrow> a \<le> b"
  "compareBallots a b \<ge> 0 \<longleftrightarrow> b \<le> a"
  "compareBallots a b < 0 \<longleftrightarrow> a < b"
  "compareBallots a b > 0 \<longleftrightarrow> b < a"
  "compareBallots a b = 0 \<longleftrightarrow> a = b"
  by (cases a; cases b; auto simp: compareBallots_def ballot_le_iff ballot_less_iff)+

lemma compareBallotsPtr_simps [simp]:
  "compareBallotsPtr a b < 0 \<longleftrightarrow> a < b"
  "compareBallotsPtr a b = 0 \<longleftrightarrow> a = b"
  by (cases a; cases b; simp)+

lemma less_compatible_iff:
  "areBallotsLessAndCompatible a b \<longleftrightarrow> counter a \<le> counter b \<and> bvalue a = bvalue b"
  by (auto simp: areBallotsLessAndCompatible_def areBallotsCompatible_def less_eq_SCPBallot_def)

lemma less_incompatible_iff:
  "areBallotsLessAndIncompatible a b \<longleftrightarrow> a < b \<and> bvalue a \<noteq> bvalue b"
  by (auto simp: areBallotsLessAndIncompatible_def areBallotsCompatible_def order.order_iff_strict)

section \<open>Statements\<close>

type_synonym statement_key = "nat \<times> SCPBallot \<times> SCPBallot option \<times> SCPBallot option \<times> u32"

fun pledgesKey :: "SCPPledges \<Rightarrow> statement_key" where
  "pledgesKey (PREPARE p) = (0, p_ballot p, p_prepared p, p_preparedPrime p, p_nH p)"
| "pledgesKey (CONFIRM c) = (1, c_ballot c, Some (SCPBallot (c_nPrepared c) []), None, c_nH c)"
| "pledgesKey (EXTERNALIZE _) = (2, nullBallot, None, None, 0)"
| "pledgesKey (NOMINATE _) = (3, nullBallot, None, None, 0)"

lemma isNewerPledges_key: "isNewerPledges a b \<longleftrightarrow> pledgesKey a < pledgesKey b"
  by (cases a; cases b) (auto simp: Let_def less_prod_def ballot_less_iff ballot_le_iff)

lemma isNewerStatement_key:
  "isNewerStatement a b \<longleftrightarrow> pledgesKey (pledges a) < pledgesKey (pledges b)"
  by (simp add: isNewerStatement_def isNewerPledges_key)

text \<open>What recording the newest statement of each node relies on.\<close>

locale statement_order =
  fixes newer :: "'st \<Rightarrow> 'st \<Rightarrow> bool"
  assumes newer_irrefl: "\<not> newer a a"
    and newer_trans: "newer a b \<Longrightarrow> newer b c \<Longrightarrow> newer a c"
begin

lemma newer_asym: "newer a b \<Longrightarrow> \<not> newer b a"
  using newer_irrefl newer_trans by blast

lemma newer_eq_trans: "a = b \<or> newer a b \<Longrightarrow> b = c \<or> newer b c \<Longrightarrow> a = c \<or> newer a c"
  using newer_trans by blast

lemma newer_snoc:
  "sorted_wrt newer xs \<Longrightarrow> (\<And>x. x \<in> set xs \<Longrightarrow> newer x y) \<Longrightarrow> sorted_wrt newer (xs @ [y])"
  by (auto simp: sorted_wrt_append)

lemma sorted_newer_distinct: "sorted_wrt newer xs \<Longrightarrow> distinct xs"
  by (induction xs) (auto simp: newer_irrefl)

end

interpretation ballot_order: statement_order isNewerStatement
  by unfold_locales (auto simp: isNewerStatement_key)

section \<open>Candidates and intervals\<close>

text \<open>A statement that commits to an interval commits to every interval inside it.\<close>

lemma commitPredicate_mono:
  "commitPredicate b (lo, hi) pl \<Longrightarrow> lo \<le> lo' \<Longrightarrow> hi' \<le> hi \<Longrightarrow> commitPredicate b (lo', hi') pl"
  by (cases pl) auto

lemma hasPreparedBallot_mono:
  "hasPreparedBallot b pl \<Longrightarrow> areBallotsLessAndCompatible b' b \<Longrightarrow> hasPreparedBallot b' pl"
  by (cases pl) (auto simp: less_compatible_iff areBallotsCompatible_def split: option.splits)

text \<open>The value a statement claims to have committed to.\<close>

fun commitValue :: "SCPPledges \<Rightarrow> Value option" where
  "commitValue (CONFIRM c) = Some (bvalue (c_ballot c))"
| "commitValue (EXTERNALIZE e) = Some (bvalue (e_commit e))"
| "commitValue _ = None"

lemma commitPredicate_value: "commitPredicate b i pl \<Longrightarrow> commitValue pl = Some (bvalue b)"
  by (cases pl) (auto simp: areBallotsCompatible_def)

lemma findExtendedInterval_pred:
  "findExtendedInterval cand bs pred = Inr r \<Longrightarrow> fst r \<noteq> 0 \<Longrightarrow> r = cand \<or> pred r = Inr True"
  by (induction cand bs pred rule: findExtendedInterval.induct)
    (auto simp: Let_def bind_simps split: if_splits)

text \<open>
  From the top of the boundaries: the high end is the first boundary that is good alone, and the
  low end goes down through the boundaries as long as the interval is good.
\<close>

fun lowEnd :: "(interval \<Rightarrow> bool) \<Rightarrow> u32 \<Rightarrow> u32 \<Rightarrow> u32 list \<Rightarrow> u32" where
  "lowEnd good hi lo [] = lo"
| "lowEnd good hi lo (b # bs) = (if good (b, hi) then lowEnd good hi b bs else lo)"

fun extendedInterval :: "(interval \<Rightarrow> bool) \<Rightarrow> u32 list \<Rightarrow> interval" where
  "extendedInterval good [] = (0, 0)"
| "extendedInterval good (b # bs) =
     (if good (b, b) then (lowEnd good b b bs, b) else extendedInterval good bs)"

lemma findExtendedInterval_low:
  "lo \<noteq> 0 \<Longrightarrow> sorted_wrt (>) (hi # bs) \<Longrightarrow> 0 \<notin> set bs \<Longrightarrow>
     findExtendedInterval (lo, hi) bs (\<lambda>i. Inr (good i)) = Inr (lowEnd good hi lo bs, hi)"
  by (induction bs arbitrary: lo) (auto simp: Let_def)

lemma findExtendedInterval_spec:
  "sorted_wrt (>) bs \<Longrightarrow> 0 \<notin> set bs \<Longrightarrow>
     findExtendedInterval (0, 0) bs (\<lambda>i. Inr (good i)) = Inr (extendedInterval good bs)"
  by (induction bs) (auto simp: Let_def findExtendedInterval_low)

end
