(* ===== verification/Ballot_Invariants.thy ===== *)
theory Ballot_Invariants
  imports Ballot_Protocol Ballot_Order
begin

text \<open>
  What every operation of the ballot protocol keeps (\<open>slot_inv\<close>) and how it moves the state of
  the slot (\<open>ballot_step\<close>): the phase only goes forward, the ballots only go up within a phase,
  the value accepted for commit never changes, the statement of a node is only replaced by a
  newer one, and a value is externalized once, with a quorum of statements that commit to it.

  The locale \<open>slot_process\<close> is the contract of the recursive call
  \<open>mSlot.processEnvelope(envelope, true)\<close>: each operation keeps it, so that the call does, at
  every depth of the recursion.
\<close>

section \<open>The invariant\<close>

definition historyOf :: "slot \<Rightarrow> SCPStatement set" where
  "historyOf s = fst ` set (mStatementsHistory s)"

definition valueOf :: "SCPBallot option \<Rightarrow> Value option" where
  "valueOf b = map_option bvalue b"

fun externalizedValues :: "event list \<Rightarrow> Value list" where
  "externalizedValues [] = []"
| "externalizedValues (EvValueExternalized v # evs) = v # externalizedValues evs"
| "externalizedValues (_ # evs) = externalizedValues evs"

fun ballotEmits :: "event list \<Rightarrow> SCPEnvelope list" where
  "ballotEmits [] = []"
| "ballotEmits (EvEmitEnvelope e # evs) =
     (if ballotPledges (pledges (statement e)) then e # ballotEmits evs else ballotEmits evs)"
| "ballotEmits (_ # evs) = ballotEmits evs"

lemma externalizedValues_append [simp]:
  "externalizedValues (xs @ ys) = externalizedValues xs @ externalizedValues ys"
  by (induction xs rule: externalizedValues.induct) auto

lemma ballotEmits_append [simp]: "ballotEmits (xs @ ys) = ballotEmits xs @ ballotEmits ys"
  by (induction xs rule: ballotEmits.induct) auto

text \<open>The latest statements are sorted by node, are ballot statements and were recorded.\<close>

definition map_inv :: "slot \<Rightarrow> bool" where
  "map_inv s \<longleftrightarrow> omap_ok (mLatestEnvelopes s) \<and>
     (\<forall>n e. map_of (mLatestEnvelopes s) n = Some e \<longrightarrow>
        nodeID (statement e) = n \<and> ballotPledges (pledges (statement e)) \<and> statement e \<in> historyOf s)"

definition phase_inv :: "slot \<Rightarrow> bool" where
  "phase_inv s \<longleftrightarrow> (mPhase s \<noteq> SCP_PHASE_PREPARE \<longrightarrow>
     mCommit s \<noteq> None \<and> valueOf (mHighBallot s) = valueOf (mCommit s))"

text \<open>A node's own commits name the value it is committed to and its quorum set.\<close>

definition own_ok :: "slot_env \<Rightarrow> SCPStatement \<Rightarrow> slot \<Rightarrow> bool" where
  "own_ok E st s \<longleftrightarrow> (nodeID st = selfID E \<longrightarrow>
     (\<forall>v. commitValue (pledges st) = Some v \<longrightarrow> mPhase s \<noteq> SCP_PHASE_PREPARE \<and> valueOf (mCommit s) = Some v) \<and>
     (\<forall>c. pledges st = CONFIRM c \<longrightarrow> c_quorumSetHash c = mQSetHash (localNode E)) \<and>
     (\<forall>x. pledges st = EXTERNALIZE x \<longrightarrow> mPhase s = SCP_PHASE_EXTERNALIZE))"

definition own_inv :: "slot_env \<Rightarrow> slot \<Rightarrow> bool" where
  "own_inv E s \<longleftrightarrow> (\<forall>st \<in> historyOf s. own_ok E st s)"

text \<open>Recorded statements that show a quorum committed to a value.\<close>

definition evidence :: "slot_env \<Rightarrow> SCPStatement set \<Rightarrow> Value \<Rightarrow> bool" where
  "evidence E H v \<longleftrightarrow> (\<exists>U. sat (selfQSet E) U \<and> (\<forall>n \<in> U. \<exists>st \<in> H. nodeID st = n \<and>
     commitValue (pledges st) = Some v \<and>
     (\<exists>q. getQuorumSetFromStatement E st = Some q \<and> sat q U)))"

definition evidence_inv :: "slot_env \<Rightarrow> slot \<Rightarrow> bool" where
  "evidence_inv E s \<longleftrightarrow> (mPhase s = SCP_PHASE_EXTERNALIZE \<longrightarrow>
     (\<forall>c. mCommit s = Some c \<longrightarrow> evidence E (historyOf s) (bvalue c)))"

definition newer_eq :: "SCPEnvelope \<Rightarrow> SCPEnvelope \<Rightarrow> bool" where
  "newer_eq e e' \<longleftrightarrow> e = e' \<or> isNewerStatement (statement e) (statement e')"

definition emit_inv :: "slot_env \<Rightarrow> slot \<Rightarrow> bool" where
  "emit_inv E s \<longleftrightarrow>
     (\<forall>e. mLastEnvelope s = Some e \<longrightarrow> statement e \<in> historyOf s \<and> nodeID (statement e) = selfID E
        \<and> ballotPledges (pledges (statement e))) \<and>
     (\<forall>e. mLastEnvelopeEmit s = Some e \<longrightarrow> (\<exists>l. mLastEnvelope s = Some l \<and> newer_eq e l)) \<and>
     (\<forall>e \<in> set (ballotEmits (events s)). statement e \<in> historyOf s \<and> nodeID (statement e) = selfID E
        \<and> (\<exists>l. mLastEnvelopeEmit s = Some l \<and> newer_eq e l)) \<and>
     sorted_wrt (\<lambda>a b. isNewerStatement (statement a) (statement b)) (ballotEmits (events s))"

text \<open>Quorum sets whose sizes the 32-bit counters hold.\<close>

definition env_ok :: "slot_env \<Rightarrow> bool" where
  "env_ok E \<longleftrightarrow> sized (selfQSet E) \<and> (\<forall>h q. getQSet E h = Some q \<longrightarrow> sized q)"

definition slot_inv :: "slot_env \<Rightarrow> slot \<Rightarrow> bool" where
  "slot_inv E s \<longleftrightarrow> env_ok E \<and> map_inv s \<and> phase_inv s \<and> own_inv E s \<and> evidence_inv E s \<and> emit_inv E s"

lemmas inv_defs = slot_inv_def map_inv_def phase_inv_def own_inv_def evidence_inv_def emit_inv_def

section \<open>The steps\<close>

fun phaseRank :: "SCPPhase \<Rightarrow> nat" where
  "phaseRank SCP_PHASE_PREPARE = 0"
| "phaseRank SCP_PHASE_CONFIRM = 1"
| "phaseRank SCP_PHASE_EXTERNALIZE = 2"

lemma phaseRank_eq [simp]: "phaseRank p = phaseRank q \<longleftrightarrow> p = q"
  by (cases p; cases q) auto

definition latest_newer :: "envelopes \<Rightarrow> envelopes \<Rightarrow> bool" where
  "latest_newer m m' \<longleftrightarrow>
     (\<forall>n e. map_of m n = Some e \<longrightarrow> (\<exists>e'. map_of m' n = Some e' \<and> newer_eq e e'))"

definition frozen :: "slot \<Rightarrow> slot \<Rightarrow> bool" where
  "frozen s s' \<longleftrightarrow> mCurrentBallot s' = mCurrentBallot s \<and> mPrepared s' = mPrepared s \<and>
     mPreparedPrime s' = mPreparedPrime s \<and> mHighBallot s' = mHighBallot s \<and> mCommit s' = mCommit s"

definition nom_frame :: "slot \<Rightarrow> slot \<Rightarrow> bool" where
  "nom_frame s s' \<longleftrightarrow> mRoundNumber s' = mRoundNumber s \<and> mVotes s' = mVotes s \<and>
     mAccepted s' = mAccepted s \<and> mCandidates s' = mCandidates s \<and>
     mLatestNominations s' = mLatestNominations s \<and> mLastNomination s' = mLastNomination s \<and>
     mRoundLeaders s' = mRoundLeaders s \<and> (mNominationStarted s' \<longrightarrow> mNominationStarted s) \<and>
     mLatestCompositeCandidate s' = mLatestCompositeCandidate s \<and> mPreviousValue s' = mPreviousValue s"

definition log_step :: "slot \<Rightarrow> slot \<Rightarrow> bool" where
  "log_step s s' \<longleftrightarrow> (\<exists>xs. mStatementsHistory s' = mStatementsHistory s @ xs) \<and>
     (\<exists>xs. events s' = events s @ xs) \<and> (mFullyValidated s' \<longrightarrow> mFullyValidated s)"

definition phase_step :: "slot \<Rightarrow> slot \<Rightarrow> bool" where
  "phase_step s s' \<longleftrightarrow> phaseRank (mPhase s) \<le> phaseRank (mPhase s') \<and>
     (mPhase s' = mPhase s \<longrightarrow>
        mCurrentBallot s \<le> mCurrentBallot s' \<and> mHighBallot s \<le> mHighBallot s') \<and>
     mPrepared s \<le> mPrepared s' \<and>
     (mPhase s \<noteq> SCP_PHASE_PREPARE \<longrightarrow> valueOf (mCommit s') = valueOf (mCommit s)) \<and>
     (mPhase s = SCP_PHASE_EXTERNALIZE \<longrightarrow> frozen s s')"

definition external_step :: "slot \<Rightarrow> slot \<Rightarrow> bool" where
  "external_step s s' \<longleftrightarrow> externalizedValues (events s') = externalizedValues (events s) @
     (if mPhase s \<noteq> SCP_PHASE_EXTERNALIZE \<and> mPhase s' = SCP_PHASE_EXTERNALIZE
      then [bvalue (the (mCommit s'))] else [])"

definition ballot_step :: "slot \<Rightarrow> slot \<Rightarrow> bool" where
  "ballot_step s s' \<longleftrightarrow> log_step s s' \<and> phase_step s s' \<and> external_step s s' \<and>
     latest_newer (mLatestEnvelopes s) (mLatestEnvelopes s') \<and> nom_frame s s' \<and>
     mCurrentMessageLevel s' = mCurrentMessageLevel s"

lemmas step_defs = ballot_step_def log_step_def phase_step_def external_step_def nom_frame_def

lemma newer_eq_refl [simp]: "newer_eq e e"
  by (simp add: newer_eq_def)

lemma newer_env_trans: "newer_eq a b \<Longrightarrow> newer_eq b c \<Longrightarrow> newer_eq a c"
  unfolding newer_eq_def by (auto dest: ballot_order.newer_trans)

lemma latest_newer_refl [simp]: "latest_newer m m"
  by (simp add: latest_newer_def)

lemma latest_newer_trans: "latest_newer a b \<Longrightarrow> latest_newer b c \<Longrightarrow> latest_newer a c"
  unfolding latest_newer_def by (meson newer_env_trans)

lemma phase_step_trans: "phase_step a b \<Longrightarrow> phase_step b c \<Longrightarrow> phase_step a c"
  unfolding phase_step_def frozen_def
  by (cases "mPhase a"; cases "mPhase b"; cases "mPhase c") auto

lemma external_step_trans:
  "phase_step a b \<Longrightarrow> phase_step b c \<Longrightarrow> external_step a b \<Longrightarrow> external_step b c \<Longrightarrow> external_step a c"
  unfolding external_step_def phase_step_def frozen_def
  by (cases "mPhase a"; cases "mPhase b"; cases "mPhase c") auto

lemma ballot_step_refl [simp]: "ballot_step s s"
  by (simp add: step_defs frozen_def)

lemma ballot_step_trans: "ballot_step a b \<Longrightarrow> ballot_step b c \<Longrightarrow> ballot_step a c"
proof -
  assume a: "ballot_step a b" and b: "ballot_step b c"
  have "log_step a c" "nom_frame a c"
    using a b by (auto simp: ballot_step_def log_step_def nom_frame_def)
  then show ?thesis
    using a b phase_step_trans external_step_trans latest_newer_trans
    unfolding ballot_step_def by metis
qed

section \<open>Local changes\<close>

text \<open>
  \<open>good_in E X s s'\<close>: the state \<open>s'\<close> keeps the invariant, was reached by a step, and every
  statement recorded on the way is in \<open>X\<close> or is the node's own.
\<close>

definition good_in :: "slot_env \<Rightarrow> SCPStatement set \<Rightarrow> slot \<Rightarrow> slot \<Rightarrow> bool" where
  "good_in E X s s' \<longleftrightarrow> slot_inv E s' \<and> ballot_step s s' \<and>
     historyOf s' \<subseteq> historyOf s \<union> X \<union> {st. nodeID st = selfID E}"

abbreviation good :: "slot_env \<Rightarrow> slot \<Rightarrow> slot \<Rightarrow> bool" where
  "good E \<equiv> good_in E {}"

lemma good_refl [simp]: "slot_inv E s \<Longrightarrow> good_in E X s s"
  by (auto simp: good_in_def)

lemma good_trans: "good_in E X a b \<Longrightarrow> good_in E X b c \<Longrightarrow> good_in E X a c"
  unfolding good_in_def by (auto intro: ballot_step_trans)

lemma good_inv [dest]: "good_in E X s s' \<Longrightarrow> slot_inv E s'"
  by (simp add: good_in_def)

lemma good_weaken: "good E s s' \<Longrightarrow> good_in E X s s'"
  by (auto simp: good_in_def)

lemma good_own: "good_in E {st} s s' \<Longrightarrow> nodeID st = selfID E \<Longrightarrow> good E s s'"
  by (auto simp: good_in_def)

text \<open>A change of the ballots that records and emits nothing.\<close>

definition local_change :: "slot \<Rightarrow> slot \<Rightarrow> bool" where
  "local_change s s' \<longleftrightarrow> mStatementsHistory s' = mStatementsHistory s \<and>
     mLatestEnvelopes s' = mLatestEnvelopes s \<and> mLastEnvelope s' = mLastEnvelope s \<and>
     mLastEnvelopeEmit s' = mLastEnvelopeEmit s \<and> mCurrentMessageLevel s' = mCurrentMessageLevel s \<and>
     mFullyValidated s' = mFullyValidated s \<and> nom_frame s s' \<and>
     (\<exists>evs. events s' = events s @ evs \<and> externalizedValues evs = [] \<and> ballotEmits evs = [])"

lemma local_change_refl [simp]: "local_change s s"
  by (simp add: local_change_def nom_frame_def)

lemma local_change_trans: "local_change a b \<Longrightarrow> local_change b c \<Longrightarrow> local_change a c"
  by (auto simp: local_change_def nom_frame_def)

lemma local_inv:
  assumes inv: "slot_inv E s" and l: "local_change s s'" and p: "phase_step s s'"
    and ph: "phase_inv s'" and ev: "evidence_inv E s'"
  shows "slot_inv E s'"
proof -
  have h: "historyOf s' = historyOf s" using l by (simp add: historyOf_def local_change_def)
  have "map_inv s'" "emit_inv E s'"
    using inv l unfolding slot_inv_def map_inv_def emit_inv_def h by (auto simp: local_change_def)
  moreover have "own_inv E s'"
    unfolding own_inv_def h
  proof
    fix st assume "st \<in> historyOf s"
    then have "own_ok E st s" using inv by (simp add: slot_inv_def own_inv_def)
    then show "own_ok E st s'"
      using p unfolding own_ok_def phase_step_def by (cases "mPhase s"; cases "mPhase s'") auto
  qed
  ultimately show ?thesis using inv ph ev by (simp add: slot_inv_def)
qed

lemma local_step:
  assumes l: "local_change s s'" and p: "phase_step s s'"
    and e: "mPhase s' = SCP_PHASE_EXTERNALIZE \<Longrightarrow> mPhase s = SCP_PHASE_EXTERNALIZE"
  shows "ballot_step s s'"
  using l p e by (auto simp: ballot_step_def local_change_def log_step_def external_step_def)

lemma good_local:
  assumes inv: "slot_inv E s" and l: "local_change s s'" and p: "phase_step s s'" and ph: "phase_inv s'"
    and e: "mPhase s' = SCP_PHASE_EXTERNALIZE \<Longrightarrow> mPhase s = SCP_PHASE_EXTERNALIZE"
  shows "good E s s'"
proof -
  have h: "historyOf s' = historyOf s" using l by (simp add: historyOf_def local_change_def)
  have "evidence_inv E s'"
    using inv p e unfolding evidence_inv_def h slot_inv_def phase_step_def frozen_def by auto
  then show ?thesis
    unfolding good_in_def using local_inv [OF inv l p ph] local_step [OF l p e] h by simp
qed

definition plainEvent :: "event \<Rightarrow> bool" where
  "plainEvent ev \<longleftrightarrow> externalizedValues [ev] = [] \<and> ballotEmits [ev] = []"

lemma plainEvent_simps [simp]:
  "plainEvent (EvSetupTimer t n)" "plainEvent (EvNominatingValue v)" "plainEvent (EvUpdatedCandidateValue v)"
  "plainEvent (EvStartedBallotProtocol b)" "plainEvent (EvAcceptedBallotPrepared b)"
  "plainEvent (EvConfirmedBallotPrepared b)" "plainEvent (EvAcceptedCommit b)"
  "plainEvent (EvBallotDidHearFromQuorum b)"
  by (simp_all add: plainEvent_def)

lemma slot_phase_inv: "slot_inv E s \<Longrightarrow> phase_inv s"
  by (simp add: slot_inv_def)

lemma phase_step_refl [simp]: "phase_step s s"
  by (simp add: phase_step_def frozen_def)

lemma local_change_event: "plainEvent ev \<Longrightarrow> local_change s (emitEvent ev s)"
  by (auto simp: local_change_def emitEvent_def nom_frame_def plainEvent_def)

lemma good_event: "slot_inv E s \<Longrightarrow> plainEvent ev \<Longrightarrow> good E s (emitEvent ev s)"
  using good_local [of E s "emitEvent ev s"] local_change_event [of ev s] slot_phase_inv [of E s]
  by (auto simp: emitEvent_def phase_step_def frozen_def phase_inv_def)

text \<open>Timers and the current ballot.\<close>

lemma dbgAssert_simps [bind_simps]: "dbgAssert b = Inr u \<longleftrightarrow> b"
  by (simp add: dbgAssert_def bind_simps)

lemma deref_simps [bind_simps]: "deref p = Inr a \<longleftrightarrow> p = Some a"
  by (simp add: deref_def bind_simps)

lemma bumpToBallot_change:
  assumes "bumpToBallot ballot check s = Inr s'"
  shows "local_change s s'" "mPhase s \<noteq> SCP_PHASE_EXTERNALIZE" "mPhase s' = mPhase s"
    "mCurrentBallot s' = Some ballot" "check \<Longrightarrow> mCurrentBallot s \<le> Some ballot"
    "mPrepared s' = mPrepared s" "mPreparedPrime s' = mPreparedPrime s"
    "mHighBallot s' = mHighBallot s" "mCommit s' = mCommit s"
  using assms
  by (auto simp: bumpToBallot_def startBallotProtocolTimer_def bind_simps Let_def emitEvent_def
      local_change_def nom_frame_def split: if_splits option.splits)

lemma good_bumpToBallot:
  assumes "slot_inv E s" "bumpToBallot ballot True s = Inr s'"
  shows "good E s s'"
proof (rule good_local)
  note b = bumpToBallot_change [OF assms(2)]
  show "phase_step s s'" using b by (simp add: phase_step_def)
  show "phase_inv s'" using slot_phase_inv [OF assms(1)] b by (simp add: phase_inv_def)
qed (use assms bumpToBallot_change [OF assms(2)] in auto)

lemma updateCurrentIfNeeded_cases:
  assumes "updateCurrentIfNeeded s = Inr s'"
  obtains "s' = s" | h where "mHighBallot s = Some h" "bumpToBallot h True s = Inr s'"
  using assms that by (auto simp: updateCurrentIfNeeded_def bind_simps split: option.splits if_splits)

lemma good_updateCurrentIfNeeded:
  assumes "slot_inv E s" "updateCurrentIfNeeded s = Inr s'"
  shows "good E s s'"
  using assms(2) by (rule updateCurrentIfNeeded_cases) (use assms(1) good_bumpToBallot in auto)

lemma updateCurrentValue_cases:
  assumes "updateCurrentValue ballot s = Inr (s', updated)"
  obtains "\<not> updated" "s' = s"
  | "updated" "bumpToBallot ballot True s = Inr s'" "mCurrentBallot s < Some ballot"
  using assms that
  by (auto simp: updateCurrentValue_def bind_simps Let_def split: option.splits if_splits)

lemma good_updateCurrentValue:
  assumes "slot_inv E s" "updateCurrentValue ballot s = Inr (s', updated)"
  shows "good E s s'"
  using assms(2) by (rule updateCurrentValue_cases) (use assms(1) good_bumpToBallot in auto)

lemma good_setPrepared:
  assumes inv: "slot_inv E s" and ph: "mPhase s \<noteq> SCP_PHASE_EXTERNALIZE"
    and s': "setPrepared ballot s = (s', didWork)"
  shows "good E s s'"
proof (rule good_local [OF inv])
  show "local_change s s'"
    using s' by (auto simp: setPrepared_def Let_def local_change_def nom_frame_def
        split: option.splits if_splits)
  show "phase_step s s'"
    using s' ph by (auto simp: setPrepared_def Let_def phase_step_def split: option.splits if_splits)
  show "phase_inv s'"
    using s' slot_phase_inv [OF inv]
    by (auto simp: setPrepared_def Let_def phase_inv_def split: option.splits if_splits)
  show "mPhase s = SCP_PHASE_EXTERNALIZE" if "mPhase s' = SCP_PHASE_EXTERNALIZE"
    using that s' by (auto simp: setPrepared_def Let_def split: option.splits if_splits)
qed

lemma setPrepared_frame:
  "setPrepared ballot s = (s', didWork) \<Longrightarrow>
     mPhase s' = mPhase s \<and> mCommit s' = mCommit s \<and> mHighBallot s' = mHighBallot s"
  by (auto simp: setPrepared_def Let_def split: option.splits if_splits)

section \<open>Recording and emitting\<close>

lemma historyOf_record [simp]:
  "historyOf (recordEnvelope env s) = insert (statement env) (historyOf s)"
  by (auto simp: recordEnvelope_def recordStatement_def historyOf_def)

lemma recordEnvelope_simps [simp]:
  "mLatestEnvelopes (recordEnvelope env s) = omap_put (nodeID (statement env)) env (mLatestEnvelopes s)"
  "mPhase (recordEnvelope env s) = mPhase s" "mCommit (recordEnvelope env s) = mCommit s"
  "mHighBallot (recordEnvelope env s) = mHighBallot s"
  "mCurrentBallot (recordEnvelope env s) = mCurrentBallot s"
  "mPrepared (recordEnvelope env s) = mPrepared s"
  "mPreparedPrime (recordEnvelope env s) = mPreparedPrime s"
  "mLastEnvelope (recordEnvelope env s) = mLastEnvelope s"
  "mLastEnvelopeEmit (recordEnvelope env s) = mLastEnvelopeEmit s"
  "mCurrentMessageLevel (recordEnvelope env s) = mCurrentMessageLevel s"
  "events (recordEnvelope env s) = events s"
  "mFullyValidated (recordEnvelope env s) = mFullyValidated s"
  "mStatementsHistory (recordEnvelope env s) = mStatementsHistory s @ [(statement env, mFullyValidated s)]"
  "nom_frame s (recordEnvelope env s)"
  by (simp_all add: recordEnvelope_def recordStatement_def nom_frame_def)

lemma evidence_mono: "evidence E H v \<Longrightarrow> H \<subseteq> H' \<Longrightarrow> evidence E H' v"
  unfolding evidence_def by (meson subsetD)

lemma good_recordEnvelope:
  assumes inv: "slot_inv E s" and own: "own_ok E (statement env) s"
    and bp: "ballotPledges (pledges (statement env))"
    and nw: "isNewerStatementFor (mLatestEnvelopes s) (nodeID (statement env)) (statement env)"
  shows "good_in E {statement env} s (recordEnvelope env s)"
proof -
  let ?s = "recordEnvelope env s"
  have "map_inv ?s" "phase_inv ?s" "emit_inv E ?s"
    using inv bp unfolding slot_inv_def map_inv_def phase_inv_def emit_inv_def
    by (auto simp: omap_ok_put split: if_splits)
  moreover have "own_inv E ?s"
    using inv own unfolding slot_inv_def own_inv_def own_ok_def by auto
  moreover have "evidence_inv E ?s"
    using inv unfolding slot_inv_def evidence_inv_def by (auto intro: evidence_mono)
  moreover have "latest_newer (mLatestEnvelopes s) (mLatestEnvelopes ?s)"
    using nw by (auto simp: latest_newer_def isNewerStatementFor_def newer_eq_def)
  moreover have "phase_step s ?s" "external_step s ?s" "log_step s ?s"
    by (auto simp: phase_step_def frozen_def external_step_def log_step_def)
  ultimately show ?thesis using inv by (auto simp: good_in_def slot_inv_def ballot_step_def)
qed

lemma setFullyValidated_simps [simp]:
  "mLatestEnvelopes (setFullyValidated b s) = mLatestEnvelopes s"
  "mPhase (setFullyValidated b s) = mPhase s"
  "mCommit (setFullyValidated b s) = mCommit s"
  "mCurrentMessageLevel (setFullyValidated b s) = mCurrentMessageLevel s"
  "own_ok E st (setFullyValidated b s) = own_ok E st s"
  by (simp_all add: setFullyValidated_def own_ok_def)

lemma good_setFullyValidated: "slot_inv E s \<Longrightarrow> good E s (setFullyValidated False s)"
  by (auto simp: setFullyValidated_def good_in_def inv_defs step_defs historyOf_def own_ok_def frozen_def)

lemma good_sendLatestEnvelope:
  assumes inv: "slot_inv E s"
  shows "good E s (sendLatestEnvelope s)"
proof (cases "sendLatestEnvelope s = s")
  case True
  then show ?thesis using inv by simp
next
  case False
  then obtain env where env: "mLastEnvelope s = Some env" and ne: "mLastEnvelopeEmit s \<noteq> Some env"
    and s': "sendLatestEnvelope s = emitEvent (EvEmitEnvelope env) (s\<lparr>mLastEnvelopeEmit := Some env\<rparr>)"
    by (auto simp: sendLatestEnvelope_def split: option.splits if_splits)
  let ?s = "emitEvent (EvEmitEnvelope env) (s\<lparr>mLastEnvelopeEmit := Some env\<rparr>)"
  have h: "historyOf ?s = historyOf s" by (simp add: historyOf_def emitEvent_def)
  have last: "statement env \<in> historyOf s \<and> nodeID (statement env) = selfID E
      \<and> ballotPledges (pledges (statement env))"
    and emit: "\<And>e. mLastEnvelopeEmit s = Some e \<Longrightarrow> newer_eq e env"
    and old: "\<And>a. a \<in> set (ballotEmits (events s)) \<Longrightarrow> statement a \<in> historyOf s
      \<and> nodeID (statement a) = selfID E \<and> (\<exists>l. mLastEnvelopeEmit s = Some l \<and> newer_eq a l)"
    and srt: "sorted_wrt (\<lambda>a b. isNewerStatement (statement a) (statement b)) (ballotEmits (events s))"
    using inv env unfolding slot_inv_def emit_inv_def by simp_all
  have nw: "isNewerStatement (statement a) (statement env)" if a: "a \<in> set (ballotEmits (events s))" for a
  proof -
    obtain l where l: "mLastEnvelopeEmit s = Some l" "newer_eq a l" using old [OF a] by blast
    with emit ne have "isNewerStatement (statement l) (statement env)" by (auto simp: newer_eq_def)
    with l(2) show ?thesis by (auto simp: newer_eq_def dest: ballot_order.newer_trans)
  qed
  have evs: "ballotEmits (events ?s) = ballotEmits (events s) @ [env]"
    using last by (simp add: emitEvent_def)
  have "emit_inv E ?s"
    unfolding emit_inv_def h evs using last old nw srt env
    by (simp add: emitEvent_def sorted_wrt_append newer_eq_def)
  moreover have "map_inv ?s" "phase_inv ?s" "own_inv E ?s" "evidence_inv E ?s"
    using inv unfolding slot_inv_def map_inv_def phase_inv_def own_inv_def evidence_inv_def own_ok_def h
    by (auto simp: emitEvent_def)
  moreover have "ballot_step s ?s"
    by (auto simp: step_defs emitEvent_def frozen_def)
  ultimately show ?thesis using inv h unfolding s' by (simp add: good_in_def slot_inv_def)
qed

text \<open>The statement created commits to the value the state is committed to.\<close>

lemma createStatement_own:
  assumes "createStatement E s = Inr pl"
  shows "own_ok E \<lparr>nodeID = n, slotIndex = i, pledges = pl\<rparr> s" "ballotPledges pl"
  using assms
  by (auto simp: createStatement_def checkInvariants_def own_ok_def valueOf_def bind_simps
      less_compatible_iff split: SCPPhase.splits option.splits)

lemma good_setLast:
  assumes inv: "slot_inv E s" and env: "statement env \<in> historyOf s" "nodeID (statement env) = selfID E"
      "ballotPledges (pledges (statement env))"
    and nw: "\<And>l. mLastEnvelope s = Some l \<Longrightarrow> isNewerStatement (statement l) (statement env)"
  shows "good E s (s\<lparr>mLastEnvelope := Some env\<rparr>)"
proof -
  let ?s = "s\<lparr>mLastEnvelope := Some env\<rparr>"
  have h: "historyOf ?s = historyOf s" by (simp add: historyOf_def)
  have e: "emit_inv E s" using inv by (simp add: slot_inv_def)
  have "newer_eq a env" if a: "mLastEnvelopeEmit s = Some a" for a
  proof -
    obtain l where "mLastEnvelope s = Some l" "newer_eq a l" using e a unfolding emit_inv_def by blast
    with nw show ?thesis by (auto simp: newer_eq_def dest: ballot_order.newer_trans)
  qed
  then have "emit_inv E ?s" using e env unfolding emit_inv_def h by simp
  moreover have "map_inv ?s" "phase_inv ?s" "own_inv E ?s" "evidence_inv E ?s"
    using inv unfolding slot_inv_def map_inv_def phase_inv_def own_inv_def evidence_inv_def own_ok_def h
    by auto
  moreover have "ballot_step s ?s" by (auto simp: step_defs frozen_def)
  ultimately show ?thesis using inv h by (simp add: good_in_def slot_inv_def)
qed

section \<open>Evidence\<close>

lemma getQuorumSet_sized:
  "env_ok E \<Longrightarrow> getQuorumSetFromStatement E st = Some q \<Longrightarrow> sized q"
  by (auto simp: env_ok_def getQuorumSetFromStatement_def getSingletonQSet_def buildSingletonQSet_def
      split: SCPPledges.splits)

lemma isQuorum_known:
  assumes "omap_ok m" "isQuorum q m qfun filt = Inr b" "n \<in> set (nodesThat filt m)"
  shows "\<exists>e. map_of m n = Some e \<and> filt (statement e) \<and> qfun (statement e) = Some (qsetOfNode m qfun n)"
proof -
  obtain e where e: "map_of m n = Some e" "filt (statement e)"
    using assms(1,3) by (auto simp: nodesThat_mem)
  then have "qfun (statement e) \<noteq> None"
    using assms(2,3) by (auto simp: isQuorum_def Let_def list_all_iff split: if_splits)
  with e show ?thesis by (auto simp: qsetOfNode_def)
qed

lemma ratify_evidence:
  assumes inv: "slot_inv E s" and "ballotRatify E (commitPredicate ballot cur) s = Inr True"
  shows "evidence E (historyOf s) (bvalue ballot)"
proof -
  have env: "env_ok E" using inv by (simp add: slot_inv_def)
  let ?m = "mLatestEnvelopes s" and ?f = "getQuorumSetFromStatement E"
  let ?p = "\<lambda>st. commitPredicate ballot cur (pledges st)"
  have m: "map_inv s" and ok: "omap_ok ?m" using inv by (auto simp: slot_inv_def map_inv_def)
  have run: "isQuorum (selfQSet E) ?m ?f ?p = Inr True"
    using assms(2) by (auto simp: ballotRatify_def federatedRatify_def bind_simps)
  have "sized (selfQSet E)" using env by (simp add: env_ok_def)
  then have "quorum_among (selfQSet E) (qsetOfNode ?m ?f) (set (nodesThat ?p ?m))"
    using isQuorum_iff [OF ok run] getQuorumSet_sized [OF env] by blast
  then obtain U where U: "U \<subseteq> set (nodesThat ?p ?m)" "slice_closed (\<lambda>n. sat (qsetOfNode ?m ?f n)) U"
      "sat (selfQSet E) U"
    unfolding quorum_among_def by blast
  have "\<exists>st \<in> historyOf s. nodeID st = n \<and> commitValue (pledges st) = Some (bvalue ballot) \<and>
      (\<exists>q. ?f st = Some q \<and> sat q U)" if n: "n \<in> U" for n
  proof -
    obtain e where e: "map_of ?m n = Some e" "?p (statement e)" "?f (statement e) = Some (qsetOfNode ?m ?f n)"
      using isQuorum_known [OF ok run] n U(1) by blast
    moreover have "sat (qsetOfNode ?m ?f n) U" using U(2) n by (simp add: slice_closed_def)
    moreover have "nodeID (statement e) = n" "statement e \<in> historyOf s"
      using m e(1) by (auto simp: map_inv_def)
    moreover have "commitValue (pledges (statement e)) = Some (bvalue ballot)"
      using e(2) by (rule commitPredicate_value)
    ultimately show ?thesis by (intro bexI [of _ "statement e"]) auto
  qed
  with U(3) show ?thesis unfolding evidence_def by blast
qed

section \<open>The recursive call\<close>

locale slot_process =
  fixes E :: slot_env and pe :: process
  assumes pe_good: "slot_inv E s \<Longrightarrow> own_ok E (statement e) s \<Longrightarrow> ballotPledges (pledges (statement e)) \<Longrightarrow>
      nodeID (statement e) = selfID E \<Longrightarrow> pe e s = Inr (s', r) \<Longrightarrow> good E s s' \<and> (r = VALID \<longrightarrow> statement e \<in> historyOf s')"
begin

lemma good_emit:
  assumes inv: "slot_inv E s" and run: "emitCurrentStateStatement E pe s = Inr s'"
  shows "good E s s'"
proof -
  obtain pl where pl: "createStatement E s = Inr pl"
    using run by (auto simp: emitCurrentStateStatement_def bind_simps)
  let ?e = "createEnvelope E pl"
  have e: "statement ?e = \<lparr>nodeID = selfID E, slotIndex = mSlotIndex E, pledges = pl\<rparr>"
    by (simp add: createEnvelope_def Let_def)
  have own: "own_ok E (statement ?e) s" and bp: "ballotPledges (pledges (statement ?e))"
    using createStatement_own [OF pl] unfolding e by auto
  show ?thesis
  proof (cases "map_of (mLatestEnvelopes s) (selfID E) = Some ?e")
    case True
    then show ?thesis using run pl inv by (simp add: emitCurrentStateStatement_def Let_def)
  next
    case False
    then obtain s1 r where pe: "pe ?e s = Inr (s1, r)"
      using run pl by (auto simp: emitCurrentStateStatement_def bind_simps Let_def)
    note g = pe_good [OF inv own bp _ pe, unfolded e, simplified]
    then have inv1: "slot_inv E s1" by auto
    have "r = VALID" using run pl pe False
      by (auto simp: emitCurrentStateStatement_def Let_def split: if_splits)
    then have hist: "statement ?e \<in> historyOf s1" using g e by simp
    show ?thesis
    proof (cases "s' = s1")
      case True
      then show ?thesis using g by simp
    next
      case False
      then have s': "s' = sendLatestEnvelope (s1\<lparr>mLastEnvelope := Some ?e\<rparr>)"
        and nw: "\<And>l. mLastEnvelope s1 = Some l \<Longrightarrow> isNewerStatement (statement l) (statement ?e)"
        using run pl pe \<open>r = VALID\<close> \<open>map_of (mLatestEnvelopes s) (selfID E) \<noteq> Some ?e\<close>
        by (auto simp: emitCurrentStateStatement_def Let_def split: if_splits option.splits)
      have "good E s1 (s1\<lparr>mLastEnvelope := Some ?e\<rparr>)"
        using good_setLast [OF inv1 hist _ bp nw] e by simp
      then show ?thesis
        unfolding s' using g good_trans good_sendLatestEnvelope by blast
    qed
  qed
qed

lemma good_event_emit:
  assumes "slot_inv E s" "plainEvent ev" "emitCurrentStateStatement E pe (emitEvent ev s) = Inr s'"
  shows "good E s s'"
  using good_event [OF assms(1,2)] good_emit [OF _ assms(3)] good_trans by blast

lemma good_bumpStateTo:
  assumes inv: "slot_inv E s" and run: "bumpStateTo E pe v n s = Inr (s', b)"
  shows "good E s s'"
proof (cases "mPhase s = SCP_PHASE_EXTERNALIZE")
  case True
  then show ?thesis using inv run by (simp add: bumpStateTo_def)
next
  case False
  define newb where "newb = SCPBallot n (case mHighBallot s of Some h \<Rightarrow> bvalue h | None \<Rightarrow> v)"
  have "mPhase s = SCP_PHASE_PREPARE \<or> mPhase s = SCP_PHASE_CONFIRM"
    using False by (cases "mPhase s") auto
  then obtain s1 upd where u: "updateCurrentValue newb s = Inr (s1, upd)"
    and r: "s' = s1 \<or> emitCurrentStateStatement E pe (emitEvent (EvStartedBallotProtocol newb) s1) = Inr s'"
    using run unfolding bumpStateTo_def newb_def [symmetric]
    by (auto simp: bind_simps Let_def split: if_splits)
  have g: "good E s s1" using good_updateCurrentValue [OF inv u] .
  from r show ?thesis
  proof
    assume "emitCurrentStateStatement E pe (emitEvent (EvStartedBallotProtocol newb) s1) = Inr s'"
    from good_event_emit [OF good_inv [OF g] _ this] show ?thesis using good_trans [OF g] by simp
  qed (use g in simp)
qed

lemma good_bumpState:
  assumes "slot_inv E s" "bumpState E pe v force s = Inr (s', b)"
  shows "good E s s'"
  using assms unfolding bumpState_def
  by (auto simp: Let_def split: if_splits intro: good_bumpStateTo)

lemma good_abandonBallot:
  assumes "slot_inv E s" "abandonBallot E pe n s = Inr (s', b)"
  shows "good E s s'"
  using assms unfolding abandonBallot_def
  by (auto simp: Let_def split: if_splits intro: good_bumpStateTo good_bumpState)

end

end
