(* ===== verification/Ballot_Steps.thy ===== *)
theory Ballot_Steps
  imports Ballot_Invariants
begin

text \<open>
  Every operation of the ballot protocol keeps the invariant and moves the state by a
  \<open>ballot_step\<close>, given that the recursive call does; by induction on the depth of the recursion
  the call itself does (the interpretation \<open>self_process\<close>).
\<close>

section \<open>The steps of the protocol\<close>

lemma not_externalize: "mPhase s \<noteq> SCP_PHASE_EXTERNALIZE \<longleftrightarrow>
    mPhase s = SCP_PHASE_PREPARE \<or> mPhase s = SCP_PHASE_CONFIRM"
  by (cases "mPhase s") auto

context slot_process
begin

text \<open>The common end of the \<open>set\<close> operations: update the current ballot, tell the driver, emit.\<close>

lemma good_update_emit:
  assumes g: "good E s s2" and ev: "plainEvent ev"
    and r: "s' = s2 \<or> (\<exists>s3. updateCurrentIfNeeded s2 = Inr s3 \<and>
      emitCurrentStateStatement E pe (emitEvent ev s3) = Inr s')"
  shows "good E s s'"
  using r
proof
  assume "\<exists>s3. updateCurrentIfNeeded s2 = Inr s3 \<and> emitCurrentStateStatement E pe (emitEvent ev s3) = Inr s'"
  then obtain s3 where s3: "updateCurrentIfNeeded s2 = Inr s3"
    and e: "emitCurrentStateStatement E pe (emitEvent ev s3) = Inr s'" by blast
  have g3: "good E s s3"
    using good_trans [OF g good_updateCurrentIfNeeded [OF good_inv [OF g] s3]] .
  show ?thesis using good_trans [OF g3 good_event_emit [OF good_inv [OF g3] ev e]] .
qed (use g in simp)

lemma good_setPreparedAccept:
  assumes inv: "slot_inv E s" and ph: "mPhase s \<noteq> SCP_PHASE_EXTERNALIZE"
    and run: "setPreparedAccept E pe ballot s = Inr (s', b)"
  shows "good E s s'"
proof -
  obtain s1 w1 where s1: "setPrepared ballot s = (s1, w1)" by fastforce
  have g1: "good E s s1" using good_setPrepared [OF inv ph s1] .
  have clear: "good E s1 (s1\<lparr>mCommit := None\<rparr>)" if "mPhase s1 = SCP_PHASE_PREPARE"
    using that by (intro good_local [OF good_inv [OF g1]])
      (auto simp: local_change_def nom_frame_def phase_step_def phase_inv_def)
  have "\<exists>s2. (s2 = s1 \<or> mPhase s1 = SCP_PHASE_PREPARE \<and> s2 = s1\<lparr>mCommit := None\<rparr>) \<and>
      (s' = s2 \<or> emitCurrentStateStatement E pe (emitEvent (EvAcceptedBallotPrepared ballot) s2) = Inr s')"
    using run s1 unfolding setPreparedAccept_def
    by (auto simp: bind_simps split: option.splits if_splits)
  then obtain s2 where s2: "good E s1 s2"
    and r: "s' = s2 \<or> emitCurrentStateStatement E pe (emitEvent (EvAcceptedBallotPrepared ballot) s2) = Inr s'"
    using clear good_refl [OF good_inv [OF g1]] by blast
  have g2: "good E s s2" using good_trans [OF g1 s2] .
  from r show ?thesis
  proof
    assume "emitCurrentStateStatement E pe (emitEvent (EvAcceptedBallotPrepared ballot) s2) = Inr s'"
    from good_event_emit [OF good_inv [OF g2] _ this] show ?thesis using good_trans [OF g2] by simp
  qed (use g2 in simp)
qed

lemma good_attemptPreparedAccept:
  assumes "slot_inv E s" "attemptPreparedAccept E pe hint s = Inr (s', b)"
  shows "good E s s'"
  using assms unfolding attemptPreparedAccept_def not_externalize [symmetric]
  by (auto simp: bind_simps split: if_splits option.splits intro: good_setPreparedAccept)

lemma good_setPreparedConfirmed:
  assumes inv: "slot_inv E s" and ph: "mPhase s = SCP_PHASE_PREPARE"
    and run: "setPreparedConfirmed E pe newC newH s = Inr (s', b)"
  shows "good E s s'"
proof -
  define s1 where "s1 = (if (case mHighBallot s of None \<Rightarrow> True | Some h \<Rightarrow> compareBallots newH h > 0)
     then s\<lparr>mHighBallot := Some newH\<rparr> else s)"
  have g1: "good E s s1"
    using ph inv by (intro good_local [OF inv])
      (auto simp: s1_def local_change_def nom_frame_def phase_step_def phase_inv_def
        split: option.splits if_splits)
  have ph1: "mPhase s1 = SCP_PHASE_PREPARE" using ph by (simp add: s1_def)
  have set: "good E s1 (s1\<lparr>mCommit := Some newC\<rparr>)"
    using ph1 by (intro good_local [OF good_inv [OF g1]])
      (auto simp: local_change_def nom_frame_def phase_step_def phase_inv_def)
  obtain s2 where s2: "s2 = s1 \<or> s2 = s1\<lparr>mCommit := Some newC\<rparr>"
    and r: "s' = s2 \<or> (\<exists>s3. updateCurrentIfNeeded s2 = Inr s3 \<and>
      emitCurrentStateStatement E pe (emitEvent (EvConfirmedBallotPrepared newH) s3) = Inr s')"
    using run unfolding setPreparedConfirmed_def s1_def
    by (auto simp: bind_simps Let_def split: if_splits)
  have g2: "good E s s2" using s2 g1 set good_trans [OF g1] by auto
  show ?thesis using good_update_emit [OF g2 _ r] by simp
qed

lemma good_attemptPreparedConfirmed:
  assumes inv: "slot_inv E s" and run: "attemptPreparedConfirmed E pe hint s = Inr (s', b)"
  shows "good E s s'"
proof (cases "mPhase s = SCP_PHASE_PREPARE")
  case False
  then show ?thesis using inv run by (simp add: attemptPreparedConfirmed_def)
next
  case True
  have "s' = s \<or> (\<exists>newC newH. setPreparedConfirmed E pe newC newH s = Inr (s', b))"
  proof (cases "mPrepared s")
    case None
    then show ?thesis using run True by (simp add: attemptPreparedConfirmed_def)
  next
    case (Some p)
    then obtain cs found where "getPrepareCandidates (mLatestEnvelopes s) hint = Inr cs"
      "findNewH E s (rev cs) = Inr found"
      using run True by (auto simp: attemptPreparedConfirmed_def bind_simps)
    then show ?thesis
      using run True Some by (cases found) (auto simp: attemptPreparedConfirmed_def bind_simps Let_def)
  qed
  then show ?thesis using good_setPreparedConfirmed [OF inv True] inv by auto
qed

lemma good_setAcceptCommit:
  assumes inv: "slot_inv E s" and ph: "mPhase s \<noteq> SCP_PHASE_EXTERNALIZE" and hc: "bvalue h = bvalue c"
    and conf: "mPhase s = SCP_PHASE_CONFIRM \<Longrightarrow>
      valueOf (mCommit s) = Some (bvalue c) \<and> mHighBallot s \<le> Some h"
    and run: "setAcceptCommit E pe c h s = Inr (s', b)"
  shows "good E s s'"
proof -
  define s1 where "s1 = (if (case mHighBallot s of None \<Rightarrow> True | Some h' \<Rightarrow> compareBallots h' h \<noteq> 0) \<or>
                (case mCommit s of None \<Rightarrow> True | Some c' \<Rightarrow> compareBallots c' c \<noteq> 0)
             then s\<lparr>mCommit := Some c, mHighBallot := Some h\<rparr> else s)"
  have s1: "s1 = s\<lparr>mCommit := Some c, mHighBallot := Some h\<rparr>"
    by (auto simp: s1_def split: option.splits if_splits)
  have "\<exists>s2. good E s s2 \<and> (s' = s2 \<or> (\<exists>s3. updateCurrentIfNeeded s2 = Inr s3 \<and>
      emitCurrentStateStatement E pe (emitEvent (EvAcceptedCommit h) s3) = Inr s'))"
  proof (cases "mPhase s = SCP_PHASE_CONFIRM")
    case True
    have "good E s s1"
      using True conf hc by (intro good_local [OF inv])
        (auto simp: s1 local_change_def nom_frame_def phase_step_def phase_inv_def valueOf_def)
    moreover have "s' = s1 \<or> (\<exists>s3. updateCurrentIfNeeded s1 = Inr s3 \<and>
      emitCurrentStateStatement E pe (emitEvent (EvAcceptedCommit h) s3) = Inr s')"
      using run True unfolding setAcceptCommit_def s1_def
      by (auto simp: bind_simps Let_def split: if_splits)
    ultimately show ?thesis by blast
  next
    case False
    then have p: "mPhase s = SCP_PHASE_PREPARE" using ph by (simp add: not_externalize)
    let ?s1 = "s1\<lparr>mPhase := SCP_PHASE_CONFIRM\<rparr>"
    obtain s2 where s2: "s2 = ?s1 \<or> bumpToBallot h False ?s1 = Inr s2"
      and r: "\<exists>s3. updateCurrentIfNeeded (s2\<lparr>mPreparedPrime := None\<rparr>) = Inr s3 \<and>
        emitCurrentStateStatement E pe (emitEvent (EvAcceptedCommit h) s3) = Inr s'"
      using run p unfolding setAcceptCommit_def s1_def
      by (auto simp: bind_simps Let_def split: if_splits)
    have l2: "local_change ?s1 s2" "mPhase s2 = SCP_PHASE_CONFIRM" "mPrepared s2 = mPrepared s"
      "mHighBallot s2 = Some h" "mCommit s2 = Some c"
      using s2 bumpToBallot_change [of h False ?s1 s2] unfolding s1 by auto
    have "local_change s s2"
      using l2(1) unfolding s1 by (auto simp: local_change_def nom_frame_def)
    then have "good E s (s2\<lparr>mPreparedPrime := None\<rparr>)"
      using l2(2-) p hc by (intro good_local [OF inv])
        (auto simp: local_change_def nom_frame_def phase_step_def phase_inv_def valueOf_def)
    with r show ?thesis by blast
  qed
  then obtain s2 where g2: "good E s s2" and r: "s' = s2 \<or> (\<exists>s3. updateCurrentIfNeeded s2 = Inr s3 \<and>
      emitCurrentStateStatement E pe (emitEvent (EvAcceptedCommit h) s3) = Inr s')" by blast
  show ?thesis using good_update_emit [OF g2 _ r] by simp
qed

lemma good_attemptAcceptCommit:
  assumes inv: "slot_inv E s" and run: "attemptAcceptCommit E pe hint s = Inr (s', b)"
  shows "good E s s'"
proof (cases "mPhase s = SCP_PHASE_EXTERNALIZE \<or> s' = s")
  case True
  then show ?thesis using inv run by (auto simp: attemptAcceptCommit_def)
next
  case False
  then have ph: "mPhase s = SCP_PHASE_PREPARE \<or> mPhase s = SCP_PHASE_CONFIRM"
    by (simp add: not_externalize)
  then obtain ballot where ballot: "acceptCommitHint hint = Inr (Some ballot)"
    using run False by (auto simp: attemptAcceptCommit_def bind_simps split: option.splits)
  have comp: "\<exists>h. mHighBallot s = Some h \<and> bvalue h = bvalue ballot" if "mPhase s = SCP_PHASE_CONFIRM"
    using run False that ballot
    by (auto simp: attemptAcceptCommit_def bind_simps areBallotsCompatible_def split: if_splits)
  obtain lo hi where set: "setAcceptCommit E pe (SCPBallot lo (bvalue ballot)) (SCPBallot hi (bvalue ballot)) s
      = Inr (s', b)"
    and hi: "\<And>h. mPhase s = SCP_PHASE_CONFIRM \<Longrightarrow> mHighBallot s = Some h \<Longrightarrow> counter h < hi"
    using run False ph ballot
    by (auto simp: attemptAcceptCommit_def bind_simps split: if_splits)
  show ?thesis
  proof (rule good_setAcceptCommit [OF inv _ _ _ set])
    assume c: "mPhase s = SCP_PHASE_CONFIRM"
    then show "valueOf (mCommit s) = Some (bvalue (SCPBallot lo (bvalue ballot)))
      \<and> mHighBallot s \<le> Some (SCPBallot hi (bvalue ballot))"
      using comp [OF c] hi slot_phase_inv [OF inv]
      by (auto simp: phase_inv_def valueOf_def less_eq_SCPBallot_def)
  qed (use ph in auto)
qed

lemma good_setConfirmCommit:
  assumes inv: "slot_inv E s" and ph: "mPhase s = SCP_PHASE_CONFIRM" and hc: "bvalue h = bvalue c"
    and val: "valueOf (mCommit s) = Some (bvalue c)" and ev: "evidence E (historyOf s) (bvalue c)"
    and run: "setConfirmCommit E pe c h s = Inr (s', b)"
  shows "good E s s'"
proof -
  let ?s1 = "s\<lparr>mCommit := Some c, mHighBallot := Some h\<rparr>"
  obtain s2 s4 cm where s2: "updateCurrentIfNeeded ?s1 = Inr s2"
    and s4: "emitCurrentStateStatement E pe (s2\<lparr>mPhase := SCP_PHASE_EXTERNALIZE\<rparr>) = Inr s4"
    and cm: "mCommit s4 = Some cm"
    and s': "s' = emitEvent (EvValueExternalized (bvalue cm)) (stopNomination s4)"
    using run by (auto simp: setConfirmCommit_def bind_simps)
  let ?s3 = "s2\<lparr>mPhase := SCP_PHASE_EXTERNALIZE\<rparr>"
  have l2: "local_change ?s1 s2" "mCommit s2 = Some c" "mHighBallot s2 = Some h" "mPrepared s2 = mPrepared s"
    using s2 bumpToBallot_change [of _ True ?s1 s2] by (auto elim!: updateCurrentIfNeeded_cases)
  have l3: "local_change s ?s3" using l2(1) by (auto simp: local_change_def nom_frame_def)
  have p3: "phase_step s ?s3" using ph l2 val by (auto simp: phase_step_def valueOf_def)
  have h3: "historyOf ?s3 = historyOf s" using l3 by (simp add: historyOf_def local_change_def)
  have "slot_inv E ?s3"
    using l2 hc ev by (intro local_inv [OF inv l3 p3])
      (auto simp: phase_inv_def valueOf_def evidence_inv_def h3)
  from good_emit [OF this s4] have i4: "slot_inv E s4" and st: "ballot_step ?s3 s4"
    and h4: "historyOf s4 \<subseteq> historyOf ?s3 \<union> {st. nodeID st = selfID E}" by (auto simp: good_in_def)
  then have ph4: "mPhase s4 = SCP_PHASE_EXTERNALIZE" and c4: "mCommit s4 = Some c"
    using l2 by (cases "mPhase s4"; auto simp: ballot_step_def phase_step_def frozen_def)+
  have "slot_inv E s'"
    using i4 unfolding s' stopNomination_def emitEvent_def inv_defs historyOf_def own_ok_def by simp
  moreover have "ballot_step s s'"
  proof -
    have "phase_step s s4" using phase_step_trans [OF p3] st by (simp add: ballot_step_def)
    then have "phase_step s s'" unfolding s' stopNomination_def emitEvent_def
      by (simp add: phase_step_def frozen_def)
    moreover have "log_step s s'" "nom_frame s s'"
      using l3 st unfolding s' stopNomination_def emitEvent_def
      by (auto simp: log_step_def local_change_def ballot_step_def nom_frame_def)
    moreover have "external_step s s'"
      using l3 st ph ph4 c4 cm unfolding s' stopNomination_def emitEvent_def
      by (auto simp: external_step_def local_change_def ballot_step_def)
    ultimately show ?thesis
      using l3 st unfolding s' stopNomination_def emitEvent_def
      by (simp add: ballot_step_def local_change_def)
  qed
  moreover have "historyOf s' = historyOf s4" by (simp add: s' stopNomination_def emitEvent_def historyOf_def)
  ultimately show ?thesis using h4 h3 by (simp add: good_in_def)
qed

lemma good_attemptConfirmCommit:
  assumes inv: "slot_inv E s" and run: "attemptConfirmCommit E pe hint s = Inr (s', b)"
  shows "good E s s'"
proof (cases "mPhase s = SCP_PHASE_CONFIRM \<and> s' \<noteq> s")
  case False
  then show ?thesis using inv run by (auto simp: attemptConfirmCommit_def split: if_splits)
next
  case True
  then obtain h c ballot where hc: "mHighBallot s = Some h" "mCommit s = Some c"
    and ballot: "confirmCommitHint hint = Inr (Some ballot)" "areBallotsCompatible ballot c"
    using run by (auto simp: attemptConfirmCommit_def bind_simps split: option.splits if_splits)
  then obtain bs lo hi where
      int: "findExtendedInterval (0, 0) (rev bs) (\<lambda>cur. ballotRatify E (commitPredicate ballot cur) s) = Inr (lo, hi)"
      "lo \<noteq> 0"
    and set: "setConfirmCommit E pe (SCPBallot lo (bvalue ballot)) (SCPBallot hi (bvalue ballot)) s = Inr (s', b)"
    using run True by (auto simp: attemptConfirmCommit_def bind_simps split: if_splits)
  have "ballotRatify E (commitPredicate ballot (lo, hi)) s = Inr True"
    using findExtendedInterval_pred [OF int(1)] int(2) by auto
  then have "evidence E (historyOf s) (bvalue ballot)" by (rule ratify_evidence [OF inv])
  then show ?thesis
    using True hc ballot by (intro good_setConfirmCommit [OF inv _ _ _ _ set])
      (auto simp: valueOf_def areBallotsCompatible_def)
qed

lemma good_attemptBump:
  assumes "slot_inv E s" "attemptBump E pe s = Inr (s', b)"
  shows "good E s s'"
  using assms unfolding attemptBump_def
  by (auto simp: bind_simps Let_def split: if_splits option.splits intro: good_abandonBallot)

lemma good_bumpLoop:
  assumes inv: "slot_inv E s" and run: "bumpLoop E pe w s = Inr (s', w')"
  shows "good E s s'"
proof -
  let ?P = "\<lambda>r. case r of Inl _ \<Rightarrow> True | Inr (t, _, _) \<Rightarrow> good E s t"
  have body: "?P (bumpBody E pe r)" if "?P r" for r
    using that good_trans good_attemptBump unfolding bumpBody_def
    by (auto simp: bindE_def split: sum.splits prod.splits dest: good_inv) blast+
  obtain r where w: "while_option bumpCond (bumpBody E pe) (bumpBody E pe (Inr (s, False, w))) = Some r"
    and r: "bindE r (\<lambda>(s, _, didWork). Inr (s, didWork)) = Inr (s', w')"
    using run by (auto simp: bumpLoop_def split: option.splits)
  have "?P (bumpBody E pe (Inr (s, False, w)))" using body [of "Inr (s, False, w)"] inv by simp
  then have "?P r" using while_option_rule [of ?P, OF _ w] body by blast
  with r show ?thesis by (auto simp: bind_simps)
qed

lemma good_checkHeardFromQuorum:
  assumes "slot_inv E s" "checkHeardFromQuorum E s = Inr s'"
  shows "good E s s'"
proof (cases "s' = s")
  case False
  then obtain b where s': "s' = emitEvent (EvBallotDidHearFromQuorum b) (s\<lparr>mHeardFromQuorum := True\<rparr>)"
    using assms(2) by (auto simp: checkHeardFromQuorum_def bind_simps split: option.splits if_splits)
  have g: "good E s (s\<lparr>mHeardFromQuorum := True\<rparr>)"
    using slot_phase_inv [OF assms(1)] by (intro good_local [OF assms(1)])
      (auto simp: local_change_def nom_frame_def phase_step_def frozen_def phase_inv_def)
  show ?thesis unfolding s' using good_trans [OF g good_event [OF good_inv [OF g]]] by simp
qed (use assms in simp)

text \<open>The message level is raised around the transitions and restored after them.\<close>

lemma slot_inv_level [simp]: "slot_inv E (s\<lparr>mCurrentMessageLevel := l\<rparr>) = slot_inv E s"
  by (simp add: inv_defs historyOf_def own_ok_def)

lemma good_level:
  assumes "good E (s\<lparr>mCurrentMessageLevel := mCurrentMessageLevel s + 1\<rparr>) s'"
  shows "good E s (s'\<lparr>mCurrentMessageLevel := mCurrentMessageLevel s' - 1\<rparr>)"
  using assms by (auto simp: good_in_def step_defs frozen_def historyOf_def)

lemma good_attemptSteps:
  assumes inv: "slot_inv E s" and run: "attemptSteps E pe hint s = Inr (s', w)"
  shows "good E s s'"
proof -
  obtain s2 w2 s3 w3 s4 w4 w5 where
      r: "attemptPreparedAccept E pe hint s = Inr (s2, w2)"
        "attemptPreparedConfirmed E pe hint s2 = Inr (s3, w3)" "attemptAcceptCommit E pe hint s3 = Inr (s4, w4)"
        "attemptConfirmCommit E pe hint s4 = Inr (s', w5)"
    using run unfolding attemptSteps_def by (elim bindE_runE2) (use that in auto)
  note g2 = good_attemptPreparedAccept [OF inv r(1)]
  note g3 = good_trans [OF g2 good_attemptPreparedConfirmed [OF good_inv [OF g2] r(2)]]
  note g4 = good_trans [OF g3 good_attemptAcceptCommit [OF good_inv [OF g3] r(3)]]
  show ?thesis using good_trans [OF g4 good_attemptConfirmCommit [OF good_inv [OF g4] r(4)]] .
qed

lemma good_advanceSlot:
  assumes inv: "slot_inv E s" and run: "advanceSlot E pe hint s = Inr s'"
  shows "good E s s'"
proof -
  let ?s0 = "s\<lparr>mCurrentMessageLevel := mCurrentMessageLevel s + 1\<rparr>"
  obtain s1 s2 w2 s3 w3 where
      r: "checkHeardFromQuorum E ?s0 = Inr s1" "attemptSteps E pe hint s1 = Inr (s2, w2)"
    and bump: "(if mCurrentMessageLevel s2 = 1 then bumpLoop E pe w2 s2 else Inr (s2, w2)) = Inr (s3, w3)"
    and s': "s' = (if w3 then sendLatestEnvelope (s3\<lparr>mCurrentMessageLevel := mCurrentMessageLevel s3 - 1\<rparr>)
        else s3\<lparr>mCurrentMessageLevel := mCurrentMessageLevel s3 - 1\<rparr>)"
  proof -
    have "bindE (checkHeardFromQuorum E ?s0) (\<lambda>s. bindE (attemptSteps E pe hint s) (\<lambda>(s, didWork).
        bindE (if mCurrentMessageLevel s = 1 then bumpLoop E pe didWork s else Inr (s, didWork))
          (\<lambda>(s, didWork). Inr (if didWork
            then sendLatestEnvelope (s\<lparr>mCurrentMessageLevel := mCurrentMessageLevel s - 1\<rparr>)
            else s\<lparr>mCurrentMessageLevel := mCurrentMessageLevel s - 1\<rparr>)))) = Inr s'"
      using run unfolding advanceSlot_def Let_def by (simp split: if_splits)
    then show ?thesis
      by (elim bindE_runE bindE_runE2) (drule Inr_inject, rule that, assumption+, rule sym)
  qed
  have i0: "slot_inv E ?s0" using inv by simp
  note g1 = good_checkHeardFromQuorum [OF i0 r(1)]
  note g2 = good_trans [OF g1 good_attemptSteps [OF good_inv [OF g1] r(2)]]
  have g3: "good E ?s0 s3"
    using bump good_trans [OF g2 good_bumpLoop [OF good_inv [OF g2]]] g2 by (auto split: if_splits)
  note g4 = good_level [OF g3]
  then show ?thesis unfolding s' using good_trans [OF g4 good_sendLatestEnvelope [OF good_inv [OF g4]]] by simp
qed

lemma good_processBallotEnvelope:
  assumes inv: "slot_inv E s" and own: "own_ok E (statement e) s"
    and run: "processBallotEnvelope E pe self e s = Inr (s', r)"
  shows "good_in E {statement e} s s' \<and> (r = VALID \<longrightarrow> statement e \<in> historyOf s')"
proof (cases "r = VALID")
  case False
  then have "s' = s" using run
    by (auto simp: processBallotEnvelope_def bind_simps Let_def split: if_splits)
  then show ?thesis using inv False by simp
next
  case True
  have nw: "isNewerStatementFor (mLatestEnvelopes s) (nodeID (statement e)) (statement e)"
    and bp: "ballotPledges (pledges (statement e))"
    using run True by (cases "pledges (statement e)";
        auto simp: processBallotEnvelope_def bind_simps Let_def split: if_splits)+
  let ?v = "validateValues (validateValue E) (pledges (statement e))"
  define s1 where "s1 = (if ?v = kMaybeValidValue then setFullyValidated False s else s)"
  have g1: "good_in E {statement e} s s1" using inv good_weaken [OF good_setFullyValidated] by (simp add: s1_def)
  have g2: "good_in E {statement e} s1 (recordEnvelope e s1)"
    using good_inv [OF g1] own bp nw by (intro good_recordEnvelope) (auto simp: s1_def)
  have g0: "good_in E {statement e} s (recordEnvelope e s)" using inv own bp nw by (rule good_recordEnvelope)
  show ?thesis
  proof (cases "mPhase s = SCP_PHASE_EXTERNALIZE")
    case False
    then have adv: "advanceSlot E pe (pledges (statement e)) (recordEnvelope e s1) = Inr s'"
      using run True unfolding s1_def
      by (auto simp: processBallotEnvelope_def bind_simps Let_def split: if_splits)
    note g3 = good_weaken [OF good_advanceSlot [OF good_inv [OF g2] adv], where X = "{statement e}"]
    have "statement e \<in> historyOf s'"
      using g3 by (auto simp: good_in_def ballot_step_def log_step_def historyOf_def)
    then show ?thesis using good_trans [OF good_trans [OF g1 g2] g3] by simp
  next
    case ext: True
    then have "s' = recordEnvelope e s"
      using run True by (auto simp: processBallotEnvelope_def bind_simps Let_def split: if_splits)
    then show ?thesis using g0 by simp
  qed
qed

end

text \<open>The recursive call keeps its contract at every depth.\<close>

lemma slot_process_at: "slot_process E (processEnvelopeAt E n)"
proof (induction n)
  case 0
  then show ?case by unfold_locales auto
next
  case (Suc n)
  show ?case
  proof
    show "good E s s' \<and> (r = VALID \<longrightarrow> statement e \<in> historyOf s')"
      if "slot_inv E s" "own_ok E (statement e) s" "nodeID (statement e) = selfID E"
        "processEnvelopeAt E (Suc n) e s = Inr (s', r)" for s e s' r
    proof -
      have "processBallotEnvelope E (processEnvelopeAt E n) True e s = Inr (s', r)" using that(4) by simp
      from slot_process.good_processBallotEnvelope [OF Suc.IH that(1,2) this] good_own [OF _ that(3)]
      show ?thesis by blast
    qed
  qed
qed

interpretation self_process: slot_process E "selfProcess E" for E
  unfolding selfProcess_def by (rule slot_process_at)

section \<open>The entry points\<close>

lemma newSlot_inv: "env_ok E \<Longrightarrow> slot_inv E (newSlot E)"
  by (simp add: inv_defs newSlot_def historyOf_def)

lemma good_ballotProcessEnvelope:
  assumes "slot_inv E s" "own_ok E (statement e) s" "ballotProcessEnvelope E self e s = Inr (s', r)"
  shows "good_in E {statement e} s s' \<and> (r = VALID \<longrightarrow> statement e \<in> historyOf s')"
  using assms unfolding ballotProcessEnvelope_def by (rule self_process.good_processBallotEnvelope)

lemma good_ballotProtocolTimerExpired:
  assumes inv: "slot_inv E s" and run: "ballotProtocolTimerExpired E (selfProcess E) s = Inr s'"
  shows "good E s s'"
proof (cases "mHeardFromQuorum s")
  case True
  then show ?thesis
    using run self_process.good_abandonBallot [OF inv]
    by (auto simp: ballotProtocolTimerExpired_def bind_simps)
next
  case False
  then obtain b where "s' = emitEvent (EvSetupTimer BALLOT_PROTOCOL_TIMER (computeTimeout (counter b))) s"
    using run by (auto simp: ballotProtocolTimerExpired_def startBallotProtocolTimer_def bind_simps)
  then show ?thesis using good_event [OF inv] by simp
qed

end
