(* ===== verification/Ballot_Termination.thy ===== *)
theory Ballot_Termination
  imports Ballot_Steps
begin

text \<open>
  The ballot protocol always ends. The nested calls end because each raises the message level
  and \<open>advanceSlot\<close> gives up at \<open>MAX_ADVANCE_SLOT_RECURSION\<close>; the loop over \<open>attemptBump\<close>,
  which only runs at level one, ends because each round moves to a later phase or a higher
  counter. So the value \<open>Diverges\<close> is never the result of an entry point: the depth
  \<open>MAX_ADVANCE_SLOT_RECURSION\<close> given to \<open>processEnvelopeAt\<close> is enough.
\<close>

section \<open>Runs that end\<close>

text \<open>The run ends, and if it returns the result has the property.\<close>

definition ends :: "('a \<Rightarrow> bool) \<Rightarrow> cxx_error + 'a \<Rightarrow> bool" where
  "ends P m \<longleftrightarrow> m \<noteq> Inl Diverges \<and> (\<forall>a. m = Inr a \<longrightarrow> P a)"

lemma ends_bind:
  "ends P m \<Longrightarrow> (\<And>a. m = Inr a \<Longrightarrow> P a \<Longrightarrow> ends Q (f a)) \<Longrightarrow> ends Q (bindE m f)"
  by (cases m) (auto simp: ends_def)

lemma ends_Inr [simp]: "ends P (Inr a) \<longleftrightarrow> P a"
  by (simp add: ends_def)

lemma ends_Inl [simp]: "ends P (Inl e) \<longleftrightarrow> e \<noteq> Diverges"
  by (simp add: ends_def)

lemma ends_dbgAssert [simp]: "ends (\<lambda>_. True) (dbgAssert b)"
  by (simp add: ends_def dbgAssert_def assertE_def)

lemma ends_assert [simp]: "e \<noteq> Diverges \<Longrightarrow> ends (\<lambda>_. True) (assertE b e)"
  by (simp add: ends_def assertE_def)

lemma ends_deref [simp]: "ends (\<lambda>_. True) (deref p)"
  by (cases p) (simp_all add: ends_def deref_def)

lemma ends_weaken: "ends P m \<Longrightarrow> (\<And>a. P a \<Longrightarrow> Q a) \<Longrightarrow> ends Q m"
  by (auto simp: ends_def)

lemma ends_True: "ends P m \<Longrightarrow> ends (\<lambda>_. True) m"
  by (auto simp: ends_def)

definition at_level :: "nat \<Rightarrow> slot \<Rightarrow> bool" where
  "at_level l s \<longleftrightarrow> mCurrentMessageLevel s = l"

lemma sendLatestEnvelope_level [simp]:
  "mCurrentMessageLevel (sendLatestEnvelope s) = mCurrentMessageLevel s"
  by (simp add: sendLatestEnvelope_def emitEvent_def split: option.split)

lemma at_level_simps [simp]:
  "at_level l (s\<lparr>mCurrentBallot := x\<rparr>) = at_level l s"
  "at_level l (s\<lparr>mHeardFromQuorum := b\<rparr>) = at_level l s"
  "at_level l (s\<lparr>mPrepared := x\<rparr>) = at_level l s"
  "at_level l (s\<lparr>mPreparedPrime := x\<rparr>) = at_level l s"
  "at_level l (s\<lparr>mHighBallot := x\<rparr>) = at_level l s"
  "at_level l (s\<lparr>mCommit := x\<rparr>) = at_level l s"
  "at_level l (s\<lparr>mPhase := p\<rparr>) = at_level l s"
  "at_level l (s\<lparr>mLastEnvelope := e\<rparr>) = at_level l s"
  "at_level l (emitEvent ev s) = at_level l s"
  "at_level l (stopNomination s) = at_level l s"
  "at_level l (sendLatestEnvelope s) = at_level l s"
  "at_level l (recordEnvelope env s) = at_level l s"
  "at_level l (setFullyValidated b s) = at_level l s"
  by (simp_all add: at_level_def emitEvent_def stopNomination_def)

abbreviation at_level2 :: "nat \<Rightarrow> slot \<times> 'a \<Rightarrow> bool" where
  "at_level2 l r \<equiv> at_level l (fst r)"

lemma ends_checkInvariants [simp]: "ends (\<lambda>_. True) (checkInvariants s)"
  unfolding checkInvariants_def
  by (auto intro!: ends_bind [where P = "\<lambda>_. True"] split: option.splits SCPPhase.splits)

lemma ends_createStatement [simp]: "ends (\<lambda>_. True) (createStatement E s)"
  unfolding createStatement_def
  by (auto intro!: ends_bind [where P = "\<lambda>_. True"] split: SCPPhase.splits)

lemma ends_isQuorum [simp]: "ends (\<lambda>_. True) (isQuorum q m qf p)"
  by (simp add: isQuorum_def ends_def Let_def)

lemma ends_ballotAccept [simp]: "ends (\<lambda>_. True) (ballotAccept E v a s)"
  unfolding ballotAccept_def federatedAccept_def by (auto intro!: ends_bind [where P = "\<lambda>_. True"])

lemma ends_ballotRatify [simp]: "ends (\<lambda>_. True) (ballotRatify E v s)"
  unfolding ballotRatify_def federatedRatify_def by (auto intro!: ends_bind [where P = "\<lambda>_. True"])

lemma ends_hintBallots [simp]: "ends (\<lambda>_. True) (hintBallots pl)"
  by (cases pl) auto

lemma ends_getPrepareCandidates [simp]: "ends (\<lambda>_. True) (getPrepareCandidates m hint)"
  unfolding getPrepareCandidates_def by (auto intro!: ends_bind [where P = "\<lambda>_. True"])

lemma ends_getCommitBoundaries [simp]: "ends (\<lambda>_. True) (getCommitBoundariesFromStatements m b)"
  unfolding getCommitBoundariesFromStatements_def by (auto intro!: ends_bind [where P = "\<lambda>_. True"])

lemma ends_findExtendedInterval [simp]:
  "(\<And>i. ends (\<lambda>_. True) (pred i)) \<Longrightarrow> ends (\<lambda>_. True) (findExtendedInterval cand bs pred)"
  by (induction cand bs pred rule: findExtendedInterval.induct)
    (auto simp: Let_def intro!: ends_bind [where P = "\<lambda>_. True"])

lemma ends_findAccepted [simp]: "ends (\<lambda>_. True) (findAccepted E s bs)"
  by (induction bs) (auto intro!: ends_bind [where P = "\<lambda>_. True"] split: option.splits)

lemma ends_findNewH [simp]: "ends (\<lambda>_. True) (findNewH E s bs)"
  by (induction bs) (auto intro!: ends_bind [where P = "\<lambda>_. True"] split: option.splits)

lemma ends_findNewC [simp]: "ends (\<lambda>_. True) (findNewC E s b c bs)"
  by (induction bs arbitrary: c) (auto intro!: ends_bind [where P = "\<lambda>_. True"])

lemma ends_acceptCommitHint [simp]: "ends (\<lambda>_. True) (acceptCommitHint hint)"
  by (cases hint) auto

lemma ends_confirmCommitHint [simp]: "ends (\<lambda>_. True) (confirmCommitHint hint)"
  by (cases hint) auto

lemma ends_bumpToBallot: "at_level l s \<Longrightarrow> ends (at_level l) (bumpToBallot b c s)"
  unfolding bumpToBallot_def startBallotProtocolTimer_def
  by (auto intro!: ends_bind [where P = "\<lambda>_. True"] simp: Let_def)

lemma ends_updateCurrentIfNeeded: "at_level l s \<Longrightarrow> ends (at_level l) (updateCurrentIfNeeded s)"
  unfolding updateCurrentIfNeeded_def
  by (auto intro!: ends_bind [where P = "\<lambda>_. True"] ends_bumpToBallot split: option.splits)

lemma ends_updateCurrentValue: "at_level l s \<Longrightarrow> ends (at_level2 l) (updateCurrentValue b s)"
  unfolding updateCurrentValue_def
  by (auto intro!: ends_bind [where P = "\<lambda>_. True", OF ends_checkInvariants]
      ends_bind [where P = "\<lambda>_. True", OF ends_dbgAssert] ends_bind [OF ends_bumpToBallot]
      simp: Let_def split: option.splits)

section \<open>The nested calls\<close>

text \<open>The call ends at the given message level and restores the level.\<close>

locale nested_process =
  fixes E :: slot_env and pe :: process and l :: nat
  assumes pe_ends: "at_level l s \<Longrightarrow> ends (at_level2 l) (pe e s)"
begin

lemma ends_emit: "at_level l s \<Longrightarrow> ends (at_level l) (emitCurrentStateStatement E pe s)"
  unfolding emitCurrentStateStatement_def
  by (auto intro!: ends_bind [OF ends_createStatement] ends_bind [OF pe_ends]
      simp: Let_def split: option.splits)

lemma ends_emitEvent: "at_level l s \<Longrightarrow> ends (at_level l) (emitCurrentStateStatement E pe (emitEvent ev s))"
  by (rule ends_emit) simp

lemma ends_bumpStateTo: "at_level l s \<Longrightarrow> ends (at_level2 l) (bumpStateTo E pe v n s)"
  unfolding bumpStateTo_def
  by (auto intro!: ends_bind [OF ends_updateCurrentValue] ends_bind [OF ends_emitEvent] simp: Let_def)

lemma ends_bumpState: "at_level l s \<Longrightarrow> ends (at_level2 l) (bumpState E pe v f s)"
  unfolding bumpState_def by (auto intro: ends_bumpStateTo simp: Let_def)

lemma ends_abandonBallot: "at_level l s \<Longrightarrow> ends (at_level2 l) (abandonBallot E pe n s)"
  unfolding abandonBallot_def by (auto intro: ends_bumpStateTo ends_bumpState simp: Let_def)

lemma ends_setPreparedAccept:
  assumes "at_level l s" shows "ends (at_level2 l) (setPreparedAccept E pe b s)"
proof -
  obtain s1 w where s1: "setPrepared b s = (s1, w)" by fastforce
  then have "at_level l s1"
    using assms by (auto simp: setPrepared_def Let_def split: option.splits if_splits)
  then show ?thesis
    unfolding setPreparedAccept_def s1 Let_def prod.case
    by (intro ends_bind [where P = "at_level2 l"])
      (auto intro!: ends_bind [OF ends_dbgAssert] ends_bind [OF ends_emitEvent] split: option.splits)
qed

lemma ends_attemptPreparedAccept:
  "at_level l s \<Longrightarrow> ends (at_level2 l) (attemptPreparedAccept E pe hint s)"
  unfolding attemptPreparedAccept_def
  by (auto intro!: ends_bind [OF ends_getPrepareCandidates] ends_bind [OF ends_findAccepted]
      ends_setPreparedAccept split: option.splits)

lemma ends_setPreparedConfirmed:
  "at_level l s \<Longrightarrow> ends (at_level2 l) (setPreparedConfirmed E pe c h s)"
  unfolding setPreparedConfirmed_def Let_def split_def
  by (intro ends_bind [where P = "at_level2 l"])
    (auto intro!: ends_bind [OF ends_dbgAssert] ends_bind [OF ends_emitEvent]
      ends_bind [OF ends_updateCurrentIfNeeded])

lemma ends_attemptPreparedConfirmed:
  "at_level l s \<Longrightarrow> ends (at_level2 l) (attemptPreparedConfirmed E pe hint s)"
  unfolding attemptPreparedConfirmed_def
  by (auto intro!: ends_bind [OF ends_getPrepareCandidates] ends_bind [OF ends_findNewH]
      ends_bind [where P = "\<lambda>_. True"] ends_setPreparedConfirmed simp: Let_def split: option.splits)

lemma ends_setAcceptCommit:
  "at_level l s \<Longrightarrow> ends (at_level2 l) (setAcceptCommit E pe c h s)"
  unfolding setAcceptCommit_def Let_def split_def
proof (rule ends_bind [where P = "at_level2 l"], goal_cases)
  case 1
  then show ?case by (auto intro!: ends_bind [where P = "at_level l"] ends_bumpToBallot)
next
  case (2 r)
  then show ?case
    by (auto intro!: ends_bind [OF ends_emitEvent] ends_bind [OF ends_updateCurrentIfNeeded])
qed

lemma ends_attemptAcceptCommit:
  "at_level l s \<Longrightarrow> ends (at_level2 l) (attemptAcceptCommit E pe hint s)"
  unfolding attemptAcceptCommit_def
  by (auto intro!: ends_bind [where P = "\<lambda>_. True"] ends_setAcceptCommit split: option.splits)

lemma ends_setConfirmCommit:
  "at_level l s \<Longrightarrow> ends (at_level2 l) (setConfirmCommit E pe c h s)"
  unfolding setConfirmCommit_def
  by (auto intro!: ends_bind [OF ends_updateCurrentIfNeeded] ends_bind [OF ends_emit]
      ends_bind [OF ends_deref])

lemma ends_attemptConfirmCommit:
  "at_level l s \<Longrightarrow> ends (at_level2 l) (attemptConfirmCommit E pe hint s)"
  unfolding attemptConfirmCommit_def
  by (auto intro!: ends_bind [where P = "\<lambda>_. True"] ends_setConfirmCommit split: option.splits)

lemma ends_attemptBump: "at_level l s \<Longrightarrow> ends (at_level2 l) (attemptBump E pe s)"
  unfolding attemptBump_def
  by (auto intro!: ends_bind [where P = "\<lambda>_. True"] ends_abandonBallot simp: Let_def split: option.splits)

lemma ends_attemptSteps: "at_level l s \<Longrightarrow> ends (at_level2 l) (attemptSteps E pe hint s)"
  unfolding attemptSteps_def
  by (auto intro!: ends_bind [OF ends_attemptPreparedAccept] ends_bind [OF ends_attemptPreparedConfirmed]
      ends_bind [OF ends_attemptAcceptCommit] ends_bind [OF ends_attemptConfirmCommit])

end

lemma ends_checkHeard: "at_level l s \<Longrightarrow> ends (at_level l) (checkHeardFromQuorum E s)"
  unfolding checkHeardFromQuorum_def
  by (auto intro!: ends_bind [OF ends_isQuorum] split: option.splits)

lemma ends_processBallot:
  assumes lev: "at_level l s"
    and adv: "\<And>b. ends (at_level l) (advanceSlot E pe (pledges (statement e))
      (recordEnvelope e (if b then setFullyValidated False s else s)))"
  shows "ends (at_level2 l) (processBallotEnvelope E pe self e s)"
proof -
  have sane: "ends (\<lambda>_. True) (isStatementSane q pl self)" for q pl
    by (cases pl) auto
  have wb: "ends (\<lambda>_. True) (getWorkingBallot pl)" for pl by (cases pl) auto
  show ?thesis
    unfolding processBallotEnvelope_def Let_def using lev
    by (auto intro!: ends_bind [OF ends_dbgAssert] ends_bind [OF ends_deref] ends_bind [OF sane]
        ends_bind [OF wb] ends_bind [OF adv [of True, simplified]] ends_bind [OF adv [of False, simplified]]
        simp del: isStatementSane.simps)
qed

lemma ends_advance:
  assumes lev: "at_level l s" and one: "1 \<le> l"
    and nested: "Suc l < MAX_ADVANCE_SLOT_RECURSION \<Longrightarrow> nested_process pe (Suc l)"
  shows "ends (at_level l) (advanceSlot E pe hint s)"
proof (cases "Suc l < MAX_ADVANCE_SLOT_RECURSION")
  case False
  then show ?thesis using lev by (simp add: advanceSlot_def Let_def at_level_def)
next
  case True
  let ?s0 = "s\<lparr>mCurrentMessageLevel := mCurrentMessageLevel s + 1\<rparr>"
  have l0: "at_level (Suc l) ?s0" using lev by (simp add: at_level_def)
  have "ends (at_level l) (bindE (checkHeardFromQuorum E ?s0) (\<lambda>s. bindE (attemptSteps E pe hint s)
      (\<lambda>(s, didWork). bindE (if mCurrentMessageLevel s = 1 then bumpLoop E pe didWork s else Inr (s, didWork))
        (\<lambda>(s, didWork). Inr (if didWork
            then sendLatestEnvelope (s\<lparr>mCurrentMessageLevel := mCurrentMessageLevel s - 1\<rparr>)
            else s\<lparr>mCurrentMessageLevel := mCurrentMessageLevel s - 1\<rparr>)))))"
  proof (rule ends_bind [OF ends_checkHeard [OF l0]],
      rule ends_bind [OF nested_process.ends_attemptSteps [OF nested [OF True]]], assumption)
    fix r :: "slot \<times> bool" assume "at_level2 (Suc l) r"
    with one show "ends (at_level l) (case r of (s, didWork) \<Rightarrow>
        bindE (if mCurrentMessageLevel s = 1 then bumpLoop E pe didWork s else Inr (s, didWork))
        (\<lambda>(s, didWork). Inr (if didWork
            then sendLatestEnvelope (s\<lparr>mCurrentMessageLevel := mCurrentMessageLevel s - 1\<rparr>)
            else s\<lparr>mCurrentMessageLevel := mCurrentMessageLevel s - 1\<rparr>)))"
      by (cases r) (simp, simp add: at_level_def)
  qed
  then show ?thesis
    unfolding advanceSlot_def Let_def using True lev by (simp add: at_level_def del: One_nat_def)
qed

lemma ends_at:
  "MAX_ADVANCE_SLOT_RECURSION \<le> n + l \<Longrightarrow> 1 \<le> l \<Longrightarrow> l < MAX_ADVANCE_SLOT_RECURSION \<Longrightarrow>
     at_level l s \<Longrightarrow> ends (at_level2 l) (processEnvelopeAt E n e s)"
proof (induction n arbitrary: l s e)
  case (Suc n)
  have "nested_process (processEnvelopeAt E n) (Suc l)" if "Suc l < MAX_ADVANCE_SLOT_RECURSION"
    using Suc.prems that by unfold_locales (auto intro!: Suc.IH)
  then show ?case
    using Suc.prems by (auto intro!: ends_processBallot ends_advance)
qed simp

section \<open>The loop of bumps\<close>

definition currentCounter :: "slot \<Rightarrow> nat" where
  "currentCounter s = (case mCurrentBallot s of None \<Rightarrow> 0 | Some b \<Rightarrow> unat (counter b))"

definition bumpMeasure :: "slot \<Rightarrow> nat" where
  "bumpMeasure s = (2 - phaseRank (mPhase s)) * 4294967296 + (4294967295 - currentCounter s)"

lemma currentCounter_le: "currentCounter s \<le> 4294967295"
  by (auto simp: currentCounter_def unat_le_u32 split: option.splits)

lemma bumpMeasure_less:
  assumes "phaseRank (mPhase s) \<le> phaseRank (mPhase s')"
    and "mPhase s' = mPhase s \<Longrightarrow> currentCounter s < currentCounter s'"
  shows "bumpMeasure s' < bumpMeasure s"
proof (cases "mPhase s' = mPhase s")
  case True
  then show ?thesis using assms(2) currentCounter_le [of s'] by (simp add: bumpMeasure_def)
next
  case False
  then have "phaseRank (mPhase s) < phaseRank (mPhase s')" "phaseRank (mPhase s') \<le> 2"
    using assms(1) by (auto simp: le_less) (cases "mPhase s'"; simp)
  then have "Suc (2 - phaseRank (mPhase s')) \<le> 2 - phaseRank (mPhase s)" by linarith
  then have "Suc (2 - phaseRank (mPhase s')) * 4294967296 \<le> (2 - phaseRank (mPhase s)) * 4294967296"
    by (rule mult_le_mono1)
  then show ?thesis unfolding bumpMeasure_def by simp
qed

lemma findBump_ahead: "findBump E s t ns = Some n \<Longrightarrow> t < n"
  by (induction ns) (auto simp: Let_def split: if_splits)

lemma currentCounter_mono: "mCurrentBallot s \<le> mCurrentBallot s' \<Longrightarrow> currentCounter s \<le> currentCounter s'"
  by (auto simp: currentCounter_def word_le_nat_alt [symmetric] ballot_le_counter split: option.splits)

locale top_process = slot_process E pe + nested_process E pe 1 for E pe
begin

lemma bumpStateTo_raises:
  assumes inv: "slot_inv E s" and run: "bumpStateTo E pe v n s = Inr (s', True)"
  shows "phaseRank (mPhase s) \<le> phaseRank (mPhase s')"
    and "mPhase s' = mPhase s \<Longrightarrow> unat n \<le> currentCounter s'"
proof -
  define newb where "newb = SCPBallot n (case mHighBallot s of Some h \<Rightarrow> bvalue h | None \<Rightarrow> v)"
  obtain s1 where u: "updateCurrentValue newb s = Inr (s1, True)"
    and r: "emitCurrentStateStatement E pe (emitEvent (EvStartedBallotProtocol newb) s1) = Inr s'"
    using run unfolding bumpStateTo_def newb_def [symmetric]
    by (auto simp: bind_simps Let_def split: if_splits)
  have g1: "good E s s1" using good_updateCurrentValue [OF inv u] .
  have b: "mCurrentBallot s1 = Some newb" "mPhase s1 = mPhase s"
    using u bumpToBallot_change [of newb True s s1] by (auto elim!: updateCurrentValue_cases)
  have "good E s1 s'" using good_event_emit [OF good_inv [OF g1] _ r] by simp
  then have st: "phase_step s1 s'" by (simp add: good_in_def ballot_step_def)
  then show "phaseRank (mPhase s) \<le> phaseRank (mPhase s')" using b by (simp add: phase_step_def)
  have "currentCounter s1 = unat n" using b by (simp add: currentCounter_def newb_def)
  then show "unat n \<le> currentCounter s'" if "mPhase s' = mPhase s"
    using st that b currentCounter_mono [of s1 s'] by (simp add: phase_step_def)
qed

lemma attemptBump_raises:
  assumes inv: "slot_inv E s" and run: "attemptBump E pe s = Inr (s', True)"
  shows "bumpMeasure s' < bumpMeasure s"
proof -
  let ?t = "case mCurrentBallot s of Some b \<Rightarrow> counter b | None \<Rightarrow> 0"
  obtain ns n where n: "findBump E s ?t ns = Some n" and ab: "abandonBallot E pe n s = Inr (s', True)"
    using run by (auto simp: attemptBump_def bind_simps Let_def split: if_splits option.splits)
  have tn: "?t < n" using findBump_ahead [OF n] .
  then have "n \<noteq> 0" using word_not_simps(1) by blast
  then obtain v where v: "bumpStateTo E pe v n s = Inr (s', True)"
    using ab by (auto simp: abandonBallot_def Let_def split: if_splits)
  have "currentCounter s < unat n"
    using tn by (auto simp: currentCounter_def word_less_nat_alt split: option.splits)
  then show ?thesis
    using bumpStateTo_raises [OF inv v] by (intro bumpMeasure_less) auto
qed

lemma ends_bumpLoop:
  assumes inv: "slot_inv E s" and lev: "at_level 1 s"
  shows "ends (at_level2 1) (bumpLoop E pe w s)"
proof -
  let ?I = "\<lambda>r :: bump_state. case r of Inl e \<Rightarrow> e \<noteq> Diverges | Inr (t, _, _) \<Rightarrow> slot_inv E t \<and> at_level 1 t"
  let ?m = "\<lambda>r :: bump_state. case r of Inl _ \<Rightarrow> 0 | Inr (t, b, _) \<Rightarrow> if b then Suc (bumpMeasure t) else 0"
  have keep: "?I (bumpBody E pe r)" if I: "?I r" for r
  proof (cases r)
    case (Inr x)
    obtain t b w where x: "x = (t, b, w)" by (cases x)
    then have t: "slot_inv E t" "at_level 1 t" using I Inr by auto
    have e: "ends (at_level2 1) (attemptBump E pe t)" by (rule ends_attemptBump [OF t(2)])
    show ?thesis
      using e good_attemptBump [OF t(1)] unfolding Inr x bumpBody_def
      by (cases "attemptBump E pe t") (auto simp: ends_def dest!: good_inv)
  qed (use I in \<open>simp add: bumpBody_def\<close>)
  have down: "?m (bumpBody E pe r) < ?m r" if I: "?I r" and c: "bumpCond r" for r
  proof -
    obtain t w where r: "r = Inr (t, True, w)" using c by (auto simp: bumpCond_def split: sum.splits)
    then show ?thesis
      using I attemptBump_raises [of t]
      by (cases "attemptBump E pe t") (auto simp: bumpBody_def)
  qed
  let ?r0 = "bumpBody E pe (Inr (s, False, w))"
  have I0: "?I ?r0" using keep [of "Inr (s, False, w)"] inv lev by simp
  obtain r where r: "while_option bumpCond (bumpBody E pe) ?r0 = Some r"
    using measure_while_option_Some [of ?I bumpCond "bumpBody E pe" ?m ?r0] keep down I0 by blast
  have "?I r" using while_option_rule [of ?I, OF _ r I0] keep by blast
  then show ?thesis unfolding bumpLoop_def r by (auto simp: split: sum.splits)
qed

lemma ends_advance_top:
  assumes inv: "slot_inv E s" and lev: "at_level 0 s"
  shows "ends (at_level 0) (advanceSlot E pe hint s)"
proof -
  let ?s0 = "s\<lparr>mCurrentMessageLevel := mCurrentMessageLevel s + 1\<rparr>"
  have l0: "at_level 1 ?s0" and i0: "slot_inv E ?s0" using lev inv by (simp_all add: at_level_def)
  have "ends (at_level 0) (bindE (checkHeardFromQuorum E ?s0) (\<lambda>s. bindE (attemptSteps E pe hint s)
      (\<lambda>(s, didWork). bindE (if mCurrentMessageLevel s = 1 then bumpLoop E pe didWork s else Inr (s, didWork))
        (\<lambda>(s, didWork). Inr (if didWork
            then sendLatestEnvelope (s\<lparr>mCurrentMessageLevel := mCurrentMessageLevel s - 1\<rparr>)
            else s\<lparr>mCurrentMessageLevel := mCurrentMessageLevel s - 1\<rparr>)))))"
  proof (rule ends_bind [OF ends_checkHeard [OF l0]], rule ends_bind [OF ends_attemptSteps], assumption)
    fix s1 and r :: "slot \<times> bool"
    assume c: "checkHeardFromQuorum E ?s0 = Inr s1" and a: "attemptSteps E pe hint s1 = Inr r" "at_level2 1 r"
    obtain s2 w where r: "r = (s2, w)" by (cases r)
    have i1: "slot_inv E s1" using good_checkHeardFromQuorum [OF i0 c] by (rule good_inv)
    have i2: "slot_inv E s2" using good_attemptSteps [OF i1] a(1) r by (auto dest: good_inv)
    have "ends (at_level2 1) (if mCurrentMessageLevel s2 = 1 then bumpLoop E pe w s2 else Inr (s2, w))"
      using ends_bumpLoop [OF i2] a(2) r by (simp add: at_level_def)
    then show "ends (at_level 0) (case r of (s, didWork) \<Rightarrow>
        bindE (if mCurrentMessageLevel s = 1 then bumpLoop E pe didWork s else Inr (s, didWork))
        (\<lambda>(s, didWork). Inr (if didWork
            then sendLatestEnvelope (s\<lparr>mCurrentMessageLevel := mCurrentMessageLevel s - 1\<rparr>)
            else s\<lparr>mCurrentMessageLevel := mCurrentMessageLevel s - 1\<rparr>)))"
      unfolding r prod.case by (rule ends_bind) (auto simp: at_level_def split: prod.splits)
  qed
  then show ?thesis
    unfolding advanceSlot_def Let_def using lev
    by (simp add: at_level_def MAX_ADVANCE_SLOT_RECURSION_def del: One_nat_def)
qed

lemma ends_process_top:
  assumes inv: "slot_inv E s" and own: "own_ok E (statement e) s" and lev: "at_level 0 s"
  shows "ends (at_level2 0) (processBallotEnvelope E pe self e s)"
proof (cases "ballotPledges (pledges (statement e)) \<and>
    isNewerStatementFor (mLatestEnvelopes s) (nodeID (statement e)) (statement e)")
  case True
  have "slot_inv E (recordEnvelope e (if b then setFullyValidated False s else s))" for b
    using good_recordEnvelope [of E s e] good_recordEnvelope [of E "setFullyValidated False s" e]
      good_setFullyValidated [OF inv] inv own True by (auto dest: good_inv)
  then show ?thesis using lev by (intro ends_processBallot ends_advance_top) auto
next
  case False
  have s: "ends (\<lambda>_. True) (isStatementSane q pl self)" for q pl by (cases pl) auto
  show ?thesis
  proof (cases "ballotPledges (pledges (statement e))")
    case True
    with False show ?thesis unfolding processBallotEnvelope_def Let_def using lev
      by (auto intro!: ends_bind [OF ends_dbgAssert] ends_bind [OF ends_deref] ends_bind [OF s]
          simp del: isStatementSane.simps)
  next
    case False
    then obtain n where n: "pledges (statement e) = NOMINATE n" by (cases "pledges (statement e)") auto
    then show ?thesis unfolding processBallotEnvelope_def Let_def using lev
      by (auto intro!: ends_bind [OF ends_dbgAssert] ends_bind [OF ends_deref])
  qed
qed

end

lemma top_process_at:
  assumes "MAX_ADVANCE_SLOT_RECURSION \<le> Suc n"
  shows "top_process E (processEnvelopeAt E n)"
proof -
  have "nested_process (processEnvelopeAt E n) 1"
    using assms by unfold_locales (auto intro!: ends_at simp: MAX_ADVANCE_SLOT_RECURSION_def)
  then show ?thesis using slot_process_at by (simp add: top_process_def)
qed

interpretation self_top: top_process E "selfProcess E" for E
  unfolding selfProcess_def by (rule top_process_at) simp

section \<open>The entry points end\<close>

lemma ends_ballotProcessEnvelope:
  "slot_inv E s \<Longrightarrow> own_ok E (statement e) s \<Longrightarrow> at_level 0 s \<Longrightarrow>
     ends (at_level2 0) (ballotProcessEnvelope E self e s)"
  unfolding ballotProcessEnvelope_def by (rule self_top.ends_process_top)

lemma ends_selfProcess:
  assumes "slot_inv E s" "own_ok E (statement e) s" "at_level 0 s"
  shows "ends (at_level2 0) (selfProcess E e s)"
proof -
  have "top_process E (processEnvelopeAt E 49)"
    by (rule top_process_at) (simp add: MAX_ADVANCE_SLOT_RECURSION_def)
  from top_process.ends_process_top [OF this assms] show ?thesis
    by (simp add: selfProcess_def MAX_ADVANCE_SLOT_RECURSION_def numeral_eq_Suc)
qed

lemma ends_emit_top:
  assumes inv: "slot_inv E s" and lev: "at_level 0 s"
  shows "ends (at_level 0) (emitCurrentStateStatement E (selfProcess E) s)"
proof -
  have "ends (at_level2 0) (selfProcess E (createEnvelope E pl) s)" if pl: "createStatement E s = Inr pl" for pl
    using createStatement_own(1) [OF pl] by (intro ends_selfProcess [OF inv _ lev])
      (simp add: createEnvelope_def Let_def)
  then show ?thesis
    unfolding emitCurrentStateStatement_def using lev
    by (auto intro!: ends_bind [OF ends_createStatement] ends_bind [where P = "at_level2 0"]
        simp: Let_def split: option.splits)
qed

lemma ends_bumpStateTo_top:
  assumes inv: "slot_inv E s" and lev: "at_level 0 s"
  shows "ends (at_level2 0) (bumpStateTo E (selfProcess E) v n s)"
proof -
  have "ends (at_level 0) (emitCurrentStateStatement E (selfProcess E) (emitEvent ev t))"
    if u: "updateCurrentValue b s = Inr (t, w)" and "at_level 0 t" and ev: "plainEvent ev" for b t w ev
    using that good_inv [OF good_updateCurrentValue [OF inv u]] good_event [of E t ev]
    by (intro ends_emit_top) (auto dest: good_inv)
  then show ?thesis
    unfolding bumpStateTo_def using lev
    by (auto intro!: ends_bind [OF ends_updateCurrentValue [OF lev]] ends_bind [where P = "at_level 0"]
        simp: Let_def)
qed

lemma ends_abandonBallot_top:
  assumes inv: "slot_inv E s" and lev: "at_level 0 s"
  shows "ends (at_level2 0) (abandonBallot E (selfProcess E) n s)"
    and "ends (at_level2 0) (bumpState E (selfProcess E) v force s)"
  using lev ends_bumpStateTo_top [OF assms]
  by (auto simp: abandonBallot_def bumpState_def Let_def)

end
