(* ===== verification/Nomination_Invariants.thy ===== *)
theory Nomination_Invariants
  imports Slot_Operations Ballot_Termination "HOL-Library.Multiset"
begin

text \<open>
  The nomination protocol only adds: votes, accepted values and candidates grow, a candidate was
  accepted and an accepted value is voted for, and the nomination of a node is only replaced by
  one that contains it. Through it and the ballot protocol, every operation of a slot keeps the
  invariant of the ballot protocol (\<open>slot_step\<close>).
\<close>

section \<open>The order of nominations\<close>

lemma std_includes_mset:
  "sorted v \<Longrightarrow> sorted p \<Longrightarrow> std_includes v p \<longleftrightarrow> mset p \<subseteq># mset v"
proof (induction v p rule: std_includes.induct)
  case (3 x v p ps)
  consider "p < x" | "x = p" | "x < p" by (meson linorder_neqE)
  then show ?case
  proof cases
    case 1
    then have "p \<notin># mset (x # v)" using "3.prems"(1) by auto
    then have "\<not> mset (p # ps) \<subseteq># mset (x # v)"
      by (meson in_multiset_in_set list.set_intros(1) mset_subset_eqD)
    then show ?thesis using 1 by simp
  next
    case 2
    then show ?thesis using 3 by simp
  next
    case 3
    then have "x \<notin># mset (p # ps)" using "3.prems"(2) by auto
    then have "mset (p # ps) \<subseteq># mset (x # v) \<longleftrightarrow> mset (p # ps) \<subseteq># mset v"
      by (metis add_mset_add_single diff_single_trivial mset.simps(2) subset_eq_diff_conv)
    moreover have "\<not> p < x" using 3 by auto
    ultimately show ?thesis using 3 "3.IH"(2) "3.prems" by simp
  qed
qed auto

lemma std_includes_set: "std_includes v p \<Longrightarrow> set p \<subseteq> set v"
  by (induction v p rule: std_includes.induct) (auto split: if_splits)

definition nominationSorted :: "SCPNomination \<Rightarrow> bool" where
  "nominationSorted n \<longleftrightarrow> sorted (n_votes n) \<and> sorted (n_accepted n)"

lemma isNewerNomination_iff:
  "isNewerNomination a b \<longleftrightarrow>
     length (n_votes a) \<le> length (n_votes b) \<and> length (n_accepted a) \<le> length (n_accepted b) \<and>
     std_includes (n_votes b) (n_votes a) \<and> std_includes (n_accepted b) (n_accepted a) \<and>
     (length (n_votes a) \<noteq> length (n_votes b) \<or> length (n_accepted a) \<noteq> length (n_accepted b))"
  by (auto simp: isNewerNomination_def isSubsetHelper_def Let_def)

text \<open>On sorted lists: both multisets are included and one of them grew.\<close>

lemma isNewerNomination_mset:
  assumes "nominationSorted a" "nominationSorted b"
  shows "isNewerNomination a b \<longleftrightarrow>
     mset (n_votes a) \<subseteq># mset (n_votes b) \<and> mset (n_accepted a) \<subseteq># mset (n_accepted b) \<and>
     \<not> (mset (n_votes a) = mset (n_votes b) \<and> mset (n_accepted a) = mset (n_accepted b))"
proof -
  have sz: "length p \<le> length v \<and> (length p = length v \<longleftrightarrow> mset p = mset v)"
    if "mset p \<subseteq># mset v" for p v :: "Value list"
  proof (cases "mset p = mset v")
    case True
    then show ?thesis using mset_eq_length [OF True] by simp
  next
    case False
    with that have "mset p \<subset># mset v" by (rule subset_mset.le_neq_trans)
    from mset_subset_size [OF this] have "length p < length v" by simp
    then show ?thesis using False by simp
  qed
  have inc: "std_includes (n_votes b) (n_votes a) \<longleftrightarrow> mset (n_votes a) \<subseteq># mset (n_votes b)"
    "std_includes (n_accepted b) (n_accepted a) \<longleftrightarrow> mset (n_accepted a) \<subseteq># mset (n_accepted b)"
    using assms std_includes_mset unfolding nominationSorted_def by blast+
  show ?thesis
  proof (cases "mset (n_votes a) \<subseteq># mset (n_votes b) \<and> mset (n_accepted a) \<subseteq># mset (n_accepted b)")
    case True
    then show ?thesis
      using sz [of "n_votes a" "n_votes b"] sz [of "n_accepted a" "n_accepted b"]
      unfolding isNewerNomination_iff inc by blast
  next
    case False
    then show ?thesis unfolding isNewerNomination_iff inc by blast
  qed
qed

interpretation nomination_order: statement_order
  "\<lambda>a b. nominationSorted a \<and> nominationSorted b \<and> isNewerNomination a b"
proof
  show "\<not> (nominationSorted a \<and> nominationSorted a \<and> isNewerNomination a a)" for a
    by (simp add: isNewerNomination_iff)
  show "nominationSorted a \<and> nominationSorted c \<and> isNewerNomination a c"
    if "nominationSorted a \<and> nominationSorted b \<and> isNewerNomination a b"
      "nominationSorted b \<and> nominationSorted c \<and> isNewerNomination b c" for a b c
  proof -
    have srt: "nominationSorted a" "nominationSorted b" "nominationSorted c" using that by simp_all
    have ab: "mset (n_votes a) \<subseteq># mset (n_votes b)" "mset (n_accepted a) \<subseteq># mset (n_accepted b)"
      "\<not> (mset (n_votes a) = mset (n_votes b) \<and> mset (n_accepted a) = mset (n_accepted b))"
      using that(1) isNewerNomination_mset [OF srt(1,2)] by simp_all
    have bc: "mset (n_votes b) \<subseteq># mset (n_votes c)" "mset (n_accepted b) \<subseteq># mset (n_accepted c)"
      using that(2) isNewerNomination_mset [OF srt(2,3)] by simp_all
    have "\<not> (mset (n_votes a) = mset (n_votes c) \<and> mset (n_accepted a) = mset (n_accepted c))"
      using ab bc by (metis subset_mset.antisym)
    then show ?thesis
      using srt ab bc isNewerNomination_mset [OF srt(1,3)] by (meson subset_mset.order_trans)
  qed
qed

section \<open>The invariant\<close>

definition nom_map_inv :: "slot \<Rightarrow> bool" where
  "nom_map_inv s \<longleftrightarrow> omap_ok (mLatestNominations s) \<and>
     (\<forall>n e. map_of (mLatestNominations s) n = Some e \<longrightarrow> nodeID (statement e) = n \<and>
        (\<exists>nom. pledges (statement e) = NOMINATE nom \<and> nominationSorted nom) \<and> statement e \<in> historyOf s)"

definition values_inv :: "slot \<Rightarrow> bool" where
  "values_inv s \<longleftrightarrow> oset_ok (mVotes s) \<and> oset_ok (mAccepted s) \<and> oset_ok (mCandidates s) \<and>
     set (mCandidates s) \<subseteq> set (mAccepted s) \<and> set (mAccepted s) \<subseteq> set (mVotes s)"

definition full_inv :: "slot_env \<Rightarrow> slot \<Rightarrow> bool" where
  "full_inv E s \<longleftrightarrow> slot_inv E s \<and> nom_map_inv s \<and> values_inv s"

definition nom_newer_eq :: "SCPEnvelope \<Rightarrow> SCPEnvelope \<Rightarrow> bool" where
  "nom_newer_eq e e' \<longleftrightarrow> e = e' \<or> (let a = nominate_of (pledges (statement e));
     b = nominate_of (pledges (statement e'))
   in nominationSorted a \<and> nominationSorted b \<and> isNewerNomination a b)"

definition nom_step :: "slot \<Rightarrow> slot \<Rightarrow> bool" where
  "nom_step s s' \<longleftrightarrow> set (mVotes s) \<subseteq> set (mVotes s') \<and> set (mAccepted s) \<subseteq> set (mAccepted s') \<and>
     set (mCandidates s) \<subseteq> set (mCandidates s') \<and> mRoundNumber s \<le> mRoundNumber s' \<and>
     (\<forall>n e. map_of (mLatestNominations s) n = Some e \<longrightarrow>
        (\<exists>e'. map_of (mLatestNominations s') n = Some e' \<and> nom_newer_eq e e'))"

definition slot_step :: "slot \<Rightarrow> slot \<Rightarrow> bool" where
  "slot_step s s' \<longleftrightarrow> log_step s s' \<and> phase_step s s' \<and> external_step s s' \<and>
     latest_newer (mLatestEnvelopes s) (mLatestEnvelopes s') \<and>
     mCurrentMessageLevel s' = mCurrentMessageLevel s \<and> nom_step s s'"

definition keeps_in :: "slot_env \<Rightarrow> SCPStatement set \<Rightarrow> slot \<Rightarrow> slot \<Rightarrow> bool" where
  "keeps_in E X s s' \<longleftrightarrow> full_inv E s' \<and> slot_step s s' \<and>
     historyOf s' \<subseteq> historyOf s \<union> X \<union> {st. nodeID st = selfID E}"

abbreviation keeps :: "slot_env \<Rightarrow> slot \<Rightarrow> slot \<Rightarrow> bool" where
  "keeps E \<equiv> keeps_in E {}"

lemma nom_newer_eq_refl [simp]: "nom_newer_eq e e"
  by (simp add: nom_newer_eq_def)

lemma nom_newer_eq_trans: "nom_newer_eq a b \<Longrightarrow> nom_newer_eq b c \<Longrightarrow> nom_newer_eq a c"
  unfolding nom_newer_eq_def Let_def by (metis nomination_order.newer_trans)

lemma nom_step_refl [simp]: "nom_step s s"
  by (simp add: nom_step_def)

lemma nom_step_trans: "nom_step a b \<Longrightarrow> nom_step b c \<Longrightarrow> nom_step a c"
  unfolding nom_step_def by (meson nom_newer_eq_trans order_trans)

lemma log_step_trans: "log_step a b \<Longrightarrow> log_step b c \<Longrightarrow> log_step a c"
  by (auto simp: log_step_def)

lemma slot_step_trans: "slot_step a b \<Longrightarrow> slot_step b c \<Longrightarrow> slot_step a c"
  unfolding slot_step_def
  using log_step_trans phase_step_trans external_step_trans latest_newer_trans nom_step_trans by metis

lemma keeps_trans: "keeps_in E X a b \<Longrightarrow> keeps_in E X b c \<Longrightarrow> keeps_in E X a c"
  unfolding keeps_in_def using slot_step_trans by blast

lemma keeps_weaken: "keeps E s s' \<Longrightarrow> keeps_in E X s s'"
  by (auto simp: keeps_in_def)

lemma keeps_own: "keeps_in E {st} s s' \<Longrightarrow> nodeID st = selfID E \<Longrightarrow> keeps E s s'"
  by (auto simp: keeps_in_def)

lemma slot_step_refl [simp]: "slot_step s s"
  by (simp add: slot_step_def log_step_def external_step_def)

lemma keeps_refl [simp]: "full_inv E s \<Longrightarrow> keeps_in E X s s"
  by (auto simp: keeps_in_def)

lemma keeps_inv [dest]: "keeps_in E X s s' \<Longrightarrow> full_inv E s'"
  by (simp add: keeps_in_def)

lemma full_slot_inv: "full_inv E s \<Longrightarrow> slot_inv E s"
  by (simp add: full_inv_def)

lemma historyOf_mono: "log_step s s' \<Longrightarrow> historyOf s \<subseteq> historyOf s'"
  by (auto simp: log_step_def historyOf_def)

text \<open>The ballot protocol leaves the nomination alone.\<close>

lemma good_keeps:
  assumes inv: "full_inv E s" and g: "good_in E X s s'"
  shows "keeps_in E X s s'"
proof -
  have st: "ballot_step s s'" and i: "slot_inv E s'" and own: "historyOf s' \<subseteq> historyOf s \<union> X \<union> {st. nodeID st = selfID E}"
    using g by (auto simp: good_in_def)
  then have f: "nom_frame s s'" and h: "historyOf s \<subseteq> historyOf s'"
    by (auto simp: ballot_step_def dest: historyOf_mono)
  have "nom_map_inv s'" "values_inv s'" "nom_step s s'"
    using inv f h by (auto simp: full_inv_def nom_map_inv_def values_inv_def nom_step_def nom_frame_def)
  then show ?thesis using st i own by (simp add: keeps_in_def full_inv_def slot_step_def ballot_step_def)
qed

text \<open>A change of the nomination state that records nothing.\<close>

definition nom_change :: "slot \<Rightarrow> slot \<Rightarrow> bool" where
  "nom_change s s' \<longleftrightarrow> mStatementsHistory s' = mStatementsHistory s \<and> mFullyValidated s' = mFullyValidated s \<and>
     mLatestEnvelopes s' = mLatestEnvelopes s \<and> mLastEnvelope s' = mLastEnvelope s \<and>
     mLastEnvelopeEmit s' = mLastEnvelopeEmit s \<and> mCurrentMessageLevel s' = mCurrentMessageLevel s \<and>
     mPhase s' = mPhase s \<and> frozen s s' \<and> mLatestNominations s' = mLatestNominations s \<and>
     (\<exists>evs. events s' = events s @ evs \<and> externalizedValues evs = [] \<and> ballotEmits evs = [])"

lemma nom_change_keeps:
  assumes inv: "full_inv E s" and c: "nom_change s s'" and v: "values_inv s'" and st: "nom_step s s'"
  shows "keeps E s s'"
proof -
  have h: "historyOf s' = historyOf s" using c by (simp add: nom_change_def historyOf_def)
  obtain evs where evs: "events s' = events s @ evs" "externalizedValues evs = []" "ballotEmits evs = []"
    using c by (auto simp: nom_change_def)
  have "slot_inv E s'"
    using inv c evs unfolding full_inv_def inv_defs nom_change_def frozen_def own_ok_def h by simp
  moreover have "nom_map_inv s'" using inv c unfolding full_inv_def nom_map_inv_def nom_change_def h by simp
  moreover have "slot_step s s'"
    using st c evs by (auto simp: slot_step_def log_step_def phase_step_def external_step_def nom_change_def frozen_def)
  ultimately show ?thesis using v h by (simp add: keeps_in_def full_inv_def)
qed

section \<open>The loops\<close>

text \<open>
  The loops over the values of a nomination only add values: \<open>grows W s s'\<close> when votes and
  accepted values were added, all of them from \<open>W\<close>.
\<close>

definition grows :: "Value set \<Rightarrow> slot \<Rightarrow> slot \<Rightarrow> bool" where
  "grows W s s' \<longleftrightarrow> set (mVotes s) \<subseteq> set (mVotes s') \<and> set (mAccepted s) \<subseteq> set (mAccepted s') \<and>
     set (mVotes s') \<subseteq> set (mVotes s) \<union> W \<and> set (mAccepted s') \<subseteq> set (mAccepted s) \<union> W"

definition nom_weight :: "slot \<Rightarrow> nat" where
  "nom_weight s = card (set (mVotes s)) + card (set (mAccepted s))"

lemma grows_refl [simp]: "grows W s s"
  by (simp add: grows_def)

lemma grows_trans: "grows W a b \<Longrightarrow> grows W b c \<Longrightarrow> grows W a c"
  by (auto simp: grows_def)

lemma grows_mono: "grows W a b \<Longrightarrow> W \<subseteq> W' \<Longrightarrow> grows W' a b"
  by (auto simp: grows_def)

lemma grows_weight: "grows W a b \<Longrightarrow> nom_weight a \<le> nom_weight b"
  by (auto simp: grows_def nom_weight_def intro!: add_mono card_mono)

text \<open>What a value of a nomination is turned into before the node votes for it.\<close>

definition votable :: "slot_env \<Rightarrow> Value set \<Rightarrow> Value set" where
  "votable E V = V \<union> {extractValidValue E v | v. v \<in> V \<and>
     validateValue E v \<noteq> kFullyValidatedValue \<and> extractValidValue E v \<noteq> []}"

lemma newValueLoop_mem:
  "newValueLoop E s vs nv nh = Inr v \<Longrightarrow> v \<noteq> nv \<Longrightarrow> v \<noteq> [] \<and> v \<notin> set (mVotes s) \<and> v \<in> votable E (set vs)"
proof (induction vs arbitrary: nv nh)
  case (Cons a vs)
  let ?t = "if validateValue E a = kFullyValidatedValue then a else extractValidValue E a"
  have sub: "votable E (set vs) \<subseteq> votable E (set (a # vs))" by (auto simp: votable_def)
  have new: "?t \<in> votable E (set (a # vs))" if "?t \<noteq> []" using that by (auto simp: votable_def)
  consider nh' where "newValueLoop E s vs nv nh' = Inr v"
    | nh' where "newValueLoop E s vs ?t nh' = Inr v" "?t \<noteq> []" "?t \<notin> set (mVotes s)"
    using Cons.prems(1) by (auto simp: Let_def bindE_eq_Inr split: if_splits)
  then show ?case
  proof cases
    case 1
    then show ?thesis using Cons.IH [OF _ Cons.prems(2)] sub by blast
  next
    case 2
    show ?thesis
    proof (cases "v = ?t")
      case True
      then show ?thesis using 2(2,3) new [OF 2(2)] by metis
    next
      case False
      then show ?thesis using Cons.IH [OF 2(1)] sub by blast
    qed
  qed
qed simp

lemma getNewValue_mem:
  "getNewValueFromNomination E s nom = Inr v \<Longrightarrow> v \<noteq> [] \<Longrightarrow>
     v \<notin> set (mVotes s) \<and> v \<in> votable E (set (applyAll nom))"
  unfolding getNewValueFromNomination_def using newValueLoop_mem by metis

text \<open>The steps of a loop: they change the nomination state only, and add values of \<open>W\<close>.\<close>

definition nom_work :: "Value set \<Rightarrow> slot \<Rightarrow> slot \<Rightarrow> bool" where
  "nom_work W s s' \<longleftrightarrow> values_inv s' \<and> nom_change s s' \<and> nom_step s s' \<and> grows W s s' \<and>
     mNominationStarted s' = mNominationStarted s"

lemma nom_change_refl [simp]: "nom_change s s"
  by (simp add: nom_change_def frozen_def)

lemma nom_change_trans: "nom_change a b \<Longrightarrow> nom_change b c \<Longrightarrow> nom_change a c"
  by (auto simp: nom_change_def frozen_def)

lemma nom_work_refl [simp]: "nom_work W s s \<longleftrightarrow> values_inv s"
  by (simp add: nom_work_def)

lemma nom_work_trans: "nom_work W a b \<Longrightarrow> nom_work W b c \<Longrightarrow> nom_work W a c"
  unfolding nom_work_def using nom_change_trans nom_step_trans grows_trans by metis

lemma nom_work_mono: "nom_work W a b \<Longrightarrow> W \<subseteq> W' \<Longrightarrow> nom_work W' a b"
  by (auto simp: nom_work_def intro: grows_mono)

lemma nom_work_values: "nom_work W s s' \<Longrightarrow> values_inv s'"
  by (simp add: nom_work_def)

lemma nom_work_weight: "nom_work W s s' \<Longrightarrow> nom_weight s \<le> nom_weight s'"
  by (auto simp: nom_work_def intro: grows_weight)

lemma nom_work_keeps: "full_inv E s \<Longrightarrow> nom_work W s s' \<Longrightarrow> keeps E s s'"
  unfolding nom_work_def using nom_change_keeps by blast

lemma work_vote:
  assumes "values_inv s" "v \<in> W"
  shows "nom_work W s (s\<lparr>mVotes := oset_insert v (mVotes s)\<rparr>)"
  using assms by (auto simp: nom_work_def values_inv_def nom_change_def frozen_def nom_step_def grows_def set_insort_insert)

lemma work_accept:
  assumes "values_inv s" "v \<in> W"
  shows "nom_work W s (s\<lparr>mAccepted := oset_insert v (mAccepted s), mVotes := oset_insert v (mVotes s)\<rparr>)"
  using assms by (auto simp: nom_work_def values_inv_def nom_change_def frozen_def nom_step_def grows_def set_insort_insert)

lemma work_candidate:
  assumes "values_inv s" "v \<in> set (mAccepted s)"
  shows "nom_work W s (s\<lparr>mCandidates := oset_insert v (mCandidates s)\<rparr>)"
  using assms by (auto simp: nom_work_def values_inv_def nom_change_def frozen_def nom_step_def grows_def set_insort_insert)

lemma weight_vote: "v \<notin> set (mVotes s) \<Longrightarrow> nom_weight s < nom_weight (s\<lparr>mVotes := oset_insert v (mVotes s)\<rparr>)"
  by (simp add: nom_weight_def set_insort_insert)

lemma weight_accept:
  "v \<notin> set (mAccepted s) \<Longrightarrow>
     nom_weight s < nom_weight (s\<lparr>mAccepted := oset_insert v (mAccepted s), mVotes := oset_insert v (mVotes s)\<rparr>)"
  by (cases "v \<in> set (mVotes s)") (simp_all add: nom_weight_def set_insort_insert insert_absorb)

lemma promoteVotes_spec:
  "promoteVotes E vs (s, m) = Inr (s', m') \<Longrightarrow> values_inv s \<Longrightarrow>
     nom_work (votable E (set vs)) s s' \<and> (m' \<longrightarrow> m \<or> nom_weight s < nom_weight s')"
proof (induction vs arbitrary: s m)
  case (Cons v vs)
  let ?W = "votable E (set (v # vs))"
  have sub: "votable E (set vs) \<subseteq> ?W" and v: "v \<in> ?W"
    and x: "validateValue E v \<noteq> kFullyValidatedValue \<Longrightarrow> extractValidValue E v \<noteq> [] \<Longrightarrow> extractValidValue E v \<in> ?W"
    by (auto simp: votable_def)
  have step: "nom_work ?W s s' \<and> (m' \<longrightarrow> m \<or> nom_weight s < nom_weight s')"
    if run: "promoteVotes E vs (t, mt) = Inr (s', m')" and t: "nom_work ?W s t"
      and mt: "mt \<longrightarrow> m \<or> nom_weight s < nom_weight t" for t mt
  proof -
    note r = Cons.IH [OF run nom_work_values [OF t]]
    have "nom_work ?W t s'" using r nom_work_mono [OF _ sub] by blast
    from nom_work_trans [OF t this] nom_work_weight [OF this] nom_work_weight [OF t] r mt
    show ?thesis by auto
  qed
  have skip: ?case if "promoteVotes E vs (s, m) = Inr (s', m')"
    using step [OF that] Cons.prems(2) by simp
  have accept: ?case if "v \<notin> set (mAccepted s)" "promoteVotes E vs
      (s\<lparr>mAccepted := oset_insert v (mAccepted s), mVotes := oset_insert v (mVotes s)\<rparr>, True) = Inr (s', m')"
    using step [OF that(2) work_accept [OF Cons.prems(2) v]] weight_accept [OF that(1)] by simp
  have vote: ?case if "extractValidValue E v \<notin> set (mVotes s)" "promoteVotes E vs
      (s\<lparr>mVotes := oset_insert (extractValidValue E v) (mVotes s)\<rparr>, True) = Inr (s', m')"
      "validateValue E v \<noteq> kFullyValidatedValue" "extractValidValue E v \<noteq> []"
    using step [OF that(2) work_vote [OF Cons.prems(2) x [OF that(3,4)]]] weight_vote [OF that(1)] by simp
  show ?case
    using Cons.prems(1) skip accept vote by (simp add: Let_def bindE_eq_Inr split: if_splits) blast+
qed simp

lemma promoteAccepted_spec:
  "promoteAccepted E as (s, n) = Inr (s', n') \<Longrightarrow> values_inv s \<Longrightarrow> set as \<subseteq> set (mAccepted s) \<Longrightarrow>
     nom_work {} s s' \<and> nom_weight s' = nom_weight s \<and> mAccepted s' = mAccepted s"
proof (induction as arbitrary: s n)
  case (Cons a as)
  let ?t = "s\<lparr>mCandidates := oset_insert a (mCandidates s)\<rparr>"
  have t: "nom_work {} s ?t" using Cons.prems(2,3) by (intro work_candidate) auto
  have w: "nom_weight ?t = nom_weight s" by (simp add: nom_weight_def)
  have 1: ?case if "promoteAccepted E as (s, n) = Inr (s', n')"
    using Cons.IH [OF that Cons.prems(2)] Cons.prems(3) by auto
  have 2: ?case if "promoteAccepted E as (?t, True) = Inr (s', n')"
    using Cons.IH [OF that nom_work_values [OF t]] Cons.prems(3) nom_work_trans [OF t] w by auto
  show ?case using Cons.prems(1) 1 2 by (auto elim!: bindE_runE split: if_splits)
qed simp

lemma takeLeaderVote_spec:
  assumes "takeLeaderVote E st (s, m) = Inr (s', m')" "values_inv s"
  shows "nom_work (votable E (set (applyAll (nominate_of (pledges st))))) s s' \<and>
    (m' \<longrightarrow> m \<or> nom_weight s < nom_weight s')"
  using assms work_vote weight_vote getNewValue_mem
  by (fastforce simp: takeLeaderVote_def elim!: bindE_runE split: if_splits)

section \<open>Processing a nomination\<close>

abbreviation nomination_of :: "SCPEnvelope \<Rightarrow> SCPNomination" where
  "nomination_of env \<equiv> nominate_of (pledges (statement env))"

fun isNomination :: "SCPPledges \<Rightarrow> bool" where
  "isNomination (NOMINATE nom) = True"
| "isNomination _ = False"

lemma isNominationE: "isNomination pl \<Longrightarrow> (\<And>nom. pl = NOMINATE nom \<Longrightarrow> P) \<Longrightarrow> P"
  by (cases pl) auto

lemma isNomination_own [simp]: "isNomination (pledges st) \<Longrightarrow> own_ok E st s"
  by (auto simp: own_ok_def elim: isNominationE)

lemma nominationSane_sorted: "nominationSane E st = Inr True \<Longrightarrow> nominationSorted (nominate_of (pledges st))"
  by (auto simp: nominationSane_def nominationSorted_def Let_def split: if_splits)

lemma recordNomination_simps [simp]:
  "mVotes (recordNomination env s) = mVotes s" "mAccepted (recordNomination env s) = mAccepted s"
  "mCandidates (recordNomination env s) = mCandidates s"
  "historyOf (recordNomination env s) = insert (statement env) (historyOf s)"
  "values_inv (recordNomination env s) = values_inv s"
  "nom_weight (recordNomination env s) = nom_weight s"
  "mNominationStarted (recordNomination env s) = mNominationStarted s"
  "grows W s (recordNomination env s)"
  by (auto simp: recordNomination_def recordStatement_def historyOf_def values_inv_def nom_weight_def grows_def)

lemma keeps_recordNomination:
  assumes inv: "full_inv E s" and nom: "isNomination (pledges (statement env))"
    and srt: "nominationSorted (nomination_of env)"
    and nw: "isNewerNominationFor (mLatestNominations s) (nodeID (statement env)) (nomination_of env)"
  shows "keeps_in E {statement env} s (recordNomination env s)"
proof -
  let ?s = "recordNomination env s"
  have fields: "mLatestEnvelopes ?s = mLatestEnvelopes s" "mPhase ?s = mPhase s" "mCommit ?s = mCommit s"
    "frozen s ?s" "events ?s = events s" "mLastEnvelope ?s = mLastEnvelope s"
    "mLastEnvelopeEmit ?s = mLastEnvelopeEmit s" "mFullyValidated ?s = mFullyValidated s"
    "mStatementsHistory ?s = mStatementsHistory s @ [(statement env, mFullyValidated s)]"
    "mCurrentMessageLevel ?s = mCurrentMessageLevel s" "mRoundNumber ?s = mRoundNumber s"
    "mLatestNominations ?s = omap_put (nodeID (statement env)) env (mLatestNominations s)"
    by (simp_all add: recordNomination_def recordStatement_def frozen_def)
  have si: "slot_inv E s" and ni: "nom_map_inv s" and vi: "values_inv s" using inv by (auto simp: full_inv_def)
  have "map_inv ?s" "phase_inv ?s" "emit_inv E ?s"
    using si fields unfolding slot_inv_def map_inv_def phase_inv_def emit_inv_def frozen_def by auto
  moreover have "own_inv E ?s"
    using si fields isNomination_own [OF nom, of E ?s] unfolding slot_inv_def own_inv_def
    by (auto simp: own_ok_def)
  moreover have "evidence_inv E ?s"
    using si fields unfolding slot_inv_def evidence_inv_def by (auto intro: evidence_mono)
  ultimately have 1: "slot_inv E ?s" using si by (simp add: slot_inv_def)
  have 2: "nom_map_inv ?s"
    using ni fields nom srt unfolding nom_map_inv_def
    by (auto simp: omap_ok_put elim!: isNominationE split: if_splits) (auto simp: nominate_of_def)
  have "nominationSorted (nomination_of e)" if "map_of (mLatestNominations s) n = Some e" for n e
    using ni that by (force simp: nom_map_inv_def nominate_of_def)
  then have 3: "nom_step s ?s"
    using srt nw fields(11,12) unfolding nom_step_def
    by (auto simp: nom_newer_eq_def isNewerNominationFor_def Let_def)
  show ?thesis
    using 1 2 3 vi fields
    by (simp add: keeps_in_def full_inv_def slot_step_def log_step_def phase_step_def external_step_def frozen_def) auto
qed

lemma nominationStep_started:
  assumes run: "bindE (promoteVotes E vs (s, False)) (\<lambda>(s, modified).
      bindE (promoteAccepted E (mAccepted s) (s, False)) (\<lambda>(s, newCandidates).
      bindE (takeLeaderVote E st (s, modified)) (\<lambda>(s, modified).
        Inr (s, VALID, modified, newCandidates)))) = Inr (s', res, m, n)"
    and val: "values_inv s" and vs: "set vs \<subseteq> set (applyAll (nominate_of (pledges st)))"
  shows "nom_work (votable E (set (applyAll (nominate_of (pledges st))))) s s'" (is "nom_work ?W _ _")
    "m \<Longrightarrow> nom_weight s < nom_weight s'" "res = VALID"
proof -
  obtain s1 m1 s2 n2 where p1: "promoteVotes E vs (s, False) = Inr (s1, m1)"
    and p2: "promoteAccepted E (mAccepted s1) (s1, False) = Inr (s2, n2)"
    and p3: "takeLeaderVote E st (s2, m1) = Inr (s', m)" and "res = VALID"
    using run by (auto simp: bindE_eq_Inr)
  then show "res = VALID" by simp
  have sub: "votable E (set vs) \<subseteq> ?W" using vs by (auto simp: votable_def)
  have w1: "nom_work ?W s s1" "m1 \<longrightarrow> nom_weight s < nom_weight s1"
    using promoteVotes_spec [OF p1 val] nom_work_mono [OF _ sub] by auto
  have w2: "nom_work ?W s1 s2" "nom_weight s2 = nom_weight s1"
    using promoteAccepted_spec [OF p2 nom_work_values [OF w1(1)]] nom_work_mono by auto
  have w3: "nom_work ?W s2 s'" "m \<longrightarrow> m1 \<or> nom_weight s2 < nom_weight s'"
    using takeLeaderVote_spec [OF p3 nom_work_values [OF w2(1)]] by auto
  show "nom_work ?W s s'" by (rule nom_work_trans [OF nom_work_trans [OF w1(1) w2(1)] w3(1)])
  show "nom_weight s < nom_weight s'" if m
    using that w1(2) w2(2) w3(2) nom_work_weight [OF w1(1)] nom_work_weight [OF w3(1)] by auto
qed

lemma nominationStep_spec:
  assumes run: "nominationStep E env s = Inr (s', res, m, n)" and inv: "full_inv E s"
    and nom: "isNomination (pledges (statement env))"
  shows "keeps_in E {statement env} s s' \<and> (res = INVALID \<longrightarrow> s' = s \<and> \<not> m \<and> \<not> n) \<and>
    grows (votable E (set (applyAll (nomination_of env)))) s s' \<and> (m \<longrightarrow> nom_weight s < nom_weight s')"
proof -
  let ?r = "recordNomination env s"
  have sub: "set (n_votes (nomination_of env)) \<subseteq> set (applyAll (nomination_of env))"
    by (simp add: applyAll_def)
  consider "s' = s" "res = INVALID" "\<not> m" "\<not> n"
    | (rec) "isNewerNominationFor (mLatestNominations s) (nodeID (statement env)) (nomination_of env)"
      "nominationSane E (statement env) = Inr True"
      "(if mNominationStarted ?r then
          bindE (promoteVotes E (n_votes (nomination_of env)) (?r, False)) (\<lambda>(s, modified).
          bindE (promoteAccepted E (mAccepted s) (s, False)) (\<lambda>(s, newCandidates).
          bindE (takeLeaderVote E (statement env) (s, modified)) (\<lambda>(s, modified).
            Inr (s, VALID, modified, newCandidates))))
        else Inr (?r, VALID, False, False)) = Inr (s', res, m, n)"
    using run by (auto simp: nominationStep_def Let_def elim!: bindE_runE split: if_splits)
  then show ?thesis
  proof cases
    case rec
    note k = keeps_recordNomination [OF inv nom nominationSane_sorted [OF rec(2)] rec(1)]
    show ?thesis
    proof (cases "mNominationStarted ?r")
      case True
      note w = nominationStep_started [OF rec(3) [unfolded if_P [OF True]] _ sub]
      have v: "values_inv ?r" using inv by (simp add: full_inv_def)
      have "keeps_in E {statement env} s s'"
        by (rule keeps_trans [OF k keeps_weaken [OF nom_work_keeps [OF keeps_inv [OF k] w(1) [OF v]]]])
      moreover have "grows (votable E (set (applyAll (nomination_of env)))) s s'"
        using w(1) [OF v] by (auto simp: nom_work_def intro: grows_trans [OF recordNomination_simps(8)])
      ultimately show ?thesis using w(2,3) [OF v] by auto
    next
      case False
      then show ?thesis using rec(3) k by auto
    qed
  qed (use inv in auto)
qed

lemma keeps_nominationEmitted:
  assumes "full_inv E s" "nominationEmitted env (s, res) = Inr s'" "isNomination (pledges (statement env))"
  shows "keeps E s s'"
proof (rule nom_change_keeps [OF assms(1)])
  show "nom_change s s'" "nom_step s s'"
    using assms(2,3) by (auto simp: nominationEmitted_def Let_def emitEvent_def nom_change_def frozen_def
        nom_step_def elim!: isNominationE split: if_splits)
  show "values_inv s'"
    using assms by (auto simp: nominationEmitted_def Let_def emitEvent_def values_inv_def full_inv_def split: if_splits)
qed

lemma keeps_nominationDone:
  assumes inv: "full_inv E s" and run: "nominationDone E res n s = Inr (s', r)"
  shows "keeps E s s' \<and> r = res"
proof (cases n)
  case True
  let ?v = "combineCandidates E (mCandidates s)"
  let ?t = "emitEvent (EvUpdatedCandidateValue ?v) (s\<lparr>mLatestCompositeCandidate := ?v\<rparr>)"
  obtain b where b: "bumpState E (selfProcess E) ?v False ?t = Inr (s', b)" and r: "r = res"
    using run True by (auto simp: nominationDone_def newCandidatesStep_def Let_def bindE_eq_Inr)
  have k: "keeps E s ?t"
    using inv by (intro nom_change_keeps [OF inv])
      (auto simp: nom_change_def frozen_def nom_step_def emitEvent_def values_inv_def full_inv_def)
  then have f: "full_inv E ?t" by (rule keeps_inv)
  have "good E ?t s'" by (rule self_process.good_bumpState [OF full_slot_inv [OF f] b])
  then show ?thesis using keeps_trans [OF k good_keeps [OF f]] r by simp
qed (use assms in \<open>simp add: nominationDone_def\<close>)

lemma nominationEnvelope_simps [simp]:
  "isNomination (pledges (statement (nominationEnvelope E s)))"
  "nodeID (statement (nominationEnvelope E s)) = selfID E"
  "set (applyAll (nomination_of (nominationEnvelope E s))) = set (mVotes s) \<union> set (mAccepted s)"
  by (auto simp: nominationEnvelope_def createEnvelope_def Let_def nominate_of_def applyAll_def)

lemma keeps_processNomination:
  assumes "processNomination E env s = Some y" "full_inv E s" "isNomination (pledges (statement env))"
    "y = Inr (s', r)"
  shows "keeps_in E {statement env} s s' \<and> (r = INVALID \<longrightarrow> s' = s)"
  using assms
proof (induction arbitrary: s' r rule: processNomination.raw_induct [rotated, consumes 1, case_names step])
  case (step pn E env s y)
  obtain t res m n where st: "nominationStep E env s = Inr (t, res, m, n)"
    using step.prems step.hyps by (cases "nominationStep E env s") auto
  note sp = nominationStep_spec [OF st step.prems(1,2)]
  have kt: "keeps_in E {statement env} s t" and ft: "full_inv E t" using sp by auto
  show ?case
  proof (cases m)
    case False
    then have "nominationDone E res n t = Inr (s', r)" using st step.hyps step.prems(3) by simp
    note d = keeps_nominationDone [OF ft this]
    show ?thesis
      using sp d keeps_trans [OF kt keeps_weaken] \<open>nominationDone E res n t = Inr (s', r)\<close>
      by (auto simp: nominationDone_def)
  next
    case True
    let ?e = "nominationEnvelope E t"
    obtain u ru w where u: "pn E ?e t = Some (Inr (u, ru))" and w: "nominationEmitted ?e (u, ru) = Inr w"
      and d: "nominationDone E res n w = Inr (s', r)"
      using st step.hyps step.prems(3) True by (auto simp: bind_eq_Some_conv bindE_eq_Inr)
    have ku: "keeps E t u" using step.IH [OF u ft] keeps_own by (metis nominationEnvelope_simps(1,2))
    have kw: "keeps E u w" by (rule keeps_nominationEmitted [OF keeps_inv [OF ku] w]) simp
    note kd = keeps_nominationDone [OF keeps_inv [OF kw] d]
    have "keeps_in E {statement env} s s'"
      using keeps_trans [OF kt keeps_weaken [OF keeps_trans [OF ku keeps_trans [OF kw]]]] kd by blast
    moreover have "r \<noteq> INVALID" using sp True kd by auto
    ultimately show ?thesis by simp
  qed
qed

end
