(* ===== verification/Slot_Invariants.thy ===== *)
theory Slot_Invariants
  imports Nomination_Invariants
begin

text \<open>
  The operations of a slot as a whole: \<open>slot_op\<close> is the relation of the calls the application
  makes on a slot, each of them keeps \<open>full_inv\<close> and moves the slot by \<open>slot_step\<close>
  (\<open>Nomination_Invariants\<close>), and each of them returns. The recursion of
  \<open>emitNomination\<close> through \<open>processEnvelope\<close> ends because every round votes for or accepts one
  more of finitely many values; this needs what \<open>SCPDriver.h\<close> says of
  \<open>extractValidValue\<close>: the value it extracts is one that the node fully validates.
\<close>

section \<open>Nominating a value\<close>

lemma values_event [simp]: "values_inv (emitEvent ev s) = values_inv s"
  by (simp add: values_inv_def emitEvent_def)

lemma leaderValues_spec:
  "leaderValues E ls (s, v, u) = Inr (s', v', u') \<Longrightarrow> values_inv s \<Longrightarrow> nom_work UNIV s s'"
proof (induction ls arbitrary: s v u)
  case (Cons l ls)
  have vote: ?case if "leaderValues E ls (s\<lparr>mVotes := oset_insert w (mVotes s)\<rparr>, w, True) = Inr (s', v', u')" for w
  proof -
    have t: "nom_work UNIV s (s\<lparr>mVotes := oset_insert w (mVotes s)\<rparr>)" by (rule work_vote [OF Cons.prems(2)]) simp
    show ?thesis by (rule nom_work_trans [OF t Cons.IH [OF that nom_work_values [OF t]]])
  qed
  show ?case
    using Cons.prems Cons.IH vote by (auto elim!: bindE_runE split: option.splits if_splits)
qed simp

lemma updateRoundLeaders_eq: "updateRoundLeaders E s = Inr s' \<Longrightarrow> \<exists>l. s' = s\<lparr>mRoundLeaders := l\<rparr>"
  by (auto simp: updateRoundLeaders_def bindE_eq_Inr)

lemma keeps_started:
  assumes "full_inv E s"
  shows "keeps E s (s\<lparr>mNominationStarted := True, mPreviousValue := pv,
    mRoundNumber := mRoundNumber s + 1, mRoundLeaders := l\<rparr>)"
  using assms by (intro nom_change_keeps [OF assms])
    (auto simp: nom_change_def frozen_def nom_step_def values_inv_def full_inv_def)

lemma keeps_plain:
  assumes "full_inv E s" "plainEvent ev"
  shows "keeps E s (emitEvent ev s)"
  using good_keeps [OF assms(1) good_event [OF full_slot_inv [OF assms(1)] assms(2)]] .

lemma keeps_nominateStep:
  assumes inv: "full_inv E s" and run: "nominateStep E v pv s = Inr (s', u)"
  shows "keeps E s s'"
proof -
  let ?s0 = "s\<lparr>mNominationStarted := True, mPreviousValue := pv, mRoundNumber := mRoundNumber s + 1\<rparr>"
  obtain s1 t nv where u: "updateRoundLeaders E ?s0 = Inr s1"
    and t: "(if selfID E \<in> set (mRoundLeaders s1)
      then Inr (s1\<lparr>mVotes := oset_insert v (mVotes s1)\<rparr>, v, v \<notin> set (mVotes s1))
      else leaderValues E (mRoundLeaders s1) (s1, [], False)) = Inr (t, nv, u)"
    and s': "s' = emitEvent (EvSetupTimer NOMINATION_TIMER (computeTimeout (of_int (mRoundNumber t))))
      (emitEvent (EvNominatingValue nv) t)"
    using run by (auto simp: nominateStep_def bindE_eq_Inr Let_def)
  have k1: "keeps E s s1" using updateRoundLeaders_eq [OF u] keeps_started [OF inv] by auto
  then have i1: "full_inv E s1" by (rule keeps_inv)
  then have v1: "values_inv s1" by (simp add: full_inv_def)
  have "nom_work UNIV s1 t"
    using t work_vote [OF v1, of v UNIV] leaderValues_spec [OF _ v1] by (auto split: if_splits)
  from nom_work_keeps [OF i1 this] have k2: "keeps E s1 t" .
  have k3: "keeps E t (emitEvent (EvNominatingValue nv) t)" by (rule keeps_plain [OF keeps_inv [OF k2]]) simp
  have "keeps E (emitEvent (EvNominatingValue nv) t) s'"
    unfolding s' by (rule keeps_plain [OF keeps_inv [OF k3]]) simp
  then show ?thesis using keeps_trans k1 k2 k3 by blast
qed

lemma keeps_emitNomination:
  assumes "full_inv E s" "emitNomination E s = Some (Inr s')"
  shows "keeps E s s'"
proof -
  let ?e = "nominationEnvelope E s"
  obtain t r where p: "processNomination E ?e s = Some (Inr (t, r))" and w: "nominationEmitted ?e (t, r) = Inr s'"
    using assms(2) by (auto simp: emitNomination_def bind_eq_Some_conv bindE_eq_Inr)
  have k: "keeps E s t"
    using keeps_processNomination [OF p assms(1) _ refl] keeps_own by (metis nominationEnvelope_simps(1,2))
  show ?thesis by (rule keeps_trans [OF k keeps_nominationEmitted [OF keeps_inv [OF k] w]]) simp
qed

lemma keeps_nominate:
  assumes inv: "full_inv E s" and run: "nominate E v pv timedout s = Some (Inr (s', u))"
  shows "keeps E s s'"
proof (cases "timedout \<and> \<not> mNominationStarted s")
  case True
  then show ?thesis using assms by (simp add: nominate_def)
next
  case False
  then obtain t w where t: "nominateStep E v pv s = Inr (t, w)"
    using run by (cases "nominateStep E v pv s") (auto simp: nominate_def)
  note k = keeps_nominateStep [OF inv t]
  have "s' = t \<or> emitNomination E t = Some (Inr s')"
    using run t False by (auto simp: nominate_def bind_eq_Some_conv bindE_eq_Inr split: if_splits)
  then show ?thesis using keeps_trans [OF k keeps_emitNomination [OF keeps_inv [OF k]]] k by blast
qed

section \<open>The calls on a slot\<close>

text \<open>
  What the application calls on a slot, with the envelope it passes. An envelope that carries the
  node's own name was recorded by the node before: nobody else signs for it.
\<close>

inductive slot_op :: "slot_env \<Rightarrow> SCPEnvelope option \<Rightarrow> slot \<Rightarrow> slot \<Rightarrow> bool" for E where
  receive: "slotProcessEnvelope E False env s = Some (Inr (s', r)) \<Longrightarrow>
     (nodeID (statement env) = selfID E \<Longrightarrow> statement env \<in> historyOf s) \<Longrightarrow> slot_op E (Some env) s s'"
| abandon: "slotAbandonBallot E s = Inr (s', b) \<Longrightarrow> slot_op E None s s'"
| bump: "slotBumpState E v force s = Inr (s', b) \<Longrightarrow> slot_op E None s s'"
| timer: "ballotProtocolTimerExpired E (selfProcess E) s = Inr s' \<Longrightarrow> slot_op E None s s'"
| nominate: "nominate E v pv timedout s = Some (Inr (s', b)) \<Longrightarrow> slot_op E None s s'"
| stop: "slot_op E None s (stopNomination s)"

definition received :: "SCPEnvelope option \<Rightarrow> SCPStatement set" where
  "received m = statement ` set_option m"

lemma own_recorded: "slot_inv E s \<Longrightarrow> (nodeID st = selfID E \<Longrightarrow> st \<in> historyOf s) \<Longrightarrow> own_ok E st s"
  by (auto simp: inv_defs own_ok_def)

lemma keeps_slotProcessEnvelope:
  assumes inv: "full_inv E s" and run: "slotProcessEnvelope E self env s = Some (Inr (s', r))"
    and own: "own_ok E (statement env) s"
  shows "keeps_in E {statement env} s s'"
proof (cases "isNomination (pledges (statement env))")
  case True
  then have "processNomination E env s = Some (Inr (s', r))"
    using run by (auto simp: slotProcessEnvelope_def elim: isNominationE split: if_splits)
  from keeps_processNomination [OF this inv True refl] show ?thesis by simp
next
  case False
  then have "ballotProcessEnvelope E self env s = Inr (s', r)"
    using run by (auto simp: slotProcessEnvelope_def split: if_splits SCPPledges.splits)
  from good_ballotProcessEnvelope [OF full_slot_inv [OF inv] own this] good_keeps [OF inv]
  show ?thesis by simp
qed

lemma keeps_slot_op: "slot_op E m s s' \<Longrightarrow> full_inv E s \<Longrightarrow> keeps_in E (received m) s s'"
proof (induction rule: slot_op.induct)
  case (receive env s s' r)
  have "own_ok E (statement env) s" by (rule own_recorded [OF full_slot_inv [OF receive.prems] receive.hyps(2)])
  then show ?case using keeps_slotProcessEnvelope [OF receive.prems receive.hyps(1)] by (simp add: received_def)
next
  case (abandon s s' b)
  then show ?case
    using self_process.good_abandonBallot full_slot_inv good_keeps keeps_weaken unfolding slotAbandonBallot_def by blast
next
  case (bump v force s s' b)
  then show ?case
    using self_process.good_bumpState full_slot_inv good_keeps keeps_weaken unfolding slotBumpState_def by blast
next
  case (timer s s')
  then show ?case using good_ballotProtocolTimerExpired full_slot_inv good_keeps keeps_weaken by blast
next
  case (nominate v pv timedout s s' b)
  then show ?case using keeps_nominate keeps_weaken by blast
next
  case (stop s)
  then have "keeps E s (stopNomination s)"
    by (intro nom_change_keeps)
      (auto simp: stopNomination_def nom_change_def frozen_def nom_step_def values_inv_def full_inv_def)
  then show ?case by (rule keeps_weaken)
qed

text \<open>The states a sequence of calls leads to.\<close>

inductive slot_run :: "slot_env \<Rightarrow> slot \<Rightarrow> slot \<Rightarrow> bool" for E s where
  start: "slot_run E s s"
| op: "slot_run E s t \<Longrightarrow> slot_op E m t u \<Longrightarrow> slot_run E s u"

lemma keeps_mono: "keeps_in E X s s' \<Longrightarrow> X \<subseteq> Y \<Longrightarrow> keeps_in E Y s s'"
  by (auto simp: keeps_in_def)

lemma keeps_slot_run: "slot_run E s s' \<Longrightarrow> full_inv E s \<Longrightarrow> keeps_in E UNIV s s'"
proof (induction rule: slot_run.induct)
  case (op t m u)
  then have k: "keeps_in E UNIV s t" by simp
  show ?case by (rule keeps_trans [OF k keeps_mono [OF keeps_slot_op [OF op.hyps(2) keeps_inv [OF k]]]]) simp
qed simp

lemma newSlot_full: "env_ok E \<Longrightarrow> full_inv E (newSlot E)"
  using newSlot_inv by (simp add: full_inv_def nom_map_inv_def values_inv_def newSlot_def)

section \<open>Every call returns\<close>

lemma ends_federated [simp]:
  "ends (\<lambda>_. True) (federatedAccept E v a m)" "ends (\<lambda>_. True) (federatedRatify E v m)"
  by (simp_all add: federatedAccept_def federatedRatify_def)

lemma ends_hash [simp]: "ends (\<lambda>_. True) (hashValue E s v)" "ends (\<lambda>_. True) (hashNode E s b n)"
  by (auto simp: hashValue_def hashNode_def intro!: ends_bind [where P = "\<lambda>_. True"])

lemma ends_newValueLoop [simp]: "ends (\<lambda>_. True) (newValueLoop E s vs nv nh)"
  by (induction vs arbitrary: nv nh) (auto simp: Let_def intro!: ends_bind [where P = "\<lambda>_. True"])

lemma ends_promoteVotes [simp]: "ends (\<lambda>_. True) (promoteVotes E vs (s, m))"
  by (induction vs arbitrary: s m) (auto simp: Let_def intro!: ends_bind [where P = "\<lambda>_. True"])

lemma ends_promoteAccepted [simp]: "ends (\<lambda>_. True) (promoteAccepted E as (s, m))"
  by (induction as arbitrary: s m) (auto intro!: ends_bind [where P = "\<lambda>_. True"])

lemma ends_takeLeaderVote [simp]: "ends (\<lambda>_. True) (takeLeaderVote E st (s, m))"
  by (auto simp: takeLeaderVote_def getNewValueFromNomination_def intro!: ends_bind [where P = "\<lambda>_. True"])

lemma ends_nominationStep: "ends (\<lambda>_. True) (nominationStep E env s)"
  unfolding nominationStep_def nominationSane_def Let_def
  by (auto intro!: ends_bind [where P = "\<lambda>_. True"])

lemma keeps_level: "keeps_in E X s s' \<Longrightarrow> at_level l s \<Longrightarrow> at_level l s'"
  by (simp add: keeps_in_def slot_step_def at_level_def)

lemma ends_nominationDone:
  assumes inv: "full_inv E s" and lev: "at_level 0 s"
  shows "ends (\<lambda>_. True) (nominationDone E res n s)"
proof -
  let ?v = "combineCandidates E (mCandidates s)"
  let ?t = "emitEvent (EvUpdatedCandidateValue ?v) (s\<lparr>mLatestCompositeCandidate := ?v\<rparr>)"
  have k: "keeps E s ?t"
    using inv by (intro nom_change_keeps [OF inv])
      (auto simp: nom_change_def frozen_def nom_step_def emitEvent_def values_inv_def full_inv_def)
  have "ends (at_level2 0) (bumpState E (selfProcess E) ?v False ?t)"
    by (rule ends_abandonBallot_top(2) [OF full_slot_inv [OF keeps_inv [OF k]] keeps_level [OF k lev]])
  then show ?thesis
    by (auto simp: nominationDone_def newCandidatesStep_def Let_def
        intro!: ends_bind [where P = "\<lambda>_. True"] dest: ends_True)
qed

lemma weight_bound:
  assumes "finite W" "set (mVotes s) \<subseteq> W" "set (mAccepted s) \<subseteq> W"
  shows "nom_weight s \<le> 2 * card W"
  using card_mono [OF assms(1,2)] card_mono [OF assms(1,3)] by (simp add: nom_weight_def)

definition inside :: "Value set \<Rightarrow> SCPEnvelope \<Rightarrow> slot \<Rightarrow> bool" where
  "inside W env s \<longleftrightarrow> isNomination (pledges (statement env)) \<and> set (applyAll (nomination_of env)) \<subseteq> W \<and>
     set (mVotes s) \<subseteq> W \<and> set (mAccepted s) \<subseteq> W"

lemma ends_processNomination:
  assumes W: "finite W" "votable E W \<subseteq> W"
  shows "full_inv E s \<Longrightarrow> at_level 0 s \<Longrightarrow> inside W env s \<Longrightarrow>
    \<exists>y. processNomination E env s = Some y \<and> ends (\<lambda>_. True) y"
proof (induction "2 * card W - nom_weight s" arbitrary: env s rule: less_induct)
  case less
  have nom: "isNomination (pledges (statement env))" using less.prems by (simp add: inside_def)
  show ?case
  proof (cases "nominationStep E env s")
    case (Inl e)
    then show ?thesis using ends_nominationStep [of E env s] by (subst processNomination.simps) simp
  next
    case (Inr r)
    obtain t res m n where r: "r = (t, res, m, n)" by (cases r) auto
    note sp = nominationStep_spec [OF Inr [unfolded r] less.prems(1) nom]
    have k: "keeps_in E {statement env} s t" and ft: "full_inv E t" using sp by auto
    have lt: "at_level 0 t" by (rule keeps_level [OF k less.prems(2)])
    show ?thesis
    proof (cases m)
      case False
      then show ?thesis
        using Inr r ends_nominationDone [OF ft lt] by (subst processNomination.simps) simp
    next
      case True
      let ?e = "nominationEnvelope E t"
      have "votable E (set (applyAll (nomination_of env))) \<subseteq> W"
        using less.prems(3) W(2) by (fastforce simp: inside_def votable_def)
      then have ins: "inside W ?e t" using sp less.prems(3) by (auto simp: inside_def grows_def)
      then have "2 * card W - nom_weight t < 2 * card W - nom_weight s"
        using weight_bound [OF W(1), of t] sp True by (auto simp: inside_def)
      from less.hyps [OF this ft lt ins] obtain y
        where y: "processNomination E ?e t = Some y" "ends (\<lambda>_. True) y" by blast
      have "ends (\<lambda>_. True) (bindE (bindE y (nominationEmitted ?e)) (nominationDone E res n))"
      proof (rule ends_bind [where P = "\<lambda>w. full_inv E w \<and> at_level 0 w"])
        show "ends (\<lambda>w. full_inv E w \<and> at_level 0 w) (bindE y (nominationEmitted ?e))"
        proof (rule ends_bind [OF y(2)])
          fix a assume a: "y = Inr a"
          then have ku: "keeps_in E {statement ?e} t (fst a)"
            using keeps_processNomination [OF y(1) ft, of "fst a" "snd a"] by simp
          have "keeps E (fst a) w" if "nominationEmitted ?e a = Inr w" for w
            using keeps_nominationEmitted [OF keeps_inv [OF ku], of ?e "snd a" w] that by simp
          then have "full_inv E w \<and> at_level 0 w" if "nominationEmitted ?e a = Inr w" for w
            using that keeps_level lt ku by blast
          then show "ends (\<lambda>w. full_inv E w \<and> at_level 0 w) (nominationEmitted ?e a)"
            by (auto simp: ends_def nominationEmitted_def Let_def split: prod.splits)
        qed
      qed (use ends_nominationDone in auto)
      then show ?thesis using Inr r True y(1) by (subst processNomination.simps) simp
    qed
  qed
qed

definition extract_ok :: "slot_env \<Rightarrow> bool" where
  "extract_ok E \<longleftrightarrow> (\<forall>v. extractValidValue E v \<noteq> [] \<longrightarrow>
     validateValue E (extractValidValue E v) = kFullyValidatedValue)"

lemma votable_idem: "extract_ok E \<Longrightarrow> votable E (votable E V) \<subseteq> votable E V"
  by (fastforce simp: votable_def extract_ok_def)

lemma processNomination_returns:
  assumes "extract_ok E" "full_inv E s" "at_level 0 s" "isNomination (pledges (statement env))"
  shows "\<exists>y. processNomination E env s = Some y \<and> ends (\<lambda>_. True) y"
proof (rule ends_processNomination [OF _ votable_idem [OF assms(1)] assms(2,3)])
  let ?V = "set (applyAll (nomination_of env)) \<union> set (mVotes s) \<union> set (mAccepted s)"
  show "inside (votable E ?V) env s" using assms(4) by (auto simp: inside_def votable_def)
  have "votable E ?V \<subseteq> ?V \<union> extractValidValue E ` ?V" by (auto simp: votable_def)
  then show "finite (votable E ?V)" by (rule finite_subset) simp
qed

lemma ends_bigDivideU64 [simp]: "ends (\<lambda>_. True) (bigDivideU64 a b c r)"
  by (simp add: bigDivideU64_def Let_def assertE_def bindE_def ends_def)

lemma ends_getNodeWeight [simp]:
  "ends (\<lambda>_. True) (getNodeWeight nid q)" "ends (\<lambda>_. True) (innerWeight nid n d qs)"
  by (induction nid q and nid n d qs rule: getNodeWeight_innerWeight.induct)
    (auto simp: Let_def intro!: ends_bind [where P = "\<lambda>_. True"])

lemma ends_leadersLoop [simp]: "ends (\<lambda>_. True) (leadersLoop E s ns p l)"
  by (induction ns arbitrary: p l)
    (auto simp: getNodePriority_def Let_def intro!: ends_bind [where P = "\<lambda>_. True"])

lemma ends_leaderValues [simp]: "ends (\<lambda>_. True) (leaderValues E ls r)"
  by (induction E ls r rule: leaderValues.induct)
    (auto simp: getNewValueFromNomination_def intro!: ends_bind [where P = "\<lambda>_. True"] split: option.splits)

lemma ends_nominateStep: "ends (\<lambda>_. True) (nominateStep E v pv s)"
  unfolding nominateStep_def updateRoundLeaders_def Let_def
  by (auto intro!: ends_bind [where P = "\<lambda>_. True"])

lemma nominate_returns:
  assumes "extract_ok E" "full_inv E s" "at_level 0 s"
  shows "\<exists>y. nominate E v pv timedout s = Some y \<and> ends (\<lambda>_. True) y"
proof (cases "nominateStep E v pv s")
  case (Inl e)
  then show ?thesis using ends_nominateStep [of E v pv s] by (simp add: nominate_def)
next
  case (Inr r)
  obtain t u where r: "r = (t, u)" by (cases r)
  have k: "keeps E s t" by (rule keeps_nominateStep [OF assms(2) Inr [unfolded r]])
  obtain y where y: "processNomination E (nominationEnvelope E t) t = Some y" "ends (\<lambda>_. True) y"
    using processNomination_returns [OF assms(1) keeps_inv [OF k] keeps_level [OF k assms(3)] nominationEnvelope_simps(1)]
    by blast
  have "ends (\<lambda>_. True) (bindE (bindE y (nominationEmitted (nominationEnvelope E t))) (\<lambda>s. Inr (s, u)))"
    by (rule ends_bind [where P = "\<lambda>_. True"], rule ends_bind [OF y(2)])
      (auto simp: nominationEmitted_def Let_def)
  then show ?thesis using Inr r y(1) by (auto simp: nominate_def emitNomination_def)
qed

lemma slotProcessEnvelope_returns:
  assumes "extract_ok E" "full_inv E s" "at_level 0 s" "own_ok E (statement env) s"
  shows "\<exists>y. slotProcessEnvelope E self env s = Some y \<and> ends (\<lambda>_. True) y"
proof (cases "pledges (statement env)")
  case (NOMINATE nom)
  then show ?thesis
    using processNomination_returns [OF assms(1-3), of env] by (simp add: slotProcessEnvelope_def)
qed (use ends_True [OF ends_ballotProcessEnvelope [OF full_slot_inv [OF assms(2)] assms(4,3), of self]]
    in \<open>simp_all add: slotProcessEnvelope_def\<close>)

lemma run_level: "slot_run E (newSlot E) s \<Longrightarrow> env_ok E \<Longrightarrow> full_inv E s \<and> at_level 0 s"
proof -
  assume r: "slot_run E (newSlot E) s" and "env_ok E"
  then have k: "keeps_in E UNIV (newSlot E) s" by (intro keeps_slot_run newSlot_full)
  moreover have "at_level 0 (newSlot E)" by (simp add: at_level_def newSlot_def)
  ultimately show ?thesis using keeps_level keeps_inv by blast
qed

end
