(* ===== verification/Example_Network.thy ===== *)
theory Example_Network
  imports Slot_Operations Ballot_Invariants
begin

text \<open>
  A network of two validators that trust each other, with a driver that accepts every value. Both
  propose the value \<open>[1]\<close> and then exchange their last envelopes in turn until they externalize
  it. The states on the way are the concrete inputs at which the properties of the slots are
  evaluated.
\<close>

definition pairQSet :: SCPQuorumSet where
  "pairQSet = QSet 2 [1, 2] []"

definition pairEnv :: "NodeID \<Rightarrow> slot_env" where
  "pairEnv n =
     \<lparr>localNode = \<lparr>mNodeID = n, mIsValidator = True, mQSet = pairQSet, mQSetHash = 7,
        mSingleQSet = buildSingletonQSet n, gSingleQSetHash = 8\<rparr>,
      mSlotIndex = 1, getQSet = (\<lambda>h. if h = 7 then Some pairQSet else None),
      validateValue = (\<lambda>v. kFullyValidatedValue), extractValidValue = (\<lambda>v. []),
      combineCandidates = (\<lambda>vs. hd vs), computeHashNode = (\<lambda>p b r n. if b then 5 else 0),
      computeValueHash = (\<lambda>p r v. 3), signEnvelope = (\<lambda>st. [])\<rparr>"

text \<open>The state after \<open>bumpState\<close> with the value.\<close>

definition proposed :: "NodeID \<Rightarrow> slot" where
  "proposed n =
     (case slotBumpState (pairEnv n) [1] True (newSlot (pairEnv n)) of
        Inr (s, b) \<Rightarrow> s | Inl e \<Rightarrow> newSlot (pairEnv n))"

text \<open>The node receives the last envelope that the other one emitted.\<close>

definition deliver :: "NodeID \<Rightarrow> slot \<Rightarrow> slot \<Rightarrow> slot" where
  "deliver n from s =
     (case mLastEnvelopeEmit from of
        None \<Rightarrow> s
      | Some e \<Rightarrow>
          if nodeID (statement e) \<noteq> n \<and> ballotPledges (pledges (statement e)) \<and>
             slotIndex (statement e) = 1 \<and> statement e \<in> set (map fst (mStatementsHistory from))
          then (case ballotProcessEnvelope (pairEnv n) False e s of Inr (s', r) \<Rightarrow> s' | Inl _ \<Rightarrow> s)
          else s)"

fun exchange :: "nat \<Rightarrow> slot \<times> slot" where
  "exchange 0 = (proposed 1, proposed 2)"
| "exchange (Suc k) =
     (case exchange k of (s, t) \<Rightarrow> if even k then (deliver 1 t s, t) else (s, deliver 2 s t))"

lemma slotBumpState_proposed:
  "\<exists>b. slotBumpState (pairEnv 1) [1] True (newSlot (pairEnv 1)) = Inr (proposed 1, b)"
  "\<exists>b. slotBumpState (pairEnv 2) [1] True (newSlot (pairEnv 2)) = Inr (proposed 2, b)"
proof -
  have "\<not> isl (slotBumpState (pairEnv 1) [1] True (newSlot (pairEnv 1)))" by code_simp
  then show "\<exists>b. slotBumpState (pairEnv 1) [1] True (newSlot (pairEnv 1)) = Inr (proposed 1, b)"
    by (cases "slotBumpState (pairEnv 1) [1] True (newSlot (pairEnv 1))") (auto simp: proposed_def)
  have "\<not> isl (slotBumpState (pairEnv 2) [1] True (newSlot (pairEnv 2)))" by code_simp
  then show "\<exists>b. slotBumpState (pairEnv 2) [1] True (newSlot (pairEnv 2)) = Inr (proposed 2, b)"
    by (cases "slotBumpState (pairEnv 2) [1] True (newSlot (pairEnv 2))") (auto simp: proposed_def)
qed

lemma exchange_externalizes:
  "(case exchange 5 of (s, t) \<Rightarrow> (externalizedValues (events s), externalizedValues (events t))) = ([[1]], [[1]])"
  by code_simp

end
