(* ===== verification/SCP_Agreement.thy ===== *)
theory SCP_Agreement
  imports Slot_Invariants Example_Network
begin

text \<open>
  A network of nodes that run one slot. The nodes of \<open>H\<close> run the code of the repository, each in
  its own environment \<open>E n\<close>; the others are arbitrary: any envelope may arrive under their names.
  A step of the network is a call on the slot of one node of \<open>H\<close>. A statement that carries the
  name of a node of \<open>H\<close> arrives only after that node recorded it (envelopes are signed), and
  may arrive any number of times, in any order, or never.

  The result is agreement: if two quorums of the network always share a node of \<open>H\<close>, no two
  nodes of \<open>H\<close> externalize different values.
\<close>

section \<open>The network\<close>

inductive net_step ::
  "(NodeID \<Rightarrow> slot_env) \<Rightarrow> NodeID set \<Rightarrow> (NodeID \<Rightarrow> slot) \<Rightarrow> (NodeID \<Rightarrow> slot) \<Rightarrow> bool" for E H where
  "n \<in> H \<Longrightarrow> slot_op (E n) m (net n) s' \<Longrightarrow>
     (\<And>st. st \<in> received m \<Longrightarrow> nodeID st \<in> H \<Longrightarrow> st \<in> historyOf (net (nodeID st))) \<Longrightarrow>
     net_step E H net (net(n := s'))"

inductive net_run :: "(NodeID \<Rightarrow> slot_env) \<Rightarrow> NodeID set \<Rightarrow> (NodeID \<Rightarrow> slot) \<Rightarrow> bool" for E H where
  start: "net_run E H (\<lambda>n. newSlot (E n))"
| step: "net_run E H net \<Longrightarrow> net_step E H net net' \<Longrightarrow> net_run E H net'"

text \<open>
  Every node of \<open>H\<close> has its own name, quorum sets of a size the counters hold, and finds the
  quorum set of every other node of \<open>H\<close> under its hash.
\<close>

definition net_ok :: "(NodeID \<Rightarrow> slot_env) \<Rightarrow> NodeID set \<Rightarrow> bool" where
  "net_ok E H \<longleftrightarrow> (\<forall>n \<in> H. env_ok (E n) \<and> selfID (E n) = n \<and>
     (\<forall>m \<in> H. getQSet (E n) (mQSetHash (localNode (E m))) = Some (selfQSet (E m))))"

text \<open>A set of nodes that contains a slice of a node of \<open>H\<close> and of each of its members in \<open>H\<close>.\<close>

definition net_quorum :: "(NodeID \<Rightarrow> slot_env) \<Rightarrow> NodeID set \<Rightarrow> NodeID set \<Rightarrow> bool" where
  "net_quorum E H U \<longleftrightarrow> (\<exists>n \<in> H. sat (selfQSet (E n)) U) \<and> (\<forall>n \<in> U \<inter> H. sat (selfQSet (E n)) U)"

definition quorums_intersect :: "(NodeID \<Rightarrow> slot_env) \<Rightarrow> NodeID set \<Rightarrow> bool" where
  "quorums_intersect E H \<longleftrightarrow>
     (\<forall>U V. net_quorum E H U \<longrightarrow> net_quorum E H V \<longrightarrow> U \<inter> V \<inter> H \<noteq> {})"

section \<open>Invariants of the network\<close>

definition net_inv :: "(NodeID \<Rightarrow> slot_env) \<Rightarrow> NodeID set \<Rightarrow> (NodeID \<Rightarrow> slot) \<Rightarrow> bool" where
  "net_inv E H net \<longleftrightarrow> (\<forall>n \<in> H. keeps_in (E n) UNIV (newSlot (E n)) (net n) \<and>
     (\<forall>st \<in> historyOf (net n). nodeID st \<in> H \<longrightarrow> st \<in> historyOf (net (nodeID st))))"

lemma net_inv_start:
  assumes "net_ok E H"
  shows "net_inv E H (\<lambda>n. newSlot (E n))"
  using assms newSlot_full by (auto simp: net_inv_def net_ok_def historyOf_def newSlot_def)

lemma net_inv_step:
  assumes ok: "net_ok E H" and inv: "net_inv E H net" and st: "net_step E H net net'"
  shows "net_inv E H net'"
  using st
proof cases
  case (1 n m s')
  have k: "keeps_in (E n) UNIV (newSlot (E n)) (net n)" using inv 1 by (auto simp: net_inv_def)
  have k': "keeps_in (E n) (received m) (net n) s'" by (rule keeps_slot_op [OF 1(3) keeps_inv [OF k]])
  have all: "keeps_in (E n) UNIV (newSlot (E n)) s'"
    by (rule keeps_trans [OF k keeps_mono [OF k']]) simp
  have grow: "historyOf (net n) \<subseteq> historyOf s'"
    using k' by (auto simp: keeps_in_def slot_step_def dest: historyOf_mono)
  have new: "st \<in> historyOf (net n) \<or> st \<in> received m \<or> nodeID st = n" if "st \<in> historyOf s'" for st
    using k' that ok 1(2) by (auto simp: keeps_in_def net_ok_def)
  have hist: "st \<in> historyOf (net' (nodeID st))"
    if "k \<in> H" "st \<in> historyOf (net' k)" "nodeID st \<in> H" for k st
  proof -
    have "st \<in> historyOf (net (nodeID st)) \<or> nodeID st = n \<and> st \<in> historyOf s'"
      using inv new [of st] that 1 by (cases "k = n") (auto simp: net_inv_def)
    then show ?thesis using grow 1(1) by auto
  qed
  show ?thesis using inv all hist 1(1) by (auto simp: net_inv_def)
qed

lemma net_inv_run: "net_run E H net \<Longrightarrow> net_ok E H \<Longrightarrow> net_inv E H net"
  by (induction rule: net_run.induct) (auto intro: net_inv_start net_inv_step)

section \<open>Agreement\<close>

definition externalizers :: "(NodeID \<Rightarrow> slot) \<Rightarrow> NodeID set \<Rightarrow> Value \<Rightarrow> NodeID set" where
  "externalizers net H v = {n \<in> H. mPhase (net n) = SCP_PHASE_EXTERNALIZE \<and> valueOf (mCommit (net n)) = Some v}"

lemma member_committed:
  assumes ok: "net_ok E H" and inv: "net_inv E H net" and n: "n \<in> H" and st: "st \<in> historyOf (net n)"
    and v: "commitValue (pledges st) = Some v" and m: "nodeID st \<in> H"
    and q: "getQuorumSetFromStatement (E n) st = Some q"
  shows "valueOf (mCommit (net (nodeID st))) = Some v"
    and "q = selfQSet (E (nodeID st)) \<or> nodeID st \<in> externalizers net H v"
proof -
  let ?m = "nodeID st"
  have "st \<in> historyOf (net ?m)" using inv n st m by (auto simp: net_inv_def)
  moreover have "slot_inv (E ?m) (net ?m)" using inv m by (auto simp: net_inv_def dest: full_slot_inv)
  ultimately have own: "own_ok (E ?m) st (net ?m)" by (simp add: slot_inv_def own_inv_def)
  have self: "selfID (E ?m) = ?m" and qm: "getQSet (E n) (mQSetHash (localNode (E ?m))) = Some (selfQSet (E ?m))"
    using ok n m by (auto simp: net_ok_def)
  show val: "valueOf (mCommit (net ?m)) = Some v" using own self v by (simp add: own_ok_def)
  show "q = selfQSet (E ?m) \<or> ?m \<in> externalizers net H v"
    using own self q qm v val m
    by (cases "pledges st") (auto simp: own_ok_def getQuorumSetFromStatement_def externalizers_def)
qed

lemma externalize_evidence:
  assumes "net_inv E H net" "n \<in> externalizers net H v"
  shows "evidence (E n) (historyOf (net n)) v"
proof -
  have "slot_inv (E n) (net n)" using assms by (auto simp: net_inv_def externalizers_def dest: full_slot_inv)
  then show ?thesis using assms(2) by (auto simp: slot_inv_def evidence_inv_def externalizers_def valueOf_def)
qed

text \<open>The nodes that show the commit to the nodes that externalized a value are a quorum.\<close>

lemma externalize_quorum:
  assumes ok: "net_ok E H" and inv: "net_inv E H net" and n0: "n\<^sub>0 \<in> externalizers net H v"
  shows "\<exists>U. net_quorum E H U \<and> (\<forall>m \<in> U \<inter> H. valueOf (mCommit (net m)) = Some v)"
proof -
  have "\<forall>n \<in> externalizers net H v. \<exists>U. sat (selfQSet (E n)) U \<and> (\<forall>m \<in> U. \<exists>st \<in> historyOf (net n). nodeID st = m \<and>
      commitValue (pledges st) = Some v \<and> (\<exists>q. getQuorumSetFromStatement (E n) st = Some q \<and> sat q U))"
    using externalize_evidence [OF inv] by (simp add: evidence_def)
  then obtain Q where Q: "\<And>n. n \<in> externalizers net H v \<Longrightarrow> sat (selfQSet (E n)) (Q n)"
    and mem: "\<And>n m. n \<in> externalizers net H v \<Longrightarrow> m \<in> Q n \<Longrightarrow> \<exists>st \<in> historyOf (net n). nodeID st = m \<and>
      commitValue (pledges st) = Some v \<and> (\<exists>q. getQuorumSetFromStatement (E n) st = Some q \<and> sat q (Q n))"
    by metis
  let ?U = "\<Union>n \<in> externalizers net H v. Q n"
  have up: "sat q ?U" if "n \<in> externalizers net H v" "sat q (Q n)" for n q
    using that by (auto intro: sat_mono)
  have "sat (selfQSet (E m)) ?U \<and> valueOf (mCommit (net m)) = Some v" if mU: "m \<in> ?U" and mH': "m \<in> H" for m
  proof -
    obtain n st q where n: "n \<in> externalizers net H v" and st: "st \<in> historyOf (net n)" "nodeID st = m"
      "commitValue (pledges st) = Some v" "getQuorumSetFromStatement (E n) st = Some q" "sat q (Q n)"
      using mU mem by blast
    have nH: "n \<in> H" using n by (simp add: externalizers_def)
    have mH: "nodeID st \<in> H" using st(2) mH' by simp
    note c = member_committed [OF ok inv nH st(1) st(3) mH st(4)]
    show ?thesis using c st(2,5) up [OF n] up [of m] Q [of m] by auto
  qed
  moreover have "\<exists>n \<in> H. sat (selfQSet (E n)) ?U"
    using n0 Q [OF n0] up [OF n0] by (auto simp: externalizers_def)
  ultimately show ?thesis by (intro exI [of _ ?U]) (auto simp: net_quorum_def)
qed

lemma externalized_iff:
  assumes "net_inv E H net" "n \<in> H" "v \<in> set (externalizedValues (events (net n)))"
  shows "n \<in> externalizers net H v"
proof -
  have k: "keeps_in (E n) UNIV (newSlot (E n)) (net n)" using assms by (auto simp: net_inv_def)
  have "phase_inv (net n)" using k by (auto simp: keeps_in_def full_inv_def slot_inv_def)
  then show ?thesis
    using k assms(2,3) by (auto simp: keeps_in_def slot_step_def external_step_def newSlot_def externalizers_def
        phase_inv_def valueOf_def split: if_splits)
qed

lemma agree:
  assumes ok: "net_ok E H" and inv: "net_inv E H net" and qi: "quorums_intersect E H"
    and n: "n \<in> externalizers net H v" "m \<in> externalizers net H w"
  shows "v = w"
proof -
  obtain U where U: "net_quorum E H U" "\<And>k. k \<in> U \<inter> H \<Longrightarrow> valueOf (mCommit (net k)) = Some v"
    using externalize_quorum [OF ok inv n(1)] by blast
  obtain V where V: "net_quorum E H V" "\<And>k. k \<in> V \<inter> H \<Longrightarrow> valueOf (mCommit (net k)) = Some w"
    using externalize_quorum [OF ok inv n(2)] by blast
  obtain k where "k \<in> U \<inter> V \<inter> H" using qi U(1) V(1) unfolding quorums_intersect_def by blast
  then have "Some v = Some w" using U(2) [of k] V(2) [of k] by auto
  then show ?thesis by simp
qed

text \<open>
  C1. Agreement. In a network whose quorums pairwise share a node that runs this code, two such
  nodes never externalize different values, whatever the other nodes send and whatever order the
  envelopes arrive in.
\<close>
theorem scp_agreement:
  assumes "net_run E H net" "net_ok E H" "quorums_intersect E H" "n \<in> H" "m \<in> H"
    and "v \<in> set (externalizedValues (events (net n)))" "w \<in> set (externalizedValues (events (net m)))"
  shows "v = w"
proof -
  have inv: "net_inv E H net" using net_inv_run assms(1,2) by blast
  show ?thesis by (rule agree [OF assms(2) inv assms(3)])
      (use externalized_iff [OF inv] assms(4-7) in blast)+
qed

text \<open>The two validators of the example are such a network.\<close>

definition pairNet :: "slot \<times> slot \<Rightarrow> NodeID \<Rightarrow> slot" where
  "pairNet p n = (if n = 1 then fst p else if n = 2 then snd p else newSlot (pairEnv n))"

lemma pairNet_upd:
  "(pairNet (s, t))(1 := s') = pairNet (s', t)" "(pairNet (s, t))(2 := t') = pairNet (s, t')"
  "pairNet (s, t) 1 = s" "pairNet (s, t) 2 = t" "(\<lambda>n. newSlot (pairEnv n)) = pairNet (newSlot (pairEnv 1), newSlot (pairEnv 2))"
  by (auto simp: pairNet_def fun_eq_iff)

lemma deliver_cases:
  obtains "deliver n from s = s"
  | e r where "slotProcessEnvelope (pairEnv n) False e s = Some (Inr (deliver n from s, r))"
      "nodeID (statement e) \<noteq> n" "statement e \<in> historyOf from"
proof (cases "deliver n from s = s")
  case False
  then obtain e r where e: "nodeID (statement e) \<noteq> n" "ballotPledges (pledges (statement e))"
    "slotIndex (statement e) = 1" "statement e \<in> historyOf from"
    "ballotProcessEnvelope (pairEnv n) False e s = Inr (deliver n from s, r)"
    unfolding deliver_def historyOf_def by (auto split: option.splits if_splits sum.splits)
  then have "slotProcessEnvelope (pairEnv n) False e s = Some (Inr (deliver n from s, r))"
    by (cases "pledges (statement e)") (auto simp: slotProcessEnvelope_def pairEnv_def)
  then show ?thesis using e that by blast
qed (use that in blast)

lemma pairEnv_self [simp]: "selfID (pairEnv n) = n"
  by (simp add: pairEnv_def)

lemma net_op:
  assumes "net_run E H net" "n \<in> H" "slot_op (E n) m (net n) s'"
    "\<And>st. st \<in> received m \<Longrightarrow> nodeID st \<in> H \<Longrightarrow> st \<in> historyOf (net (nodeID st))"
  shows "net_run E H (net(n := s'))"
  using net_run.step [OF assms(1) net_step.intros [where net = net and E = E and n = n, OF assms(2-4)]] .

lemma pair_ok: "net_ok pairEnv {1, 2}"
  by (auto simp: net_ok_def env_ok_def pairEnv_def pairQSet_def)

lemma deliver_step:
  assumes run: "net_run pairEnv {1, 2} net" and n: "n \<in> {1, 2}" and k: "k \<in> {1, 2}"
  shows "net_run pairEnv {1, 2} (net(n := deliver n (net k) (net n)))"
proof (cases rule: deliver_cases [of n "net k" "net n"])
  case 1
  then show ?thesis using run by simp
next
  case (2 e r)
  have op: "slot_op (pairEnv n) (Some e) (net n) (deliver n (net k) (net n))"
    by (rule slot_op.receive [OF 2(1)]) (use 2(2) in simp)
  show ?thesis by (rule net_op [OF run n op]) (use 2(3) k net_inv_run [OF run pair_ok] in \<open>auto simp: received_def net_inv_def\<close>)
qed

lemma pairNet_run: "net_run pairEnv {1, 2} (pairNet (exchange k))"
proof (induction k)
  case 0
  have 1: "net_run pairEnv {1, 2} (pairNet (newSlot (pairEnv 1), newSlot (pairEnv 2)))"
    using net_run.start [of pairEnv "{1, 2}"] by (simp only: pairNet_upd)
  obtain b c where b: "slot_op (pairEnv 1) None (newSlot (pairEnv 1)) (proposed 1)"
    and c: "slot_op (pairEnv 2) None (newSlot (pairEnv 2)) (proposed 2)"
    using slotBumpState_proposed slot_op.bump by blast
  have "net_run pairEnv {1, 2} (pairNet (proposed 1, newSlot (pairEnv 2)))"
    using net_op [OF 1, of 1 None "proposed 1"] b by (simp add: pairNet_upd received_def)
  from net_op [OF this, of 2 None "proposed 2"] c show ?case by (simp add: pairNet_upd received_def)
next
  case (Suc k)
  obtain s t where p: "exchange k = (s, t)" by (cases "exchange k")
  have run: "net_run pairEnv {1, 2} (pairNet (s, t))" using Suc.IH p by simp
  have "net_run pairEnv {1, 2} (pairNet (deliver 1 t s, t))" "net_run pairEnv {1, 2} (pairNet (s, deliver 2 s t))"
    using deliver_step [OF run, of 1 2] deliver_step [OF run, of 2 1] by (simp_all add: pairNet_upd)
  then show ?case using p by simp
qed

lemma pair_intersect: "quorums_intersect pairEnv {1, 2}"
proof -
  have "{1, 2} \<subseteq> U" if "net_quorum pairEnv {1, 2} U" for U
    using that by (auto simp: net_quorum_def pairEnv_def pairQSet_def split: if_splits)
  then show ?thesis unfolding quorums_intersect_def by blast
qed

theorem scp_agreement_witness:
  "net_run pairEnv {1, 2} (pairNet (exchange 5)) \<and> net_ok pairEnv {1, 2} \<and> quorums_intersect pairEnv {1, 2} \<and>
   externalizedValues (events (pairNet (exchange 5) 1)) = [[1]] \<and>
   hd (externalizedValues (events (pairNet (exchange 5) 2))) = [1]"
proof -
  have ev: "externalizedValues (events (pairNet (exchange 5) 1)) = [[1]]"
    "externalizedValues (events (pairNet (exchange 5) 2)) = [[1]]"
    using exchange_externalizes by (auto simp: pairNet_def split: prod.splits)
  have "[1] = hd (externalizedValues (events (pairNet (exchange 5) 2)))"
    by (rule scp_agreement [OF pairNet_run pair_ok pair_intersect, of 1 2 _ 5]) (simp_all add: ev)
  then show ?thesis using pairNet_run pair_ok pair_intersect ev(1) by simp
qed

end
