(* ===== verification/SCP_Properties.thy ===== *)
theory SCP_Properties
  imports SCP_Agreement
begin

text \<open>
  The properties of the consensus protocol on one node: what a sequence of calls on a slot
  guarantees, that every call returns, what the ballot protocol computes, and the behaviours at
  the boundaries of its counters.
\<close>

section \<open>Runs of a slot\<close>

lemma run_keeps: "slot_run E (newSlot E) s \<Longrightarrow> env_ok E \<Longrightarrow> keeps_in E UNIV (newSlot E) s"
  by (intro keeps_slot_run newSlot_full)

lemma run_full: "slot_run E (newSlot E) s \<Longrightarrow> env_ok E \<Longrightarrow> full_inv E s"
  using run_keeps keeps_inv by blast

text \<open>The slots of the example network are runs.\<close>

lemma net_slot_run: "net_run E H net \<Longrightarrow> slot_run (E n) (newSlot (E n)) (net n)"
proof (induction rule: net_run.induct)
  case (step net net')
  from step.hyps(2) show ?case
    by cases (use step.IH in \<open>auto intro: slot_run.op\<close>)
qed (simp add: slot_run.start)

lemma pair_run: "slot_run (pairEnv 1) (newSlot (pairEnv 1)) (fst (exchange k))"
  using net_slot_run [OF pairNet_run, of 1 k] by (simp add: pairNet_def)

lemma pair_env: "env_ok (pairEnv 1)"
  using pair_ok by (simp add: net_ok_def)

lemma proposed_run: "slot_run (pairEnv 1) (newSlot (pairEnv 1)) (proposed 1)"
  using pair_run [of 0] by simp

text \<open>
  C2. A slot externalizes at most one value, once, exactly when it enters the last phase, and only
  the value it has committed to, with recorded statements in which a quorum of the node commits
  to that value.
\<close>
theorem externalize_once:
  assumes "slot_run E (newSlot E) s" "env_ok E"
  shows "externalizedValues (events s) =
      (if mPhase s = SCP_PHASE_EXTERNALIZE then [bvalue (the (mCommit s))] else []) \<and>
    (mPhase s = SCP_PHASE_EXTERNALIZE \<longrightarrow> evidence E (historyOf s) (bvalue (the (mCommit s))))"
  using run_keeps [OF assms]
  by (auto simp: keeps_in_def full_inv_def slot_inv_def slot_step_def external_step_def newSlot_def
      evidence_inv_def phase_inv_def)

lemma exchange_phase: "mPhase (fst (exchange 5)) = SCP_PHASE_EXTERNALIZE"
proof -
  have "externalizedValues (events (fst (exchange 5))) = [[1]]"
    using exchange_externalizes by (auto split: prod.splits)
  then show ?thesis
    using run_keeps [OF pair_run [of 5] pair_env]
    by (auto simp: keeps_in_def slot_step_def external_step_def newSlot_def split: if_splits)
qed

theorem externalize_once_witness:
  "slot_run (pairEnv 1) (newSlot (pairEnv 1)) (fst (exchange 5)) \<and> env_ok (pairEnv 1) \<and>
   externalizedValues (events (fst (exchange 5))) = [bvalue (the (mCommit (fst (exchange 5))))] \<and>
   evidence (pairEnv 1) (historyOf (fst (exchange 5))) (bvalue (the (mCommit (fst (exchange 5)))))"
  using externalize_once [OF pair_run [of 5] pair_env] pair_run [of 5] pair_env exchange_phase by simp

text \<open>
  C4. Every call moves a slot forward only: the phase never goes back; a value accepted for commit
  is never replaced; the prepared ballot never goes down, nor do the current and the high ballot
  within a phase; an externalized slot keeps its ballots; a node's statement is replaced by a newer one
  only; the sets of the nomination only grow.
\<close>
theorem slot_progress:
  assumes "slot_run E (newSlot E) s" "env_ok E" "slot_op E m s s'"
  shows "phaseRank (mPhase s) \<le> phaseRank (mPhase s') \<and>
    (mPhase s \<noteq> SCP_PHASE_PREPARE \<longrightarrow> valueOf (mCommit s') = valueOf (mCommit s)) \<and>
    mPrepared s \<le> mPrepared s' \<and>
    (mPhase s' = mPhase s \<longrightarrow> mCurrentBallot s \<le> mCurrentBallot s' \<and> mHighBallot s \<le> mHighBallot s') \<and>
    (mPhase s = SCP_PHASE_EXTERNALIZE \<longrightarrow> frozen s s') \<and>
    latest_newer (mLatestEnvelopes s) (mLatestEnvelopes s') \<and>
    set (mVotes s) \<subseteq> set (mVotes s') \<and> set (mAccepted s) \<subseteq> set (mAccepted s') \<and>
    set (mCandidates s) \<subseteq> set (mCandidates s')"
  using keeps_slot_op [OF assms(3) run_full [OF assms(1,2)]]
  by (simp add: keeps_in_def slot_step_def phase_step_def nom_step_def)

theorem slot_progress_witness:
  "slot_op (pairEnv 1) None (newSlot (pairEnv 1)) (proposed 1) \<and> mPrepared (newSlot (pairEnv 1)) \<le> mPrepared (proposed 1) \<and>
   phaseRank (mPhase (newSlot (pairEnv 1))) \<le> phaseRank (mPhase (proposed 1))"
proof -
  have op: "slot_op (pairEnv 1) None (newSlot (pairEnv 1)) (proposed 1)"
    using slotBumpState_proposed(1) slot_op.bump by blast
  show ?thesis using slot_progress [OF slot_run.start pair_env op] op by simp
qed

text \<open>
  C3. Every call on a slot returns: no nomination recurses without end and no loop of the ballot
  protocol runs forever, provided that the driver extracts only values it validates.
\<close>
theorem slot_calls_return:
  assumes "slot_run E (newSlot E) s" "env_ok E" "extract_ok E"
    and "nodeID (statement env) = selfID E \<Longrightarrow> statement env \<in> historyOf s"
  shows "(\<exists>y. slotProcessEnvelope E self env s = Some y \<and> y \<noteq> Inl Diverges) \<and>
    (\<exists>y. nominate E v pv timedout s = Some y \<and> y \<noteq> Inl Diverges) \<and>
    slotAbandonBallot E s \<noteq> Inl Diverges \<and> slotBumpState E v force s \<noteq> Inl Diverges \<and>
    ballotProtocolTimerExpired E (selfProcess E) s \<noteq> Inl Diverges"
proof -
  have f: "full_inv E s" and l: "at_level 0 s" using run_level assms(1,2) by auto
  note si = full_slot_inv [OF f]
  have own: "own_ok E (statement env) s" by (rule own_recorded [OF si assms(4)])
  have "ballotProtocolTimerExpired E (selfProcess E) s \<noteq> Inl Diverges"
    using ends_abandonBallot_top(1) [OF si l, of 0]
    by (auto simp: ballotProtocolTimerExpired_def ends_def bindE_def startBallotProtocolTimer_def deref_def
        derefE_def split: sum.splits option.splits)
  then show ?thesis
    using slotProcessEnvelope_returns [OF assms(3) f l own, of self] nominate_returns [OF assms(3) f l, of v pv timedout]
      ends_abandonBallot_top [OF si l]
    by (auto simp: ends_def slotAbandonBallot_def slotBumpState_def)
qed

theorem slot_calls_return_witness:
  "nodeID (statement (exampleEnvelope 2 exampleExternalize)) \<noteq> selfID (pairEnv 1) \<and> extract_ok (pairEnv 1) \<and>
   (\<exists>y. slotProcessEnvelope (pairEnv 1) False (exampleEnvelope 2 exampleExternalize) (proposed 1) = Some y \<and>
      y \<noteq> Inl Diverges) \<and>
   (\<exists>y. nominate (pairEnv 1) [1] [] False (proposed 1) = Some y \<and> y \<noteq> Inl Diverges)"
proof -
  have x: "extract_ok (pairEnv 1)" by (simp add: extract_ok_def pairEnv_def)
  have e: "nodeID (statement (exampleEnvelope 2 exampleExternalize)) \<noteq> selfID (pairEnv 1)"
    by (simp add: exampleEnvelope_def)
  show ?thesis
    using slot_calls_return [OF proposed_run pair_env x, of "exampleEnvelope 2 exampleExternalize" False "[1]" "[]" False]
      x e by simp
qed

text \<open>
  C6. The envelopes of the ballot protocol that a node emits carry its own name, were recorded by
  it, and each is newer than all the ones emitted before.
\<close>
theorem emits_increase:
  assumes "slot_run E (newSlot E) s" "env_ok E"
  shows "sorted_wrt (\<lambda>a b. isNewerStatement (statement a) (statement b)) (ballotEmits (events s)) \<and>
    distinct (ballotEmits (events s)) \<and>
    (\<forall>e \<in> set (ballotEmits (events s)). nodeID (statement e) = selfID E \<and> statement e \<in> historyOf s)"
proof -
  have e: "emit_inv E s" using run_full [OF assms] by (simp add: full_inv_def slot_inv_def)
  then have "sorted_wrt isNewerStatement (map statement (ballotEmits (events s)))"
    by (simp add: emit_inv_def sorted_wrt_map)
  then have "distinct (ballotEmits (events s))"
    using ballot_order.sorted_newer_distinct distinct_map by blast
  then show ?thesis using e by (simp add: emit_inv_def)
qed

theorem emits_increase_witness:
  "slot_run (pairEnv 1) (newSlot (pairEnv 1)) (fst (exchange 5)) \<and> env_ok (pairEnv 1) \<and>
   distinct (ballotEmits (events (fst (exchange 5))))"
  using emits_increase [OF pair_run [of 5] pair_env] pair_run [of 5] pair_env by simp

section \<open>Rejected envelopes\<close>

text \<open>
  C9. An envelope that a slot answers INVALID leaves the slot as it was, and a ballot statement that is not newer
  than the one recorded for its node is answered INVALID: envelopes may be
  repeated, delayed and reordered without an effect.
\<close>
theorem rejected_envelope_no_effect:
  assumes "slot_run E (newSlot E) s" "env_ok E" "slotProcessEnvelope E self env s = Some (Inr (s', r))"
  shows "(r = INVALID \<longrightarrow> s' = s) \<and>
    (ballotPledges (pledges (statement env)) \<and>
     (\<exists>e. map_of (mLatestEnvelopes s) (nodeID (statement env)) = Some e \<and>
        \<not> isNewerStatement (statement e) (statement env)) \<longrightarrow> r = INVALID \<and> s' = s)"
proof (cases "isNomination (pledges (statement env))")
  case True
  then have "processNomination E env s = Some (Inr (s', r))"
    using assms(3) by (auto simp: slotProcessEnvelope_def elim: isNominationE split: if_splits)
  from keeps_processNomination [OF this run_full [OF assms(1,2)] True refl] True
  show ?thesis by (auto elim: isNominationE)
next
  case False
  then have "ballotProcessEnvelope E self env s = Inr (s', r)"
    using assms(3) by (auto simp: slotProcessEnvelope_def split: if_splits SCPPledges.splits)
  then show ?thesis
    by (auto simp: ballotProcessEnvelope_def processBallotEnvelope_def bind_simps Let_def isNewerStatementFor_def
        split: if_splits)
qed

definition stalePrepare :: SCPEnvelope where
  "stalePrepare = exampleEnvelope 1 (PREPARE \<lparr>p_quorumSetHash = 7, p_ballot = SCPBallot 1 [1], p_prepared = None,
     p_preparedPrime = None, p_nC = 0, p_nH = 0\<rparr>)"

lemma stale_run:
  "(case slotProcessEnvelope (pairEnv 1) False stalePrepare (proposed 1) of Some (Inr (s, r)) \<Rightarrow> True | _ \<Rightarrow> False) \<and>
   (case map_of (mLatestEnvelopes (proposed 1)) 1 of
      Some e \<Rightarrow> \<not> isNewerStatement (statement e) (statement stalePrepare) | None \<Rightarrow> False)"
  unfolding slotProcessEnvelope_def by code_simp

theorem rejected_envelope_no_effect_witness:
  "slotProcessEnvelope (pairEnv 1) False stalePrepare (proposed 1) = Some (Inr (proposed 1, INVALID))"
proof -
  obtain s r where r: "slotProcessEnvelope (pairEnv 1) False stalePrepare (proposed 1) = Some (Inr (s, r))"
    using stale_run by (auto split: option.splits sum.splits)
  have "map_of (mLatestEnvelopes (proposed 1)) (nodeID (statement stalePrepare)) = map_of (mLatestEnvelopes (proposed 1)) 1"
    by (simp add: stalePrepare_def exampleEnvelope_def)
  moreover have "ballotPledges (pledges (statement stalePrepare))"
    by (simp add: stalePrepare_def exampleEnvelope_def)
  ultimately show ?thesis
    using rejected_envelope_no_effect [OF proposed_run pair_env r] r stale_run by (auto split: option.splits)
qed

section \<open>The order of the statements\<close>

text \<open>
  C20. \<open>isNewerStatement\<close> compares the statements by their kind, then by the ballot, the prepared
  ballots and the high counter, lexicographically: it is a strict order in which any two
  statements with different keys are comparable.
\<close>
theorem newer_statement_order:
  "(isNewerStatement a b \<longleftrightarrow> pledgesKey (pledges a) < pledgesKey (pledges b)) \<and>
   \<not> isNewerStatement a a \<and> \<not> (isNewerStatement a b \<and> isNewerStatement b a) \<and>
   (isNewerStatement a b \<or> isNewerStatement b a \<or> pledgesKey (pledges a) = pledgesKey (pledges b))"
  by (auto simp: isNewerStatement_key)

section \<open>The committed interval\<close>

lemma lowEnd_spec:
  assumes "sorted_wrt (>) (hi # bs)" "lo \<le> hi" "\<forall>b \<in> set bs. b < lo"
  shows "(lowEnd g hi lo bs = lo \<or> lowEnd g hi lo bs \<in> set bs) \<and>
    (\<forall>b \<in> set bs. lowEnd g hi lo bs \<le> b \<longrightarrow> g (b, hi)) \<and>
    (\<forall>b \<in> set bs. b < lowEnd g hi lo bs \<longrightarrow> (\<exists>b' \<in> set bs. b \<le> b' \<and> b' < lowEnd g hi lo bs \<and> \<not> g (b', hi)))"
  using assms
proof (induction bs arbitrary: lo)
  case (Cons b bs)
  show ?case
  proof (cases "g (b, hi)")
    case True
    have IH: "(lowEnd g hi b bs = b \<or> lowEnd g hi b bs \<in> set bs) \<and>
      (\<forall>b' \<in> set bs. lowEnd g hi b bs \<le> b' \<longrightarrow> g (b', hi)) \<and>
      (\<forall>c \<in> set bs. c < lowEnd g hi b bs \<longrightarrow> (\<exists>b' \<in> set bs. c \<le> b' \<and> b' < lowEnd g hi b bs \<and> \<not> g (b', hi)))"
      using Cons.prems by (intro Cons.IH) auto
    have "lowEnd g hi b bs \<le> b" using IH Cons.prems(1) by auto
    then show ?thesis using IH True by auto
  next
    case False
    then show ?thesis using Cons.prems by (auto simp: not_le)
  qed
qed simp

lemma extendedInterval_spec:
  assumes "sorted_wrt (>) bs" "\<exists>b \<in> set bs. g (b, b)"
  shows "\<exists>lo hi. extendedInterval g bs = (lo, hi) \<and> hi \<in> set bs \<and> g (hi, hi) \<and> (\<forall>b \<in> set bs. hi < b \<longrightarrow> \<not> g (b, b)) \<and>
    lo \<in> set bs \<and> lo \<le> hi \<and> (\<forall>b \<in> set bs. lo \<le> b \<and> b \<le> hi \<longrightarrow> g (b, hi)) \<and>
    (\<forall>b \<in> set bs. b < lo \<longrightarrow> (\<exists>b' \<in> set bs. b \<le> b' \<and> b' < lo \<and> \<not> g (b', hi)))"
  using assms
proof (induction bs)
  case (Cons b bs)
  show ?case
  proof (cases "g (b, b)")
    case True
    have lt: "\<forall>c \<in> set bs. c < b" using Cons.prems(1) by simp
    note l = lowEnd_spec [OF Cons.prems(1) order_refl lt, of g]
    have "lowEnd g b b bs \<le> b" using l lt by (auto intro: less_imp_le)
    then show ?thesis using True l lt by auto
  next
    case False
    then obtain lo hi where r: "extendedInterval g bs = (lo, hi)" "hi \<in> set bs" "g (hi, hi)"
        "\<forall>b \<in> set bs. hi < b \<longrightarrow> \<not> g (b, b)" "lo \<in> set bs" "lo \<le> hi"
        "\<forall>b \<in> set bs. lo \<le> b \<and> b \<le> hi \<longrightarrow> g (b, hi)"
        "\<forall>b \<in> set bs. b < lo \<longrightarrow> (\<exists>b' \<in> set bs. b \<le> b' \<and> b' < lo \<and> \<not> g (b', hi))"
      using Cons by auto
    have "hi < b" "lo < b" using Cons.prems(1) r by auto
    then show ?thesis using False r by auto
  qed
qed simp

lemma extendedInterval_none: "\<not> (\<exists>b \<in> set bs. g (b, b)) \<Longrightarrow> extendedInterval g bs = (0, 0)"
  by (induction bs) auto

text \<open>
  C17. \<open>findExtendedInterval\<close>, on distinct boundaries from the top: its high end is the highest
  boundary that is good alone, its low end the lowest boundary that can be reached from there through
  boundaries each of which is good as a low end, and it is empty when no boundary is good.
\<close>
theorem findExtendedInterval_correct:
  assumes "sorted_wrt (>) bs" "0 \<notin> set bs"
  shows "if \<exists>b \<in> set bs. g (b, b)
    then \<exists>lo hi. findExtendedInterval (0, 0) bs (\<lambda>i. Inr (g i)) = Inr (lo, hi) \<and>
      hi \<in> set bs \<and> g (hi, hi) \<and> (\<forall>b \<in> set bs. hi < b \<longrightarrow> \<not> g (b, b)) \<and>
      lo \<in> set bs \<and> lo \<le> hi \<and> (\<forall>b \<in> set bs. lo \<le> b \<and> b \<le> hi \<longrightarrow> g (b, hi)) \<and>
      (\<forall>b \<in> set bs. b < lo \<longrightarrow> (\<exists>b' \<in> set bs. b \<le> b' \<and> b' < lo \<and> \<not> g (b', hi)))
    else findExtendedInterval (0, 0) bs (\<lambda>i. Inr (g i)) = Inr (0, 0)"
  using extendedInterval_spec [OF assms(1), of g] extendedInterval_none [of bs g]
    findExtendedInterval_spec [OF assms, of g] by simp

theorem findExtendedInterval_correct_witness:
  "\<exists>lo hi. findExtendedInterval (0, 0) [5, 4, 2] (\<lambda>i. Inr (snd i \<le> 4)) = Inr (lo, hi) \<and> hi = 4 \<and> lo = 2"
proof -
  have "findExtendedInterval (0, 0) [5, 4, 2] (\<lambda>i. Inr (snd i \<le> 4)) = Inr (2, 4)" by code_simp
  then show ?thesis
    using findExtendedInterval_correct [of "[5, 4, 2]" "\<lambda>i. snd i \<le> 4"] by auto
qed

section \<open>Validation of values\<close>

text \<open>
  C23. \<open>validateValues\<close> keeps the level of the last value that is not fully validated: a PREPARE
  whose smaller value is invalid and whose larger one may be valid passes as may be valid.
\<close>
theorem validateValues_overwrites:
  assumes "counter (p_ballot prep) \<noteq> 0" "p_prepared prep = Some p"
    and "{bvalue (p_ballot prep), bvalue p} = {a, b}" "a < b"
    and "validate a = kInvalidValue" "validate b = kMaybeValidValue"
  shows "validateValues validate (PREPARE prep) = kMaybeValidValue"
proof -
  have "oset_inserts [bvalue (p_ballot prep), bvalue p] [] = [a, b]"
    using assms(3,4) by (auto simp: doubleton_eq_iff insort_insert_key_def)
  then show ?thesis
    using assms by (simp add: validateValues_def worseLevel_def optElem_def)
qed

theorem validateValues_overwrites_witness:
  "validateValues (\<lambda>v. if v = [1] then kInvalidValue else kMaybeValidValue)
     (PREPARE \<lparr>p_quorumSetHash = 7, p_ballot = SCPBallot 1 [2], p_prepared = Some (SCPBallot 1 [1]),
        p_preparedPrime = None, p_nC = 0, p_nH = 0\<rparr>) = kMaybeValidValue"
  by (rule validateValues_overwrites [where a = "[1]" and b = "[2]"]) auto

section \<open>The counter of the ballot\<close>

text \<open>
  C22. \<open>bumpState\<close> at the largest counter wraps around to zero and aborts on the assertion that
  the ballot does not go down.
\<close>
theorem bumpState_wraps:
  assumes "mCurrentBallot s = Some b" "counter b = UINT32_MAX" "mPhase s \<noteq> SCP_PHASE_EXTERNALIZE"
  shows "bumpState E pe v True s = Inl DbgAbort"
proof -
  have ph: "mPhase s = SCP_PHASE_PREPARE \<or> mPhase s = SCP_PHASE_CONFIRM" using assms(3) by (cases "mPhase s") auto
  have n: "counter b + 1 = 0" using assms(2) by simp
  have "\<not> b \<le> SCPBallot 0 x" for x using assms(2) by (cases b) (auto simp: ballot_le_iff)
  then show ?thesis
    using assms(1) ph n by (auto simp: bumpState_def bumpStateTo_def updateCurrentValue_def Let_def dbgAssert_def
        assertE_def bindE_def)
qed

definition topBallot :: slot where
  "topBallot = (newSlot (pairEnv 1))\<lparr>mCurrentBallot := Some (SCPBallot UINT32_MAX [1])\<rparr>"

theorem bumpState_wraps_witness:
  "mCurrentBallot topBallot = Some (SCPBallot UINT32_MAX [1]) \<and>
   bumpState (pairEnv 1) (selfProcess (pairEnv 1)) [1] True topBallot = Inl DbgAbort"
  using bumpState_wraps [of topBallot "SCPBallot UINT32_MAX [1]"] by (simp add: topBallot_def newSlot_def)

section \<open>Following the others to a higher counter\<close>

definition currentTarget :: "slot \<Rightarrow> u32" where
  "currentTarget s = (case mCurrentBallot s of Some b \<Rightarrow> counter b | None \<Rightarrow> 0)"

definition countersOf :: "slot \<Rightarrow> u32 set" where
  "countersOf s = (\<lambda>(n, e). ballotCounter (pledges (statement e))) ` set (mLatestEnvelopes s)"

text \<open>The nodes that are ahead of a counter meet every slice of the node.\<close>

definition blockingAhead :: "slot_env \<Rightarrow> slot \<Rightarrow> u32 \<Rightarrow> bool" where
  "blockingAhead E s k \<longleftrightarrow> isVBlockingMap (selfQSet E) (mLatestEnvelopes s) (\<lambda>st. isAhead k (pledges st))"

lemma attemptBump_eq:
  assumes "mPhase s \<noteq> SCP_PHASE_EXTERNALIZE" "ballotEnvelopes (mLatestEnvelopes s)"
  obtains cs where "set cs = insert (currentTarget s) (countersOf s)" "sorted_wrt (<) cs"
    "attemptBump E pe s = (case findBump E s (currentTarget s) cs of None \<Rightarrow> Inr (s, False) | Some n \<Rightarrow> abandonBallot E pe n s)"
proof
  let ?cs = "oset_insert (currentTarget s) (oset_inserts
    (map (\<lambda>(n, e). ballotCounter (pledges (statement e))) (mLatestEnvelopes s)) [])"
  show "set ?cs = insert (currentTarget s) (countersOf s)"
    by (simp add: set_insort_insert countersOf_def)
  have "oset_ok ?cs" by simp
  then show "sorted_wrt (<) ?cs" by (simp add: oset_ok_def strict_sorted_iff)
  show "attemptBump E pe s =
      (case findBump E s (currentTarget s) ?cs of None \<Rightarrow> Inr (s, False) | Some n \<Rightarrow> abandonBallot E pe n s)"
    using assms by (cases "mPhase s") (auto simp: attemptBump_def currentTarget_def Let_def assertE_def bindE_def)
qed

lemma findBump_first:
  "sorted_wrt (<) cs \<Longrightarrow> \<forall>c \<in> set cs. t \<le> c \<Longrightarrow> blockingAhead E s t \<Longrightarrow> \<exists>c \<in> set cs. \<not> blockingAhead E s c \<Longrightarrow>
     \<exists>n \<in> set cs. findBump E s t cs = Some n \<and> t < n \<and> \<not> blockingAhead E s n \<and> (\<forall>k \<in> set cs. k < n \<longrightarrow> blockingAhead E s k)"
proof (induction cs)
  case (Cons c cs)
  show ?case
  proof (cases "blockingAhead E s c")
    case True
    then obtain n where "n \<in> set cs" "findBump E s t cs = Some n" "t < n" "\<not> blockingAhead E s n"
      "\<forall>k \<in> set cs. k < n \<longrightarrow> blockingAhead E s k" using Cons by auto
    then show ?thesis using True Cons.prems(2) by (auto simp: Let_def blockingAhead_def)
  next
    case False
    then have "t < c" using Cons.prems(2,3) by (auto simp: order.order_iff_strict)
    then show ?thesis using False Cons.prems(1) by (auto simp: Let_def blockingAhead_def dest: order.strict_trans)
  qed
qed simp

lemma sat_UNIV: "in_range q \<Longrightarrow> sat q UNIV"
proof (induction q)
  case (QSet t v i)
  then have "count_sat (\<lambda>q. sat q UNIV) i = length i"
    unfolding count_sat_all by (auto simp: list_all_iff)
  then show ?case using QSet.prems by (simp add: count_sat_True)
qed

lemma no_one_ahead:
  assumes "ballotEnvelopes (mLatestEnvelopes s)" "\<forall>c \<in> countersOf s. c \<le> k" "sized (selfQSet E)" "in_range (selfQSet E)"
  shows "\<not> blockingAhead E s k"
proof -
  have "\<not> isAhead k (pledges (statement e))" if "(n, e) \<in> set (mLatestEnvelopes s)" for n e
  proof -
    have "ballotCounter (pledges (statement e)) \<le> k" using assms(2) that by (force simp: countersOf_def)
    then show ?thesis using assms(1) that
      by (cases "pledges (statement e)") (auto simp: ballotEnvelopes_def list_all_iff dest: antisym [OF UINT32_MAX_le])
  qed
  then have "nodesThat (\<lambda>st. isAhead k (pledges st)) (mLatestEnvelopes s) = []"
    by (auto simp: nodesThat_def filter_empty_conv)
  then show ?thesis
    using isVBlocking_sat [OF assms(3,4), of "[]"] sat_UNIV [OF assms(4)]
    by (auto simp: blockingAhead_def isVBlockingMap_def)
qed

text \<open>The value \<open>abandonBallot\<close> goes on with, and the state in a new ballot, before it is announced.\<close>

definition bumpValue :: "slot \<Rightarrow> Value" where
  "bumpValue s = (if mLatestCompositeCandidate s = []
                  then (case mCurrentBallot s of Some b \<Rightarrow> bvalue b | None \<Rightarrow> [])
                  else mLatestCompositeCandidate s)"

definition bumpedTo :: "SCPBallot \<Rightarrow> slot \<Rightarrow> slot" where
  "bumpedTo b s = emitEvent (EvStartedBallotProtocol b)
     (emitEvent (EvSetupTimer BALLOT_PROTOCOL_TIMER (computeTimeout (counter b)))
       (s\<lparr>mCurrentBallot := Some b, mHeardFromQuorum := False\<rparr>))"

lemma abandonBallot_moves:
  fixes s :: slot and n :: u32
  defines "b \<equiv> SCPBallot n (case mHighBallot s of Some h \<Rightarrow> bvalue h | None \<Rightarrow> bumpValue s)"
  assumes "mPhase s \<noteq> SCP_PHASE_EXTERNALIZE" "checkInvariants s = Inr ()" "currentTarget s < n" "bumpValue s \<noteq> []"
  shows "abandonBallot E pe n s = bindE (emitCurrentStateStatement E pe (bumpedTo b s)) (\<lambda>s. Inr (s, True))"
proof -
  have n: "n \<noteq> 0" using assms(4) by auto
  have ph: "mPhase s = SCP_PHASE_PREPARE \<or> mPhase s = SCP_PHASE_CONFIRM" using assms(2) by (cases "mPhase s") auto
  define s1 where "s1 = emitEvent (EvSetupTimer BALLOT_PROTOCOL_TIMER (computeTimeout n)) (s\<lparr>mCurrentBallot := Some b, mHeardFromQuorum := False\<rparr>)"
  have cnt: "counter b' < n" if "mCurrentBallot s = Some b'" for b' using that assms(4) by (simp add: currentTarget_def)
  have cur: "b' < b" if "mCurrentBallot s = Some b'" for b'
    using cnt [OF that] by (cases b') (simp add: b_def ballot_less_iff)
  have com: "areBallotsCompatible c b" if "mCommit s = Some c" for c
    using that assms(3) by (auto simp: checkInvariants_def bind_simps less_compatible_iff areBallotsCompatible_def b_def split: option.splits)
  have bump: "bumpToBallot b True s = Inr s1"
    using assms(2) cur
    by (cases "mCurrentBallot s") (auto simp: bumpToBallot_def bind_simps startBallotProtocolTimer_def s1_def b_def Let_def order.strict_iff_order)
  have inv: "checkInvariants s1 = Inr ()"
    using assms(3) n ph cnt
    by (auto simp: s1_def checkInvariants_def bind_simps less_compatible_iff b_def emitEvent_def split: option.splits
        intro: order.trans [OF _ less_imp_le])
  have up: "updateCurrentValue b s = Inr (s1, True)"
    using ph bump inv cur com by (auto simp: updateCurrentValue_def bind_simps Let_def less_imp_le split: option.splits)
  show ?thesis
    using n assms(5) up ph
    by (auto simp: abandonBallot_def bumpStateTo_def bumpValue_def [symmetric] b_def [symmetric] bumpedTo_def s1_def Let_def)
      (auto simp: b_def)
qed

text \<open>
  C18. When no recorded statement is behind the current counter and nodes that block every slice
  are ahead of it, \<open>attemptBump\<close> moves to the smallest counter in use that such nodes are not
  ahead of: the ballot with that counter, and the value of the high ballot if there is one, becomes
  current, its timer is started, and the statement for it is emitted.
\<close>
theorem attemptBump_follows:
  assumes "mPhase s \<noteq> SCP_PHASE_EXTERNALIZE" "ballotEnvelopes (mLatestEnvelopes s)"
    and "sized (selfQSet E)" "in_range (selfQSet E)"
    and "\<forall>c \<in> countersOf s. currentTarget s \<le> c" "blockingAhead E s (currentTarget s)"
    and "checkInvariants s = Inr ()" "bumpValue s \<noteq> []"
  shows "\<exists>n \<in> countersOf s. currentTarget s < n \<and> \<not> blockingAhead E s n \<and>
    (\<forall>k \<in> countersOf s. k < n \<longrightarrow> blockingAhead E s k) \<and>
    attemptBump E pe s =
      bindE (emitCurrentStateStatement E pe
        (bumpedTo (SCPBallot n (case mHighBallot s of Some h \<Rightarrow> bvalue h | None \<Rightarrow> bumpValue s)) s)) (\<lambda>s. Inr (s, True))"
proof -
  obtain cs where cs: "set cs = insert (currentTarget s) (countersOf s)" "sorted_wrt (<) cs"
    and eq: "attemptBump E pe s =
      (case findBump E s (currentTarget s) cs of None \<Rightarrow> Inr (s, False) | Some n \<Rightarrow> abandonBallot E pe n s)"
    using attemptBump_eq [OF assms(1,2)] by blast
  have fin: "finite (set cs)" "set cs \<noteq> {}" using cs(1) by auto
  have "\<not> blockingAhead E s (Max (set cs))"
    using Max_ge [OF fin(1)] cs(1) by (intro no_one_ahead [OF assms(2) _ assms(3,4)]) auto
  then have "\<exists>c \<in> set cs. \<not> blockingAhead E s c" using Max_in [OF fin] by blast
  then obtain n where n: "n \<in> set cs" "findBump E s (currentTarget s) cs = Some n" "currentTarget s < n"
      "\<not> blockingAhead E s n" "\<forall>k \<in> set cs. k < n \<longrightarrow> blockingAhead E s k"
    using findBump_first [OF cs(2), of "currentTarget s" E s] assms(5,6) cs(1) by auto
  then show ?thesis
    using eq cs(1) abandonBallot_moves [OF assms(1,7) n(3) assms(8), of E pe] by (intro bexI [of _ n]) auto
qed

text \<open>
  C19. One recorded statement behind the current counter stops \<open>attemptBump\<close>, whatever nodes are
  ahead: the loop visits the counters from the smallest and ends at the first one below the
  current counter.
\<close>
theorem attemptBump_straggler:
  assumes "mPhase s \<noteq> SCP_PHASE_EXTERNALIZE" "ballotEnvelopes (mLatestEnvelopes s)"
    and "c \<in> countersOf s" "c < currentTarget s"
  shows "attemptBump E pe s = Inr (s, False)"
proof -
  obtain cs where cs: "set cs = insert (currentTarget s) (countersOf s)" "sorted_wrt (<) cs"
    and eq: "attemptBump E pe s =
      (case findBump E s (currentTarget s) cs of None \<Rightarrow> Inr (s, False) | Some n \<Rightarrow> abandonBallot E pe n s)"
    using attemptBump_eq [OF assms(1,2)] by blast
  obtain d ds where d: "cs = d # ds" using cs(1) by (cases cs) auto
  then have "d \<le> c" using cs assms(3) by (auto intro: less_imp_le)
  then have "d < currentTarget s" using assms(4) by (rule le_less_trans)
  then have "findBump E s (currentTarget s) cs = None" using d by simp
  then show ?thesis using eq by simp
qed

text \<open>A node whose quorum set is \<open>{2}\<close> sees \<open>2\<close> ahead and, in the second state, \<open>3\<close> behind.\<close>

definition followEnv :: slot_env where
  "followEnv = (pairEnv 1)\<lparr>localNode := (localNode (pairEnv 1))\<lparr>mQSet := QSet 1 [2] []\<rparr>\<rparr>"

definition prepareAt :: "NodeID \<Rightarrow> u32 \<Rightarrow> SCPEnvelope" where
  "prepareAt n c = exampleEnvelope n (PREPARE \<lparr>p_quorumSetHash = 7, p_ballot = SCPBallot c [1], p_prepared = None,
     p_preparedPrime = None, p_nC = 0, p_nH = 0\<rparr>)"

definition behind :: "envelopes \<Rightarrow> slot" where
  "behind m = (newSlot followEnv)\<lparr>mCurrentBallot := Some (SCPBallot 2 [1]), mLatestEnvelopes := m\<rparr>"

lemmas behind_simps = behind_def newSlot_def currentTarget_def countersOf_def prepareAt_def exampleEnvelope_def
  ballotEnvelopes_def followEnv_def pairEnv_def

lemma behind_blocked:
  "blockingAhead followEnv (behind [(2, prepareAt 2 5)]) 2"
  "blockingAhead followEnv (behind [(2, prepareAt 2 5), (3, prepareAt 3 1)]) 2"
  by code_simp+

theorem attemptBump_follows_witness:
  "blockingAhead followEnv (behind [(2, prepareAt 2 5)]) 2 \<and>
   attemptBump followEnv (selfProcess followEnv) (behind [(2, prepareAt 2 5)]) =
     bindE (emitCurrentStateStatement followEnv (selfProcess followEnv) (bumpedTo (SCPBallot 5 [1]) (behind [(2, prepareAt 2 5)])))
       (\<lambda>s. Inr (s, True))"
proof -
  let ?s = "behind [(2, prepareAt 2 5)]"
  have t: "currentTarget ?s = 2" "countersOf ?s = {5}" "bumpValue ?s = [1]" "mHighBallot ?s = None"
    by (simp_all add: behind_simps bumpValue_def)
  have "mPhase ?s \<noteq> SCP_PHASE_EXTERNALIZE" "ballotEnvelopes (mLatestEnvelopes ?s)" "sized (selfQSet followEnv)" "in_range (selfQSet followEnv)"
    by (simp_all add: behind_simps)
  moreover have "checkInvariants ?s = Inr ()" by (simp add: checkInvariants_def behind_simps dbgAssert_def)
  ultimately show ?thesis
    using attemptBump_follows [of ?s followEnv "selfProcess followEnv"] behind_blocked(1) by (auto simp: t)
qed

theorem attemptBump_straggler_witness:
  "blockingAhead followEnv (behind [(2, prepareAt 2 5), (3, prepareAt 3 1)]) 2 \<and>
   currentTarget (behind [(2, prepareAt 2 5), (3, prepareAt 3 1)]) = 2 \<and>
   attemptBump followEnv (selfProcess followEnv) (behind [(2, prepareAt 2 5), (3, prepareAt 3 1)]) =
     Inr (behind [(2, prepareAt 2 5), (3, prepareAt 3 1)], False)"
proof -
  let ?s = "behind [(2, prepareAt 2 5), (3, prepareAt 3 1)]"
  have t: "currentTarget ?s = 2" "mPhase ?s \<noteq> SCP_PHASE_EXTERNALIZE" "ballotEnvelopes (mLatestEnvelopes ?s)" "1 \<in> countersOf ?s"
    by (simp_all add: behind_simps)
  show ?thesis using attemptBump_straggler [OF t(2-4)] t(1) behind_blocked(2) by simp
qed

section \<open>Restoring the state\<close>

lemma createStatement_prepare:
  assumes "createStatement E s = Inr pl" "mCurrentBallot s = Some b"
  shows "counter b \<noteq> 0"
    and "mPhase s = SCP_PHASE_PREPARE \<Longrightarrow> pl = PREPARE \<lparr>p_quorumSetHash = mQSetHash (localNode E), p_ballot = b,
      p_prepared = mPrepared s, p_preparedPrime = mPreparedPrime s,
      p_nC = (case mCommit s of None \<Rightarrow> 0 | Some c \<Rightarrow> counter c),
      p_nH = (case mHighBallot s of None \<Rightarrow> 0 | Some h \<Rightarrow> counter h)\<rparr>"
    and "mPrepared s = Some p \<Longrightarrow> mPreparedPrime s = Some pp \<Longrightarrow> areBallotsLessAndIncompatible pp p"
    and "mCommit s = Some c \<Longrightarrow> \<exists>h. mHighBallot s = Some h \<and> counter c \<le> counter h \<and> counter h \<le> counter b \<and>
      bvalue c = bvalue b \<and> bvalue h = bvalue b"
  using assms by (auto simp: createStatement_def checkInvariants_def bind_simps less_compatible_iff
      split: option.splits SCPPhase.splits)

lemma createStatement_later:
  assumes "createStatement E s = Inr pl"
  shows "mPhase s = SCP_PHASE_CONFIRM \<Longrightarrow> \<exists>b c h p. mCurrentBallot s = Some b \<and> counter b \<noteq> 0 \<and>
      c \<le> h \<and> h \<le> counter b \<and>
      pl = CONFIRM \<lparr>c_ballot = b, c_nPrepared = p, c_nCommit = c, c_nH = h,
        c_quorumSetHash = mQSetHash (localNode E)\<rparr>"
    and "mPhase s = SCP_PHASE_EXTERNALIZE \<Longrightarrow> \<exists>c h. counter c \<le> counter h \<and> bvalue c = bvalue h \<and>
      pl = EXTERNALIZE \<lparr>e_commit = c, e_nH = counter h, e_commitQuorumSetHash = mQSetHash (localNode E)\<rparr>"
  using assms by (auto simp: createStatement_def checkInvariants_def bind_simps less_compatible_iff
      split: option.splits)

lemmas restore_simps = ballotSetStateFromEnvelope_def createStatement_def checkInvariants_def recordEnvelope_def
  recordStatement_def newSlot_def bumpToBallot_def startBallotProtocolTimer_def emitEvent_def dbgAssert_def
  assertE_def deref_def derefE_def Let_def less_compatible_iff

text \<open>
  C8. Restoring a slot from the envelope of its last statement gives a slot in the same phase that
  makes the same statement again, and that remembers the envelope as its last one.
\<close>
theorem restore_round_trip:
  assumes "createStatement E s = Inr pl" "mCurrentBallot s \<noteq> None"
  shows "\<exists>s'. ballotSetStateFromEnvelope E (createEnvelope E pl) (newSlot E) = Inr s' \<and>
    createStatement E s' = Inr pl \<and> mPhase s' = mPhase s \<and>
    mLastEnvelope s' = Some (createEnvelope E pl) \<and> mLastEnvelopeEmit s' = Some (createEnvelope E pl)"
proof -
  obtain b where b: "mCurrentBallot s = Some b" using assms(2) by auto
  note c = createStatement_prepare [OF assms(1) b]
  let ?e = "createEnvelope E pl"
  have e: "pledges (statement ?e) = pl" by (simp add: createEnvelope_def Let_def)
  show ?thesis
  proof (cases "mPhase s")
    case SCP_PHASE_PREPARE
    show ?thesis
    proof (cases "mCommit s")
      case None
      then show ?thesis
        using e c(1-3) SCP_PHASE_PREPARE by (cases "mPrepared s"; cases "mPreparedPrime s"; cases "mHighBallot s")
          (simp_all add: restore_simps)
    next
      case (Some k)
      then obtain h where h: "mHighBallot s = Some h" "counter k \<le> counter h" "counter h \<le> counter b"
        "bvalue k = bvalue b" "bvalue h = bvalue b" using c(4) by blast
      have "counter k \<noteq> 0 \<Longrightarrow> counter h \<noteq> 0" using h(2) by auto
      then show ?thesis
        using e c(1-3) SCP_PHASE_PREPARE Some h by (cases "mPrepared s"; cases "mPreparedPrime s")
          (auto simp add: restore_simps)
    qed
  next
    case SCP_PHASE_CONFIRM
    then show ?thesis using createStatement_later(1) [OF assms(1)] e by (auto simp: restore_simps)
  next
    case SCP_PHASE_EXTERNALIZE
    then show ?thesis using createStatement_later(2) [OF assms(1)] e by (auto simp: restore_simps)
  qed
qed

definition proposedPledges :: SCPPledges where
  "proposedPledges = PREPARE \<lparr>p_quorumSetHash = 7, p_ballot = SCPBallot 1 [1], p_prepared = None,
     p_preparedPrime = None, p_nC = 0, p_nH = 0\<rparr>"

lemma proposed_statement:
  "createStatement (pairEnv 1) (proposed 1) = Inr proposedPledges \<and> mCurrentBallot (proposed 1) \<noteq> None"
  by code_simp

theorem restore_round_trip_witness:
  "\<exists>s'. ballotSetStateFromEnvelope (pairEnv 1) (createEnvelope (pairEnv 1) proposedPledges) (newSlot (pairEnv 1)) = Inr s' \<and>
     createStatement (pairEnv 1) s' = Inr proposedPledges"
  using restore_round_trip [of "pairEnv 1" "proposed 1" proposedPledges] proposed_statement by blast

end
