(* ===== verification/Nomination_Properties.thy ===== *)
theory Nomination_Properties
  imports SCP_Agreement
begin

text \<open>
  The properties of the nomination and of the protocol object: how the leaders of a round are
  chosen, which values a nomination makes accepted and candidates, and that a call on the
  protocol object reaches one slot and leaves the others alone.
\<close>

section \<open>Leaders\<close>

lemma leadersLoop_spec:
  "leadersLoop E s ns tp l = Inr r \<Longrightarrow> (\<And>n. n \<in> set ns \<Longrightarrow> getNodePriority E s n (selfQSet E) = Inr (w n)) \<Longrightarrow>
     M = Max (insert tp (w ` set ns)) \<Longrightarrow>
     set r = {n \<in> set ns. 0 < w n \<and> w n = M} \<union> (if M = tp then set l else {})"
proof (induction ns arbitrary: tp l)
  case (Cons n ns)
  let ?tp = "max tp (w n)"
  let ?l = "if tp < w n then [] else l"
  let ?l' = "if w n = ?tp \<and> 0 < w n then oset_insert n ?l else ?l"
  have wn: "getNodePriority E s n (selfQSet E) = Inr (w n)" using Cons.prems(2) by simp
  have run: "leadersLoop E s ns ?tp ?l' = Inr r"
    using Cons.prems(1) wn by (auto simp: Let_def max_def not_less split: if_splits)
  have M: "M = Max (insert ?tp (w ` set ns))"
    using Cons.prems(3) by (cases "set ns = {}") (auto simp: Max_insert max.assoc max.left_commute max.commute)
  have "?tp \<le> M" unfolding M by (intro Max_ge) auto
  have IH: "set r = {k \<in> set ns. 0 < w k \<and> w k = M} \<union> (if M = ?tp then set ?l' else {})"
    using Cons.IH [OF run _ M] Cons.prems(2) by simp
  have M': "w n \<le> M" "tp \<le> M" using \<open>?tp \<le> M\<close> by auto
  have sp: "{k \<in> set (n # ns). 0 < w k \<and> w k = M} =
      {k \<in> set ns. 0 < w k \<and> w k = M} \<union> (if 0 < w n \<and> w n = M then {n} else {})" by auto
  have "(if M = ?tp then set ?l' else {}) = (if 0 < w n \<and> w n = M then {n} else {}) \<union> (if M = tp then set l else {})"
  proof (cases "tp < w n")
    case True
    then have "0 < w n" using le_less_trans [OF word_zero_le] by blast
    moreover have "M \<noteq> tp" using True M'(1) by auto
    ultimately show ?thesis using True less_imp_le [OF True] by (auto simp: set_insort_insert max_def)
  next
    case False
    have tpn: "?tp = tp" using False by (simp add: max_def)
    show ?thesis
    proof (cases "w n = tp")
      case True
      then show ?thesis using False by (auto simp: tpn set_insort_insert)
    next
      case ne: False
      then have "w n \<noteq> M" using False M' by (metis antisym not_less)
      then show ?thesis using False ne by (auto simp: tpn)
    qed
  qed
  then show ?case using IH sp by auto
qed simp

text \<open>
  C21. The leaders of a round are the nodes of the quorum set whose priority is positive and the
  highest.
\<close>
theorem round_leaders_highest:
  assumes "updateRoundLeaders E s = Inr s'"
    and "\<And>n. n \<in> set (forAllNodes (selfQSet E)) \<Longrightarrow> getNodePriority E s n (selfQSet E) = Inr (w n)"
  shows "set (mRoundLeaders s') = {n \<in> set (forAllNodes (selfQSet E)). 0 < w n \<and>
    (\<forall>k \<in> set (forAllNodes (selfQSet E)). w k \<le> w n)}"
proof -
  let ?N = "set (forAllNodes (selfQSet E))"
  have run: "leadersLoop E s (forAllNodes (selfQSet E)) 0 [] = Inr (mRoundLeaders s')"
    using assms(1) by (auto simp: updateRoundLeaders_def bindE_eq_Inr)
  have "set (mRoundLeaders s') = {n \<in> ?N. 0 < w n \<and> w n = Max (insert 0 (w ` ?N))}"
    using leadersLoop_spec [OF run assms(2) refl] by simp
  also have "\<dots> = {n \<in> ?N. 0 < w n \<and> (\<forall>k \<in> ?N. w k \<le> w n)}"
    by (auto simp: eq_commute [of _ "Max _"] Max_eq_iff)
  finally show ?thesis .
qed

text \<open>Two nodes, of which the second has the higher priority.\<close>

definition leaderEnv :: slot_env where
  "leaderEnv = (pairEnv 1)\<lparr>computeHashNode := (\<lambda>p b r n. if b then (if n = 2 then 9 else 5) else 0)\<rparr>"

definition leaderSlot :: slot where
  "leaderSlot = (newSlot leaderEnv)\<lparr>mPreviousValue := [1], mRoundNumber := 1\<rparr>"

definition leaderPriority :: "NodeID \<Rightarrow> u64" where
  "leaderPriority n = (if n = 2 then 9 else 5)"

lemma leader_run:
  "(case updateRoundLeaders leaderEnv leaderSlot of Inr s \<Rightarrow> mRoundLeaders s = [2] | Inl _ \<Rightarrow> False) \<and>
   forAllNodes (selfQSet leaderEnv) = [1, 2] \<and>
   getNodePriority leaderEnv leaderSlot 1 (selfQSet leaderEnv) = Inr (leaderPriority 1) \<and>
   getNodePriority leaderEnv leaderSlot 2 (selfQSet leaderEnv) = Inr (leaderPriority 2)"
  by code_simp

theorem round_leaders_highest_witness:
  "\<exists>s. updateRoundLeaders leaderEnv leaderSlot = Inr s \<and> set (mRoundLeaders s) = {2}"
proof -
  obtain s where s: "updateRoundLeaders leaderEnv leaderSlot = Inr s"
    using leader_run by (auto split: sum.splits)
  have n: "forAllNodes (selfQSet leaderEnv) = [1, 2]" using leader_run by blast
  have pr: "getNodePriority leaderEnv leaderSlot k (selfQSet leaderEnv) = Inr (leaderPriority k)"
    if k: "k \<in> set (forAllNodes (selfQSet leaderEnv))" for k
  proof -
    have "k = 1 \<or> k = 2" using k unfolding n by simp
    then show ?thesis using leader_run by blast
  qed
  have "set (mRoundLeaders s) = {n \<in> set [1, 2]. 0 < leaderPriority n \<and> (\<forall>k \<in> set [1, 2]. leaderPriority k \<le> leaderPriority n)}"
    using round_leaders_highest [OF s pr] unfolding n .
  also have "\<dots> = {2}" by (auto simp: leaderPriority_def)
  finally show ?thesis using s by blast
qed

section \<open>Accepted values and candidates\<close>

definition federated :: "slot_env \<Rightarrow> envelopes \<Rightarrow> Value \<Rightarrow> bool" where
  "federated E m v \<longleftrightarrow> validateValue E v = kFullyValidatedValue \<and>
     federatedAccept E (votePredicate v) (acceptPredicate v) m = Inr True"

lemma promoteVotes_exact:
  "promoteVotes E vs (s, m) = Inr (s', m') \<Longrightarrow>
     mLatestNominations s' = mLatestNominations s \<and> mCandidates s' = mCandidates s \<and>
     set (mAccepted s') = set (mAccepted s) \<union> {v \<in> set vs. federated E (mLatestNominations s) v}"
proof (induction vs arbitrary: s m)
  case (Cons v vs)
  let ?a = "s\<lparr>mAccepted := oset_insert v (mAccepted s), mVotes := oset_insert v (mVotes s)\<rparr>"
  let ?w = "s\<lparr>mVotes := oset_insert (extractValidValue E v) (mVotes s)\<rparr>"
  have skip: ?case if "promoteVotes E vs (s, k) = Inr (s', m')"
      "v \<in> set (mAccepted s) \<or> \<not> federated E (mLatestNominations s) v" for k
    using Cons.IH [OF that(1)] that(2) by auto
  have accept: ?case if "promoteVotes E vs (?a, True) = Inr (s', m')" "federated E (mLatestNominations s) v"
    using Cons.IH [OF that(1)] that(2) by (auto simp: set_insort_insert)
  have vote: ?case if "promoteVotes E vs (?w, True) = Inr (s', m')" "\<not> federated E (mLatestNominations s) v"
    using Cons.IH [OF that(1)] that(2) by auto
  show ?case
  proof (cases "v \<in> set (mAccepted s)")
    case True
    then show ?thesis using Cons.prems skip by simp
  next
    case False
    then obtain b where b: "federatedAccept E (votePredicate v) (acceptPredicate v) (mLatestNominations s) = Inr b"
      using Cons.prems by (auto simp: bindE_eq_Inr)
    consider "federated E (mLatestNominations s) v" | "\<not> federated E (mLatestNominations s) v" by blast
    then show ?thesis
    proof cases
      case 1
      then show ?thesis using Cons.prems False accept by (simp add: federated_def)
    next
      case 2
      then have "(\<exists>k. promoteVotes E vs (s, k) = Inr (s', m')) \<or> promoteVotes E vs (?w, True) = Inr (s', m')"
        using Cons.prems False b by (cases b) (auto simp: federated_def Let_def split: if_splits)
      then show ?thesis using skip vote 2 by blast
    qed
  qed
qed simp

lemma promoteAccepted_exact:
  "promoteAccepted E as (s, n) = Inr (s', n') \<Longrightarrow>
     mLatestNominations s' = mLatestNominations s \<and> mAccepted s' = mAccepted s \<and>
     set (mCandidates s') = set (mCandidates s) \<union>
       {a \<in> set as. federatedRatify E (acceptPredicate a) (mLatestNominations s) = Inr True}"
proof (induction as arbitrary: s n)
  case (Cons a as)
  let ?c = "s\<lparr>mCandidates := oset_insert a (mCandidates s)\<rparr>"
  have skip: ?case if "promoteAccepted E as (s, k) = Inr (s', n')"
      "a \<in> set (mCandidates s) \<or> federatedRatify E (acceptPredicate a) (mLatestNominations s) \<noteq> Inr True" for k
    using Cons.IH [OF that(1)] that(2) by auto
  have cand: ?case if "promoteAccepted E as (?c, True) = Inr (s', n')"
      "federatedRatify E (acceptPredicate a) (mLatestNominations s) = Inr True"
    using Cons.IH [OF that(1)] that(2) by (auto simp: set_insort_insert)
  show ?case using Cons.prems skip cand by (simp add: bindE_eq_Inr split: if_splits) force+
qed simp

lemma takeLeaderVote_frame:
  "takeLeaderVote E st (s, m) = Inr (s', m') \<Longrightarrow>
     mLatestNominations s' = mLatestNominations s \<and> mAccepted s' = mAccepted s \<and> mCandidates s' = mCandidates s"
  by (auto simp: takeLeaderVote_def elim!: bindE_runE split: if_splits)

text \<open>
  C7. A nomination that is recorded while the nomination runs makes accepted exactly the values
  it votes for that the node fully validates and that a blocking set accepts or a quorum votes for
  or accepts, and makes candidates exactly the accepted values that a quorum accepts.
\<close>
theorem nomination_step_exact:
  assumes "nominationStep E env s = Inr (s', VALID, modified, newCandidates)" "mNominationStarted s"
  shows "mLatestNominations s' = omap_put (nodeID (statement env)) env (mLatestNominations s) \<and>
    set (mAccepted s') = set (mAccepted s) \<union> {v \<in> set (n_votes (nomination_of env)).
      validateValue E v = kFullyValidatedValue \<and>
      federatedAccept E (votePredicate v) (acceptPredicate v) (mLatestNominations s') = Inr True} \<and>
    set (mCandidates s') = set (mCandidates s) \<union> {a \<in> set (mAccepted s').
      federatedRatify E (acceptPredicate a) (mLatestNominations s') = Inr True}"
proof -
  let ?r = "recordNomination env s"
  obtain s1 m1 s2 n2 where p1: "promoteVotes E (n_votes (nomination_of env)) (?r, False) = Inr (s1, m1)"
    and p2: "promoteAccepted E (mAccepted s1) (s1, False) = Inr (s2, n2)"
    and p3: "takeLeaderVote E (statement env) (s2, m1) = Inr (s', modified)"
    using assms by (auto simp: nominationStep_def Let_def bindE_eq_Inr split: if_splits)
  have r: "mLatestNominations ?r = omap_put (nodeID (statement env)) env (mLatestNominations s)"
    by (simp add: recordNomination_def recordStatement_def)
  note e1 = promoteVotes_exact [OF p1] and e2 = promoteAccepted_exact [OF p2] and e3 = takeLeaderVote_frame [OF p3]
  show ?thesis using e1 e2 e3 r by (simp add: federated_def)
qed

text \<open>Node \<open>1\<close> votes for \<open>[1]\<close> and receives the same vote of node \<open>2\<close>.\<close>

definition nominationOf :: "NodeID \<Rightarrow> SCPEnvelope" where
  "nominationOf n = exampleEnvelope n (NOMINATE \<lparr>n_quorumSetHash = 7, n_votes = [[1]], n_accepted = []\<rparr>)"

definition votingSlot :: slot where
  "votingSlot = (newSlot (pairEnv 1))\<lparr>mNominationStarted := True, mVotes := [[1]],
     mLatestNominations := [(1, nominationOf 1)]\<rparr>"

lemma voting_run:
  "case nominationStep (pairEnv 1) (nominationOf 2) votingSlot of
     Inr (s, r, m, n) \<Rightarrow> r = VALID \<and> mAccepted s = [[1]] | Inl _ \<Rightarrow> False"
  by code_simp

theorem nomination_step_exact_witness:
  "\<exists>s' m n. nominationStep (pairEnv 1) (nominationOf 2) votingSlot = Inr (s', VALID, m, n) \<and> mAccepted s' = [[1]] \<and>
     federatedAccept (pairEnv 1) (votePredicate [1]) (acceptPredicate [1]) (mLatestNominations s') = Inr True"
proof -
  obtain s' m n where st: "nominationStep (pairEnv 1) (nominationOf 2) votingSlot = Inr (s', VALID, m, n)"
    and a: "mAccepted s' = [[1]]"
    using voting_run by (auto split: sum.splits prod.splits)
  have "mNominationStarted votingSlot" "mAccepted votingSlot = []" by (simp_all add: votingSlot_def newSlot_def)
  then have "federatedAccept (pairEnv 1) (votePredicate [1]) (acceptPredicate [1]) (mLatestNominations s') = Inr True"
    using nomination_step_exact [OF st] a by auto
  then show ?thesis using st a by blast
qed

section \<open>The protocol object\<close>

definition driver_ok :: "SCPDriver \<Rightarrow> LocalNode \<Rightarrow> bool" where
  "driver_ok D ln \<longleftrightarrow> sized (mQSet ln) \<and> (\<forall>h q. d_getQSet D h = Some q \<longrightarrow> sized q)"

definition scp_inv :: "SCPDriver \<Rightarrow> SCP \<Rightarrow> bool" where
  "scp_inv D scp \<longleftrightarrow> driver_ok D (mLocalNode scp) \<and> omap_ok (mKnownSlots scp) \<and>
     (\<forall>i s. map_of (mKnownSlots scp) i = Some s \<longrightarrow> full_inv (slotEnv D (mLocalNode scp) i) s)"

lemma slotEnv_ok: "driver_ok D ln \<Longrightarrow> env_ok (slotEnv D ln i)"
  by (simp add: driver_ok_def env_ok_def slotEnv_def)

text \<open>
  The calls on the protocol object that act on a slot, with its index. As for a slot, nobody else
  signs for the node.
\<close>

inductive scp_op :: "SCPDriver \<Rightarrow> u64 \<Rightarrow> SCP \<Rightarrow> SCP \<Rightarrow> bool" for D where
  receive: "receiveEnvelope D env scp = Some (Inr (scp', r)) \<Longrightarrow>
     (nodeID (statement env) = mNodeID (mLocalNode scp) \<Longrightarrow>
        \<exists>s. map_of (mKnownSlots scp) (slotIndex (statement env)) = Some s \<and> statement env \<in> historyOf s) \<Longrightarrow>
     scp_op D (slotIndex (statement env)) scp scp'"
| abandon: "scpAbandonBallot D i scp = Inr (scp', b) \<Longrightarrow> scp_op D i scp scp'"
| nominate: "scpNominate D i v pv scp = Some (Inr (scp', b)) \<Longrightarrow> scp_op D i scp scp'"
| stop: "scp_op D i scp (scpStopNomination i scp)"

text \<open>The slot that \<open>getSlot(i, true)\<close> returns.\<close>

definition slotAt :: "SCPDriver \<Rightarrow> SCP \<Rightarrow> u64 \<Rightarrow> slot" where
  "slotAt D scp i = (case map_of (mKnownSlots scp) i of Some s \<Rightarrow> s | None \<Rightarrow> newSlot (slotEnv D (mLocalNode scp) i))"

lemma getSlot_slotAt:
  "getSlot D i True scp = (scp', r) \<Longrightarrow> omap_ok (mKnownSlots scp) \<Longrightarrow>
     r = Some (slotAt D scp i) \<and> mLocalNode scp' = mLocalNode scp \<and> omap_ok (mKnownSlots scp') \<and>
     (\<forall>j. map_of (mKnownSlots scp') j = (if j = i then Some (slotAt D scp i) else map_of (mKnownSlots scp) j))"
proof (cases "map_of (mKnownSlots scp) i")
  case (Some s)
  then have "slotAt D scp i = s" by (simp add: slotAt_def)
  then show "getSlot D i True scp = (scp', r) \<Longrightarrow> omap_ok (mKnownSlots scp) \<Longrightarrow> ?thesis"
    using Some by (auto simp: getSlot_def)
qed (auto simp: getSlot_def slotAt_def Let_def omap_ok_put)

lemma slotAt_full: "scp_inv D scp \<Longrightarrow> full_inv (slotEnv D (mLocalNode scp) i) (slotAt D scp i)"
  by (auto simp: scp_inv_def slotAt_def intro: newSlot_full slotEnv_ok split: option.splits)

text \<open>A call on the slot of an index: the slot afterwards, and nothing else.\<close>

definition scp_moves :: "SCPDriver \<Rightarrow> u64 \<Rightarrow> SCP \<Rightarrow> slot \<Rightarrow> SCP \<Rightarrow> bool" where
  "scp_moves D i scp s scp' \<longleftrightarrow> mLocalNode scp' = mLocalNode scp \<and> omap_ok (mKnownSlots scp') \<and>
     (\<forall>j. map_of (mKnownSlots scp') j = (if j = i then Some s else map_of (mKnownSlots scp) j))"

lemma onSlot_moves:
  assumes "onSlot D i call scp = Inr (scp', r)" "omap_ok (mKnownSlots scp)"
  obtains s where "call (slotEnv D (mLocalNode scp) i) (slotAt D scp i) = Inr (s, r)" "scp_moves D i scp s scp'"
proof -
  obtain t q where g: "getSlot D i True scp = (t, q)" by (cases "getSlot D i True scp")
  note gs = getSlot_slotAt [OF g assms(2)]
  obtain s where s: "call (slotEnv D (mLocalNode scp) i) (slotAt D scp i) = Inr (s, r)" "scp' = putSlot i s t"
    using assms(1) g gs by (auto simp: onSlot_def bindE_eq_Inr)
  then show ?thesis using that gs by (auto simp: scp_moves_def putSlot_def omap_ok_put)
qed

lemma onSlotOpt_moves:
  assumes "onSlotOpt D i call scp = Some (Inr (scp', r))" "omap_ok (mKnownSlots scp)"
  obtains s where "call (slotEnv D (mLocalNode scp) i) (slotAt D scp i) = Some (Inr (s, r))" "scp_moves D i scp s scp'"
proof -
  obtain t q where g: "getSlot D i True scp = (t, q)" by (cases "getSlot D i True scp")
  note gs = getSlot_slotAt [OF g assms(2)]
  obtain s where s: "call (slotEnv D (mLocalNode scp) i) (slotAt D scp i) = Some (Inr (s, r))" "scp' = putSlot i s t"
    using assms(1) g gs by (auto simp: onSlotOpt_def bindE_eq_Inr)
  then show ?thesis using that gs by (auto simp: scp_moves_def putSlot_def omap_ok_put)
qed

lemma slotEnv_self [simp]: "selfID (slotEnv D ln i) = mNodeID ln"
  by (simp add: slotEnv_def)

lemma scp_op_moves:
  assumes op: "scp_op D i scp scp'" and inv: "scp_inv D scp"
  shows "scp' = scp \<or> (\<exists>m s. slot_op (slotEnv D (mLocalNode scp) i) m (slotAt D scp i) s \<and> scp_moves D i scp s scp')"
proof -
  have ok: "omap_ok (mKnownSlots scp)" using inv by (simp add: scp_inv_def)
  from op show ?thesis
  proof cases
    case (receive env r)
    show ?thesis
    proof (cases "d_verifyEnvelope D env")
      case True
      let ?E = "slotEnv D (mLocalNode scp) i"
      obtain s where s: "slotProcessEnvelope ?E False env (slotAt D scp i) = Some (Inr (s, r))" "scp_moves D i scp s scp'"
        using receive True ok by (auto simp: receiveEnvelope_def elim!: onSlotOpt_moves)
      have "slot_op ?E (Some env) (slotAt D scp i) s"
        by (rule slot_op.receive [OF s(1)]) (use receive in \<open>auto simp: slotAt_def\<close>)
      then show ?thesis using s(2) by blast
    qed (use receive in \<open>simp add: receiveEnvelope_def\<close>)
  next
    case (abandon b)
    then have "onSlot D i slotAbandonBallot scp = Inr (scp', b)" by (auto simp: scpAbandonBallot_def bind_simps)
    then show ?thesis using ok slot_op.abandon by (elim onSlot_moves) blast+
  next
    case (nominate v pv b)
    then have "onSlotOpt D i (\<lambda>E s. nominate E v pv False s) scp = Some (Inr (scp', b))"
      by (auto simp: scpNominate_def split: if_splits)
    then show ?thesis using ok slot_op.nominate by (elim onSlotOpt_moves) blast+
  next
    case stop
    show ?thesis
    proof (cases "map_of (mKnownSlots scp) i")
      case (Some s)
      then have "scp_moves D i scp (stopNomination s) scp'"
        using stop ok by (simp add: scp_moves_def scpStopNomination_def putSlot_def omap_ok_put)
      then show ?thesis using slot_op.stop Some by (metis (no_types, lifting) option.simps(5) slotAt_def)
    qed (use stop in \<open>simp add: scpStopNomination_def\<close>)
  qed
qed

lemma map_of_purge:
  "map_of (mKnownSlots (purgeSlots k scp)) i = (if i < k then None else map_of (mKnownSlots scp) i)"
  using map_of_filter_key [of "\<lambda>i. \<not> i < k" "mKnownSlots scp" i]
  by (simp only: purgeSlots_def split_def) simp

text \<open>
  The result of a call on the slot of an index, as a result of the protocol object: the slot is
  stored under its index, whether it was known or \<open>getSlot\<close> has just created it.
\<close>

definition withSlot :: "u64 \<Rightarrow> SCP \<Rightarrow> slot \<times> 'a \<Rightarrow> SCP \<times> 'a" where
  "withSlot i scp = (\<lambda>(s, r). (putSlot i s scp, r))"

lemma omap_put_twice: "omap_put k v (omap_put k w m) = omap_put k v m"
  by (induction k w m rule: omap_put.induct) auto

lemma getSlot_create:
  "\<exists>scp'. getSlot D i True scp = (scp', Some (slotAt D scp i)) \<and> mLocalNode scp' = mLocalNode scp \<and>
     (\<forall>s. putSlot i s scp' = putSlot i s scp)"
  by (cases "map_of (mKnownSlots scp) i") (simp_all add: getSlot_def slotAt_def putSlot_def omap_put_twice Let_def)

lemma onSlot_call:
  "onSlot D i call scp = map_sum id (withSlot i scp) (call (slotEnv D (mLocalNode scp) i) (slotAt D scp i))"
  using getSlot_create [of D i scp]
  by (cases "call (slotEnv D (mLocalNode scp) i) (slotAt D scp i)") (auto simp: onSlot_def withSlot_def)

lemma onSlotOpt_call:
  "onSlotOpt D i call scp =
     map_option (map_sum id (withSlot i scp)) (call (slotEnv D (mLocalNode scp) i) (slotAt D scp i))"
proof -
  have "bindE r (\<lambda>(s, res). Inr (putSlot i s scp, res)) = map_sum id (withSlot i scp) r" for r :: "cxx_error + (slot \<times> 'a)"
    by (cases r) (auto simp: withSlot_def)
  then show ?thesis using getSlot_create [of D i scp] by (auto simp: onSlotOpt_def)
qed

lemma map_sum_eq_Inr: "map_sum id f r = Inr y \<longleftrightarrow> (\<exists>x. r = Inr x \<and> f x = y)"
  by (cases r) auto

lemma scp_op_keeps:
  assumes "scp_inv D scp" "scp_op D i scp scp'"
  shows "scp_inv D scp' \<and> mLocalNode scp' = mLocalNode scp \<and>
    (\<forall>j. j \<noteq> i \<longrightarrow> map_of (mKnownSlots scp') j = map_of (mKnownSlots scp) j)"
proof (cases "scp' = scp")
  case False
  then obtain m s where op: "slot_op (slotEnv D (mLocalNode scp) i) m (slotAt D scp i) s" and mv: "scp_moves D i scp s scp'"
    using scp_op_moves [OF assms(2,1)] by blast
  have "full_inv (slotEnv D (mLocalNode scp) i) s"
    using keeps_slot_op [OF op slotAt_full [OF assms(1)]] by (rule keeps_inv)
  then show ?thesis using mv assms(1) by (auto simp: scp_moves_def scp_inv_def)
qed (use assms(1) in simp)

text \<open>
  C10. A call on the protocol object for an index is one call on the slot of that index, which is
  created when it is new: an envelope whose signature is right is processed by the slot it names,
  and the slot that results, or the error, is the result; an envelope with a wrong signature
  changes nothing. The calls leave every other slot as it is and keep the invariant of all of
  them; purging drops exactly the slots below the index.
\<close>
theorem scp_call_one_slot:
  assumes "scp_inv D scp"
  defines "E \<equiv> slotEnv D (mLocalNode scp)" and "validator \<equiv> mIsValidator (mLocalNode scp)"
  shows "receiveEnvelope D env scp =
      (let i = slotIndex (statement env) in
       if d_verifyEnvelope D env
       then map_option (map_sum id (withSlot i scp)) (slotProcessEnvelope (E i) False env (slotAt D scp i))
       else Some (Inr (scp, INVALID)))
    \<and> scpAbandonBallot D i scp =
      (if validator then map_sum id (withSlot i scp) (slotAbandonBallot (E i) (slotAt D scp i)) else Inl DbgAbort)
    \<and> scpNominate D i v pv scp =
      (if validator then map_option (map_sum id (withSlot i scp)) (nominate (E i) v pv False (slotAt D scp i))
       else Some (Inl DbgAbort))
    \<and> (scp_op D i scp scp' \<longrightarrow> scp_inv D scp' \<and> mLocalNode scp' = mLocalNode scp \<and>
         (\<forall>j. j \<noteq> i \<longrightarrow> map_of (mKnownSlots scp') j = map_of (mKnownSlots scp) j))
    \<and> scp_inv D (purgeSlots k scp)
    \<and> (\<forall>j. map_of (mKnownSlots (purgeSlots k scp)) j = (if j < k then None else map_of (mKnownSlots scp) j))"
proof -
  have "omap_ok (mKnownSlots (purgeSlots k scp))"
    using assms(1) by (simp add: purgeSlots_def scp_inv_def omap_ok_filter)
  moreover have "mLocalNode (purgeSlots k scp) = mLocalNode scp" by (simp add: purgeSlots_def)
  ultimately have "scp_inv D (purgeSlots k scp)" using assms(1) by (auto simp: scp_inv_def map_of_purge)
  then show ?thesis
    using scp_op_keeps [OF assms(1), of i scp']
    by (simp add: receiveEnvelope_def scpAbandonBallot_def scpNominate_def onSlot_call onSlotOpt_call E_def validator_def
        dbgAssert_def map_of_purge Let_def)
qed

definition exampleDriver :: SCPDriver where
  "exampleDriver = \<lparr>d_getQSet = (\<lambda>h. if h = 7 then Some pairQSet else None),
     d_validateValue = (\<lambda>i v. kFullyValidatedValue), d_extractValidValue = (\<lambda>i v. []),
     d_combineCandidates = (\<lambda>i vs. hd vs), d_computeHashNode = (\<lambda>i p b r n. if b then 5 else 0),
     d_computeValueHash = (\<lambda>i p r v. 3), d_signEnvelope = (\<lambda>st. []), d_verifyEnvelope = (\<lambda>e. True)\<rparr>"

definition exampleSCP :: SCP where
  "exampleSCP = \<lparr>mLocalNode = localNode (pairEnv 1), mKnownSlots = [(5, newSlot (slotEnv exampleDriver (localNode (pairEnv 1)) 5))]\<rparr>"

lemma example_receive:
  "case receiveEnvelope exampleDriver (nominationOf 2) exampleSCP of
     Some (Inr (scp, r)) \<Rightarrow> map fst (mKnownSlots scp) = [1, 5] | _ \<Rightarrow> False"
  by code_simp

theorem scp_call_one_slot_witness:
  "\<exists>scp r. receiveEnvelope exampleDriver (nominationOf 2) exampleSCP = Some (Inr (scp, r)) \<and>
     slotProcessEnvelope (slotEnv exampleDriver (mLocalNode exampleSCP) 1) False (nominationOf 2) (slotAt exampleDriver exampleSCP 1)
       = Some (Inr (the (map_of (mKnownSlots scp) 1), r)) \<and>
     scp_inv exampleDriver scp \<and> map fst (mKnownSlots scp) = [1, 5] \<and>
     map_of (mKnownSlots scp) 5 = map_of (mKnownSlots exampleSCP) 5"
proof -
  have "driver_ok exampleDriver (localNode (pairEnv 1))"
    by (auto simp: driver_ok_def exampleDriver_def pairEnv_def pairQSet_def)
  then have inv: "scp_inv exampleDriver exampleSCP"
    by (auto simp: scp_inv_def exampleSCP_def omap_ok_def intro: newSlot_full slotEnv_ok split: if_splits)
  obtain scp r where run: "receiveEnvelope exampleDriver (nominationOf 2) exampleSCP = Some (Inr (scp, r))"
    and k: "map fst (mKnownSlots scp) = [1, 5]"
    using example_receive by (auto split: option.splits sum.splits)
  have i: "slotIndex (statement (nominationOf 2)) = 1" "d_verifyEnvelope exampleDriver (nominationOf 2)"
    by (simp_all add: nominationOf_def exampleEnvelope_def exampleDriver_def)
  have "scp_op exampleDriver (slotIndex (statement (nominationOf 2))) exampleSCP scp"
    by (rule scp_op.receive [OF run]) (simp add: nominationOf_def exampleEnvelope_def exampleSCP_def pairEnv_def)
  then have op: "scp_op exampleDriver 1 exampleSCP scp" by (simp add: i)
  note one = scp_call_one_slot [OF inv, of "nominationOf 2" 1 "[]" "[]" scp 0]
  obtain s where s: "slotProcessEnvelope (slotEnv exampleDriver (mLocalNode exampleSCP) 1) False (nominationOf 2)
      (slotAt exampleDriver exampleSCP 1) = Some (Inr (s, r))" "scp = putSlot 1 s exampleSCP"
    using one run i by (fastforce simp: withSlot_def map_sum_eq_Inr)
  have "scp_inv exampleDriver scp" "map_of (mKnownSlots scp) 5 = map_of (mKnownSlots exampleSCP) 5" using one op by auto
  moreover have "the (map_of (mKnownSlots scp) 1) = s" by (simp add: s(2) putSlot_def)
  ultimately show ?thesis using s(1) run k by (intro exI [of _ scp] exI [of _ r]) simp
qed

end
