(* ===== verification/Key_Map.thy ===== *)
theory Key_Map
  imports Prelude
begin

text \<open>
  \<open>std::map<K, V, Cmp>\<close> and \<open>std::set<K, Cmp>\<close> with a comparison of their own. Two keys that the
  comparison does not separate are the same key for the container, although they need not be equal:
  a lookup with one finds the element stored under the other, and an assignment through the one
  keeps the other in the node.

  Containers are lists in the order of the comparison, \<open>lt\<close>. The locale \<open>key_order\<close> says that the
  comparison is the order of an identity of keys; in it, every operation is the operation of a map
  from identities (\<open>omap\<close> and \<open>oset\<close> of the prelude). On a linear order the identity is the key.
\<close>

section \<open>Definitions\<close>

definition equivKeys :: "('k \<Rightarrow> 'k \<Rightarrow> bool) \<Rightarrow> 'k \<Rightarrow> 'k \<Rightarrow> bool" where
  "equivKeys lt a b = (\<not> lt a b \<and> \<not> lt b a)"

fun kmap_find :: "('k \<Rightarrow> 'k \<Rightarrow> bool) \<Rightarrow> 'k \<Rightarrow> ('k \<times> 'v) list \<Rightarrow> 'v option" where
  "kmap_find lt k [] = None"
| "kmap_find lt k ((k', v) # m) = (if equivKeys lt k k' then Some v else kmap_find lt k m)"

text \<open>\<open>m[k] = v\<close>\<close>

fun kmap_put :: "('k \<Rightarrow> 'k \<Rightarrow> bool) \<Rightarrow> 'k \<Rightarrow> 'v \<Rightarrow> ('k \<times> 'v) list \<Rightarrow> ('k \<times> 'v) list" where
  "kmap_put lt k v [] = [(k, v)]"
| "kmap_put lt k v ((k', v') # m) =
     (if equivKeys lt k k' then (k', v) # m
      else if lt k k' then (k, v) # (k', v') # m
      else (k', v') # kmap_put lt k v m)"

text \<open>\<open>insert\<close> leaves an element that is already there.\<close>

definition kmap_insert :: "('k \<Rightarrow> 'k \<Rightarrow> bool) \<Rightarrow> 'k \<Rightarrow> 'v \<Rightarrow> ('k \<times> 'v) list \<Rightarrow> ('k \<times> 'v) list" where
  "kmap_insert lt k v m = (if kmap_find lt k m = None then kmap_put lt k v m else m)"

definition kmap_erase :: "('k \<Rightarrow> 'k \<Rightarrow> bool) \<Rightarrow> 'k \<Rightarrow> ('k \<times> 'v) list \<Rightarrow> ('k \<times> 'v) list" where
  "kmap_erase lt k m = filter (\<lambda>kv. \<not> equivKeys lt k (fst kv)) m"

definition kset_member :: "('k \<Rightarrow> 'k \<Rightarrow> bool) \<Rightarrow> 'k \<Rightarrow> 'k list \<Rightarrow> bool" where
  "kset_member lt k s = list_ex (equivKeys lt k) s"

definition kset_insert :: "('k \<Rightarrow> 'k \<Rightarrow> bool) \<Rightarrow> 'k \<Rightarrow> 'k list \<Rightarrow> 'k list" where
  "kset_insert lt k s =
     (if kset_member lt k s then s else takeWhile (\<lambda>x. lt x k) s @ k # dropWhile (\<lambda>x. lt x k) s)"

definition kset_erase :: "('k \<Rightarrow> 'k \<Rightarrow> bool) \<Rightarrow> 'k \<Rightarrow> 'k list \<Rightarrow> 'k list" where
  "kset_erase lt k s = filter (\<lambda>x. \<not> equivKeys lt k x) s"

section \<open>On a linear order\<close>

lemma equivKeys_less [simp]: "equivKeys (<) a b \<longleftrightarrow> a = b" for a :: "'k::linorder"
  by (auto simp: equivKeys_def)

lemma kmap_find_less [simp]: "kmap_find (<) k m = map_of m k" for k :: "'k::linorder"
  by (induction m) auto

lemma kmap_put_less [simp]: "kmap_put (<) k v m = omap_put k v m" for k :: "'k::linorder"
  by (induction k v m rule: omap_put.induct) auto

lemma kmap_erase_less [simp]: "kmap_erase (<) k m = omap_erase k m" for k :: "'k::linorder"
  by (auto simp: kmap_erase_def omap_erase_def intro: filter_cong)

lemma kset_member_less [simp]: "kset_member (<) k s \<longleftrightarrow> k \<in> set s" for k :: "'k::linorder"
  by (auto simp: kset_member_def list_ex_iff)

lemma kset_erase_less [simp]: "kset_erase (<) k s = removeAll k s" for k :: "'k::linorder"
  by (simp add: kset_erase_def removeAll_filter_not_eq)

lemma insort_split:
  "x \<notin> set xs \<Longrightarrow> takeWhile (\<lambda>y. y < x) xs @ x # dropWhile (\<lambda>y. y < x) xs = insort x xs" for x :: "'k::linorder"
  by (induction xs) auto

lemma kset_insert_less [simp]: "kset_insert (<) k s = oset_insert k s" for k :: "'k::linorder"
  by (simp add: kset_insert_def insort_insert_key_def insort_split)

section \<open>By the identity of keys\<close>

text \<open>A map and a set by the identities of their keys.\<close>

definition identMap :: "('k \<Rightarrow> 'i) \<Rightarrow> ('k \<times> 'v) list \<Rightarrow> ('i \<times> 'v) list" where
  "identMap ident m = map (\<lambda>(k, v). (ident k, v)) m"

lemma identMap_simps [simp]:
  "identMap ident [] = []" "identMap ident ((k, v) # m) = (ident k, v) # identMap ident m"
  "map snd (identMap ident m) = map snd m" "map fst (identMap ident m) = map (\<lambda>kv. ident (fst kv)) m"
  by (induction m) (auto simp: identMap_def)

locale key_order =
  fixes lt :: "'k \<Rightarrow> 'k \<Rightarrow> bool" and ident :: "'k \<Rightarrow> 'i::linorder"
  assumes lt_ident: "lt a b \<longleftrightarrow> ident a < ident b"
begin

lemma equiv_ident [simp]: "equivKeys lt a b \<longleftrightarrow> ident a = ident b"
  by (auto simp: equivKeys_def lt_ident)

lemma find_ident: "kmap_find lt k m = map_of (identMap ident m) (ident k)"
  by (induction m) auto

lemma put_ident: "identMap ident (kmap_put lt k v m) = omap_put (ident k) v (identMap ident m)"
  by (induction m) (auto simp: lt_ident equivKeys_def)

lemma erase_ident: "identMap ident (kmap_erase lt k m) = omap_erase (ident k) (identMap ident m)"
  by (induction m) (auto simp: kmap_erase_def omap_erase_def)

lemma member_ident: "kset_member lt k s \<longleftrightarrow> ident k \<in> set (map ident s)"
  by (auto simp: kset_member_def list_ex_iff)

lemma set_erase_ident: "map ident (kset_erase lt k s) = removeAll (ident k) (map ident s)"
  by (induction s) (auto simp: kset_erase_def)

lemma set_insert_ident: "map ident (kset_insert lt k s) = oset_insert (ident k) (map ident s)"
proof -
  have "map ident (takeWhile (\<lambda>x. lt x k) s @ k # dropWhile (\<lambda>x. lt x k) s) = insort (ident k) (map ident s)"
    if "ident k \<notin> set (map ident s)"
    using insort_split [OF that] by (simp add: lt_ident takeWhile_map dropWhile_map comp_def)
  then show ?thesis by (simp add: kset_insert_def member_ident insort_insert_key_def)
qed

lemmas containers_ident = find_ident put_ident erase_ident member_ident set_erase_ident set_insert_ident

end

interpretation linear_keys: key_order "(<) :: 'k::linorder \<Rightarrow> 'k \<Rightarrow> bool" "\<lambda>k. k"
  by unfold_locales simp

end
