(* ===== verification/Ledger_Keys.thy ===== *)
theory Ledger_Keys
  imports Key_Map
begin

text \<open>
  The identity order of ledger entries, \<open>src/src/bucket/LedgerCmp.h\<close>, with the keys that
  \<open>EntryHelper::getLedgerKey\<close> builds for each kind of entry (\<open>src/src/ledger/*Helper.cpp\<close>).

  \<open>LedgerKey\<close> has one constructor per kind, with the fields its helper copies. Account and
  balance identifiers are 256-bit keys; codes and references are byte strings. The XDR
  definitions are not among the sources, so the numeric values of \<open>LedgerEntryType\<close> are a
  parameter \<open>tyv\<close>, which an enumeration makes injective; \<open>hex\<close> is \<open>sodium_bin2hex\<close>, which
  writes every byte as two lower-case hexadecimal digits.

  The lemmas show that the comparison is the lexicographic order of an identity tuple, hence a
  strict weak order, and which keys it identifies. It is the order of the maps keyed by ledger keys
  (\<open>key_order\<close>): the two references of different senders with the same text are one key for them.
\<close>

section \<open>Definitions\<close>

datatype LedgerEntryType =
    ACCOUNT | FEE | BALANCE | PAYMENT_REQUEST | ASSET | ACCOUNT_TYPE_LIMITS | STATISTICS
  | REFERENCE_ENTRY | TRUST | ACCOUNT_LIMITS | ASSET_PAIR | OFFER_ENTRY | INVOICE
  | REVIEWABLE_REQUEST | EXTERNAL_SYSTEM_ACCOUNT_ID | SALE

datatype LedgerKey =
    AccountKey hash256
  | FeeKey bytes int int
  | BalanceKey hash256
  | PaymentRequestKey u64
  | AssetKey bytes
  | AccountTypeLimitsKey int
  | StatisticsKey hash256
  | ReferenceKey hash256 bytes
  | TrustKey hash256 hash256
  | AccountLimitsKey hash256
  | AssetPairKey bytes bytes
  | OfferKey u64 hash256
  | InvoiceKey u64
  | ReviewableRequestKey u64
  | ExternalSystemAccountIDKey hash256 int
  | SaleKey u64

fun keyType :: "LedgerKey \<Rightarrow> LedgerEntryType" where
  "keyType (AccountKey _) = ACCOUNT"
| "keyType (FeeKey _ _ _) = FEE"
| "keyType (BalanceKey _) = BALANCE"
| "keyType (PaymentRequestKey _) = PAYMENT_REQUEST"
| "keyType (AssetKey _) = ASSET"
| "keyType (AccountTypeLimitsKey _) = ACCOUNT_TYPE_LIMITS"
| "keyType (StatisticsKey _) = STATISTICS"
| "keyType (ReferenceKey _ _) = REFERENCE_ENTRY"
| "keyType (TrustKey _ _) = TRUST"
| "keyType (AccountLimitsKey _) = ACCOUNT_LIMITS"
| "keyType (AssetPairKey _ _) = ASSET_PAIR"
| "keyType (OfferKey _ _) = OFFER_ENTRY"
| "keyType (InvoiceKey _) = INVOICE"
| "keyType (ReviewableRequestKey _) = REVIEWABLE_REQUEST"
| "keyType (ExternalSystemAccountIDKey _ _) = EXTERNAL_SYSTEM_ACCOUNT_ID"
| "keyType (SaleKey _) = SALE"

text \<open>The branch of the \<open>switch\<close> for two keys of the same kind.\<close>

definition sameTypeCmp :: "(bytes \<Rightarrow> bytes) \<Rightarrow> LedgerKey \<Rightarrow> LedgerKey \<Rightarrow> bool" where
  "sameTypeCmp hex x y =
     (case x of
        AccountKey a \<Rightarrow> (case y of AccountKey b \<Rightarrow> a < b | _ \<Rightarrow> False)
      | FeeKey ha la ua \<Rightarrow> (case y of FeeKey hb lb ub \<Rightarrow>
          (let hashAStr = hex ha; hashBStr = hex hb in
           if hashAStr < hashBStr then True
           else if hashBStr < hashAStr then False
           else if la < lb then True
           else if lb < la then False
           else ua < ub) | _ \<Rightarrow> False)
      | BalanceKey a \<Rightarrow> (case y of BalanceKey b \<Rightarrow> a < b | _ \<Rightarrow> False)
      | PaymentRequestKey a \<Rightarrow> (case y of PaymentRequestKey b \<Rightarrow> a < b | _ \<Rightarrow> False)
      | AssetKey a \<Rightarrow> (case y of AssetKey b \<Rightarrow> a < b | _ \<Rightarrow> False)
      | AccountTypeLimitsKey a \<Rightarrow> (case y of AccountTypeLimitsKey b \<Rightarrow> a < b | _ \<Rightarrow> False)
      | StatisticsKey a \<Rightarrow> (case y of StatisticsKey b \<Rightarrow> a < b | _ \<Rightarrow> False)
      | ReferenceKey sa ra \<Rightarrow> (case y of ReferenceKey sb rb \<Rightarrow> ra < rb | _ \<Rightarrow> False)
      | TrustKey ba aa \<Rightarrow> (case y of TrustKey bb ab \<Rightarrow> if ba < bb then True else if bb < ba then False else aa < ab | _ \<Rightarrow> False)
      | AccountLimitsKey a \<Rightarrow> (case y of AccountLimitsKey b \<Rightarrow> a < b | _ \<Rightarrow> False)
      | AssetPairKey ba qa \<Rightarrow> (case y of AssetPairKey bb qb \<Rightarrow> if ba < bb then True else if bb < ba then False else qa < qb | _ \<Rightarrow> False)
      | OfferKey ia wa \<Rightarrow> (case y of OfferKey ib wb \<Rightarrow> if ia < ib then True else if ib < ia then False else wa < wb | _ \<Rightarrow> False)
      | InvoiceKey a \<Rightarrow> (case y of InvoiceKey b \<Rightarrow> a < b | _ \<Rightarrow> False)
      | ReviewableRequestKey a \<Rightarrow> (case y of ReviewableRequestKey b \<Rightarrow> a < b | _ \<Rightarrow> False)
      | ExternalSystemAccountIDKey aa ta \<Rightarrow> (case y of ExternalSystemAccountIDKey ab tb \<Rightarrow> if aa < ab then True else if ab < aa then False else ta < tb | _ \<Rightarrow> False)
      | SaleKey a \<Rightarrow> (case y of SaleKey b \<Rightarrow> a < b | _ \<Rightarrow> False))"

definition LedgerEntryIdCmp ::
  "(LedgerEntryType \<Rightarrow> int) \<Rightarrow> (bytes \<Rightarrow> bytes) \<Rightarrow> LedgerKey \<Rightarrow> LedgerKey \<Rightarrow> bool" where
  "LedgerEntryIdCmp tyv hex a b =
     (if tyv (keyType a) < tyv (keyType b) then True
      else if tyv (keyType a) > tyv (keyType b) then False
      else sameTypeCmp hex a b)"

datatype ('k, 'e) BucketEntry = LIVEENTRY 'e | DEADENTRY 'k

text \<open>
  \<open>cmp\<close> compares the identity fields, which entries and keys both have: \<open>key\<close> reads them off
  an entry.
\<close>

fun BucketEntryIdCmp ::
  "('k \<Rightarrow> 'k \<Rightarrow> bool) \<Rightarrow> ('e \<Rightarrow> 'k) \<Rightarrow> ('k, 'e) BucketEntry \<Rightarrow> ('k, 'e) BucketEntry \<Rightarrow> bool" where
  "BucketEntryIdCmp cmp key (LIVEENTRY a) (LIVEENTRY b) = cmp (key a) (key b)"
| "BucketEntryIdCmp cmp key (LIVEENTRY a) (DEADENTRY b) = cmp (key a) b"
| "BucketEntryIdCmp cmp key (DEADENTRY a) (LIVEENTRY b) = cmp a (key b)"
| "BucketEntryIdCmp cmp key (DEADENTRY a) (DEADENTRY b) = cmp a b"

section \<open>The identity tuple\<close>

text \<open>The documented behaviour of \<open>sodium_bin2hex\<close>.\<close>

definition hexDigit :: "u8 \<Rightarrow> u8" where
  "hexDigit n = (if n < 10 then 48 + n else 87 + n)"

definition lowerHex :: "bytes \<Rightarrow> bytes" where
  "lowerHex bs = concat (map (\<lambda>b. [hexDigit (b div 16), hexDigit (b mod 16)]) bs)"

fun keyFields :: "(bytes \<Rightarrow> bytes) \<Rightarrow> LedgerKey \<Rightarrow> int list list" where
  "keyFields hex (AccountKey a) = [[uint a]]"
| "keyFields hex (FeeKey h l u) = [map uint (hex h), [l], [u]]"
| "keyFields hex (BalanceKey a) = [[uint a]]"
| "keyFields hex (PaymentRequestKey a) = [[uint a]]"
| "keyFields hex (AssetKey a) = [map uint a]"
| "keyFields hex (AccountTypeLimitsKey a) = [[a]]"
| "keyFields hex (StatisticsKey a) = [[uint a]]"
| "keyFields hex (ReferenceKey s a) = [map uint a]"
| "keyFields hex (TrustKey b a) = [[uint b], [uint a]]"
| "keyFields hex (AccountLimitsKey a) = [[uint a]]"
| "keyFields hex (AssetPairKey b q) = [map uint b, map uint q]"
| "keyFields hex (OfferKey i w) = [[uint i], [uint w]]"
| "keyFields hex (InvoiceKey a) = [[uint a]]"
| "keyFields hex (ReviewableRequestKey a) = [[uint a]]"
| "keyFields hex (ExternalSystemAccountIDKey a t) = [[uint a], [t]]"
| "keyFields hex (SaleKey a) = [[uint a]]"

definition keyIdent :: "(LedgerEntryType \<Rightarrow> int) \<Rightarrow> (bytes \<Rightarrow> bytes) \<Rightarrow> LedgerKey \<Rightarrow> int list list" where
  "keyIdent tyv hex k = [tyv (keyType k)] # keyFields hex k"

fun forgetSender :: "LedgerKey \<Rightarrow> LedgerKey" where
  "forgetSender (ReferenceKey s r) = ReferenceKey 0 r"
| "forgetSender k = k"

lemma map_uint_less: "map uint xs < map uint ys \<longleftrightarrow> xs < (ys :: 'a::len word list)"
proof (induction xs arbitrary: ys)
  case Nil
  then show ?case by (cases ys) auto
next
  case (Cons x xs)
  then show ?case by (cases ys) (simp_all add: word_less_def word_uint_eq_iff)
qed

lemma map_uint_eq: "map uint xs = map uint ys \<longleftrightarrow> xs = (ys :: 'a::len word list)"
  by (rule inj_map_eq_map) (simp add: inj_def word_uint_eq_iff)

lemma sameTypeCmp_fields:
  "keyType a = keyType b \<Longrightarrow> sameTypeCmp hex a b \<longleftrightarrow> keyFields hex a < keyFields hex b"
  by (cases a; cases b) (simp_all add: sameTypeCmp_def map_uint_less map_uint_eq word_less_def word_uint_eq_iff Let_def, auto?)

lemma LedgerEntryIdCmp_ident:
  assumes "inj tyv"
  shows "LedgerEntryIdCmp tyv hex a b \<longleftrightarrow> keyIdent tyv hex a < keyIdent tyv hex b"
proof (cases "keyType a = keyType b")
  case True
  then show ?thesis by (simp add: LedgerEntryIdCmp_def keyIdent_def sameTypeCmp_fields)
next
  case False
  then have "tyv (keyType a) \<noteq> tyv (keyType b)" using assms by (simp add: inj_eq)
  then show ?thesis by (auto simp: LedgerEntryIdCmp_def keyIdent_def)
qed

lemma inj_lowerHex: "inj lowerHex"
proof (rule injI)
  have digit: "x = y" if "hexDigit x = hexDigit y" "x < 16" "y < 16" for x y :: u8
  proof -
    have *: "uint (hexDigit x) = (if uint x < 10 then 48 + uint x else 87 + uint x)" if "x < 16" for x :: u8
      using that by (auto simp: hexDigit_def word_less_def uint_word_ariths)
    show ?thesis using * [OF that(2)] * [OF that(3)] that by (auto simp: word_uint_eq_iff word_less_def split: if_splits)
  qed
  have byte: "x = y" if "x div 16 = y div 16" "x mod 16 = y mod 16" for x y :: u8
    using that by (metis div_mult_mod_eq)
  have bound: "x div 16 < 16" "x mod 16 < 16" for x :: u8
    using uint_lt2p [of x] by (simp_all add: word_less_def uint_div uint_mod)
  fix xs ys
  show "lowerHex xs = lowerHex ys \<Longrightarrow> xs = ys"
  proof (induction xs arbitrary: ys)
    case Nil
    then show ?case by (cases ys) (auto simp: lowerHex_def)
  next
    case (Cons x xs)
    then obtain y zs where ys: "ys = y # zs" by (cases ys) (auto simp: lowerHex_def)
    with Cons.prems have "hexDigit (x div 16) = hexDigit (y div 16)" "hexDigit (x mod 16) = hexDigit (y mod 16)"
      "lowerHex xs = lowerHex zs" by (auto simp: lowerHex_def)
    then show ?case using digit bound byte Cons.IH ys by metis
  qed
qed

lemma keyFields_eq:
  assumes "inj hex"
  shows "keyType a = keyType b \<and> keyFields hex a = keyFields hex b \<longleftrightarrow> forgetSender a = forgetSender b"
  using assms by (cases a; cases b) (auto simp: map_uint_eq inj_eq)

lemma keyIdent_eq:
  assumes "inj tyv" "inj hex"
  shows "keyIdent tyv hex a = keyIdent tyv hex b \<longleftrightarrow> forgetSender a = forgetSender b"
  using keyFields_eq [OF assms(2), of a b] assms(1) by (auto simp: keyIdent_def inj_eq)

section \<open>The order of the maps keyed by ledger keys\<close>

text \<open>The numbers of an enumeration.\<close>

locale entry_types =
  fixes tyv :: "LedgerEntryType \<Rightarrow> int"
  assumes inj_tyv: "inj tyv"
begin

lemma ident_iff: "keyIdent tyv lowerHex a = keyIdent tyv lowerHex b \<longleftrightarrow> forgetSender a = forgetSender b"
  by (rule keyIdent_eq [OF inj_tyv inj_lowerHex])

end

sublocale entry_types \<subseteq> key_order "LedgerEntryIdCmp tyv lowerHex" "keyIdent tyv lowerHex"
  by unfold_locales (rule LedgerEntryIdCmp_ident [OF inj_tyv])

text \<open>The numbers an enumeration has when none is written: the positions of its members.\<close>

fun positionValue :: "LedgerEntryType \<Rightarrow> int" where
  "positionValue ACCOUNT = 0"
| "positionValue FEE = 1"
| "positionValue BALANCE = 2"
| "positionValue PAYMENT_REQUEST = 3"
| "positionValue ASSET = 4"
| "positionValue ACCOUNT_TYPE_LIMITS = 5"
| "positionValue STATISTICS = 6"
| "positionValue REFERENCE_ENTRY = 7"
| "positionValue TRUST = 8"
| "positionValue ACCOUNT_LIMITS = 9"
| "positionValue ASSET_PAIR = 10"
| "positionValue OFFER_ENTRY = 11"
| "positionValue INVOICE = 12"
| "positionValue REVIEWABLE_REQUEST = 13"
| "positionValue EXTERNAL_SYSTEM_ACCOUNT_ID = 14"
| "positionValue SALE = 15"

interpretation positions: entry_types positionValue
proof
  show "inj positionValue"
  proof (rule injI)
    fix x y
    show "positionValue x = positionValue y \<Longrightarrow> x = y" by (cases x; cases y) simp_all
  qed
qed

end
