(* ===== verification/Ledger_Delta.thy ===== *)
theory Ledger_Delta
  imports Key_Map
begin

text \<open>
  \<open>src/src/ledger/LedgerDelta.cpp\<close>: the set of changes a transaction, an operation or a whole
  ledger close makes to the ledger entries, kept until it is committed into the enclosing delta
  or rolled back.

  The maps are \<open>std::map<LedgerKey, EntryFrame::pointer, LedgerEntryIdCmp>\<close>: \<open>lt\<close> is that
  comparison, which need not separate different keys. \<open>getKey\<close> stands for \<open>EntryFrame::getKey\<close>,
  \<open>ledgerSeq\<close> and \<open>lastModified\<close> for the fields of the XDR header and entry. A null \<open>mHeader\<close> is \<open>mHeaderSet = False\<close>; what it points
  to, the header of the enclosing delta or the header of the ledger, is the \<open>parent\<close> argument
  of \<open>commit\<close>, together with \<open>mOuterDelta\<close>. The database and its entry cache are finite maps.

  The lemmas relate a delta to the map of entries it is applied to: every operation is the
  corresponding update of that map, a nested commit is the composition of two deltas, and the
  change lists a delta reports replay to the same map. They are proved for keys in a linear order
  first; under a comparison that is the order of an identity of keys, a delta seen by the
  identities of its keys (\<open>identDelta\<close>) makes the same steps as the delta does.
\<close>

section \<open>Definitions\<close>

datatype ('k, 'e) LedgerEntryChange =
    CREATED 'e
  | UPDATED 'e
  | REMOVED 'k
  | STATE 'e

record ('k, 'e, 'h) LedgerDelta =
  mHeaderSet :: bool
  mCurrentHeader :: 'h
  mPreviousHeaderValue :: 'h
  mNew :: "('k, 'e) omap"
  mMod :: "('k, 'e) omap"
  mDelete :: "'k oset"
  mAllChanges :: "('k, 'e) LedgerEntryChange list"
  mPrevious :: "('k, 'e) omap"
  mUpdateLastModified :: bool

definition newDelta :: "'h \<Rightarrow> bool \<Rightarrow> ('k, 'e, 'h) LedgerDelta" where
  "newDelta header updateLastModified =
     \<lparr>mHeaderSet = True, mCurrentHeader = header, mPreviousHeaderValue = header,
      mNew = [], mMod = [], mDelete = [], mAllChanges = [], mPrevious = [],
      mUpdateLastModified = updateLastModified\<rparr>"

definition nestedDelta :: "('k, 'e, 'h) LedgerDelta \<Rightarrow> ('k, 'e, 'h) LedgerDelta" where
  "nestedDelta outerDelta =
     \<lparr>mHeaderSet = True, mCurrentHeader = mCurrentHeader outerDelta,
      mPreviousHeaderValue = mCurrentHeader outerDelta,
      mNew = [], mMod = [], mDelete = [], mAllChanges = [], mPrevious = [],
      mUpdateLastModified = mUpdateLastModified outerDelta\<rparr>"

definition checkState :: "('k, 'e, 'h) LedgerDelta \<Rightarrow> cxx_error + unit" where
  "checkState d =
     assertE (mHeaderSet d) (RuntimeError ''Invalid operation: delta is already committed'')"

definition addEntry ::
  "('k \<Rightarrow> 'k \<Rightarrow> bool) \<Rightarrow> ('e \<Rightarrow> 'k) \<Rightarrow> 'e \<Rightarrow> ('k, 'e, 'h) LedgerDelta \<Rightarrow> cxx_error + ('k, 'e, 'h) LedgerDelta" where
  "addEntry lt getKey entry d =
     bindE (checkState d) (\<lambda>_.
       let k = getKey entry in
       bindE (if kset_member lt k (mDelete d)
              then Inr (d\<lparr>mDelete := kset_erase lt k (mDelete d), mMod := kmap_put lt k entry (mMod d)\<rparr>)
              else bindE (assertE (kmap_find lt k (mNew d) = None) AssertFail) (\<lambda>_.
                   bindE (assertE (kmap_find lt k (mMod d) = None) AssertFail) (\<lambda>_.
                     Inr (d\<lparr>mNew := kmap_put lt k entry (mNew d)\<rparr>)))) (\<lambda>d.
       Inr (d\<lparr>mAllChanges := mAllChanges d @ [CREATED entry]\<rparr>)))"

definition deleteEntry ::
  "('k \<Rightarrow> 'k \<Rightarrow> bool) \<Rightarrow> 'k \<Rightarrow> ('k, 'e, 'h) LedgerDelta \<Rightarrow> cxx_error + ('k, 'e, 'h) LedgerDelta" where
  "deleteEntry lt k d =
     bindE (checkState d) (\<lambda>_.
       let d = (if kmap_find lt k (mNew d) \<noteq> None
                then d\<lparr>mNew := kmap_erase lt k (mNew d)\<rparr>
                else d\<lparr>mDelete := kset_insert lt k (mDelete d), mMod := kmap_erase lt k (mMod d)\<rparr>) in
       Inr (d\<lparr>mAllChanges := mAllChanges d @ [REMOVED k]\<rparr>))"

definition deleteEntryFrame ::
  "('k \<Rightarrow> 'k \<Rightarrow> bool) \<Rightarrow> ('e \<Rightarrow> 'k) \<Rightarrow> 'e \<Rightarrow> ('k, 'e, 'h) LedgerDelta \<Rightarrow> cxx_error + ('k, 'e, 'h) LedgerDelta" where
  "deleteEntryFrame lt getKey entry d = deleteEntry lt (getKey entry) d"

definition modEntry ::
  "('k \<Rightarrow> 'k \<Rightarrow> bool) \<Rightarrow> ('e \<Rightarrow> 'k) \<Rightarrow> 'e \<Rightarrow> ('k, 'e, 'h) LedgerDelta \<Rightarrow> cxx_error + ('k, 'e, 'h) LedgerDelta" where
  "modEntry lt getKey entry d =
     bindE (checkState d) (\<lambda>_.
       let k = getKey entry in
       bindE (if kmap_find lt k (mMod d) \<noteq> None then Inr (d\<lparr>mMod := kmap_put lt k entry (mMod d)\<rparr>)
              else if kmap_find lt k (mNew d) \<noteq> None then Inr (d\<lparr>mNew := kmap_put lt k entry (mNew d)\<rparr>)
              else bindE (assertE (\<not> kset_member lt k (mDelete d)) AssertFail) (\<lambda>_.
                     Inr (d\<lparr>mMod := kmap_put lt k entry (mMod d)\<rparr>))) (\<lambda>d.
       Inr (d\<lparr>mAllChanges := mAllChanges d @ [UPDATED entry]\<rparr>)))"

definition recordEntry ::
  "('k \<Rightarrow> 'k \<Rightarrow> bool) \<Rightarrow> ('e \<Rightarrow> 'k) \<Rightarrow> 'e \<Rightarrow> ('k, 'e, 'h) LedgerDelta \<Rightarrow> cxx_error + ('k, 'e, 'h) LedgerDelta" where
  "recordEntry lt getKey entry d =
     bindE (checkState d) (\<lambda>_.
       Inr (d\<lparr>mPrevious := kmap_insert lt (getKey entry) entry (mPrevious d)\<rparr>))"

definition recordPrevious ::
  "('k \<Rightarrow> 'k \<Rightarrow> bool) \<Rightarrow> ('e \<Rightarrow> 'k) \<Rightarrow> ('k \<times> 'e) list \<Rightarrow> 'k \<Rightarrow> ('k, 'e, 'h) LedgerDelta
     \<Rightarrow> cxx_error + ('k, 'e, 'h) LedgerDelta" where
  "recordPrevious lt getKey previous k d =
     (case kmap_find lt k previous of None \<Rightarrow> Inr d | Some e \<Rightarrow> recordEntry lt getKey e d)"

text \<open>A range-based \<open>for\<close> whose body may throw.\<close>

fun foldE :: "('a \<Rightarrow> 's \<Rightarrow> 'err + 's) \<Rightarrow> 'a list \<Rightarrow> 's \<Rightarrow> 'err + 's" where
  "foldE f [] s = Inr s"
| "foldE f (x # xs) s = bindE (f x s) (foldE f xs)"

definition mergeEntries ::
  "('k \<Rightarrow> 'k \<Rightarrow> bool) \<Rightarrow> ('e \<Rightarrow> 'k) \<Rightarrow> ('k, 'e, 'h) LedgerDelta \<Rightarrow> ('k, 'e, 'h) LedgerDelta
     \<Rightarrow> cxx_error + ('k, 'e, 'h) LedgerDelta" where
  "mergeEntries lt getKey other d =
     bindE (checkState d) (\<lambda>_.
     bindE (foldE (\<lambda>k d. bindE (deleteEntry lt k d) (recordPrevious lt getKey (mPrevious other) k))
              (mDelete other) d) (\<lambda>d.
     bindE (foldE (\<lambda>n d. addEntry lt getKey (snd n) d) (mNew other) d) (\<lambda>d.
       foldE (\<lambda>m d. bindE (modEntry lt getKey (snd m) d) (recordPrevious lt getKey (mPrevious other) (fst m)))
         (mMod other) d)))"

datatype ('k, 'e, 'h) parent =
    OuterDelta "('k, 'e, 'h) LedgerDelta"
  | HeaderOf 'h

fun parentHeader :: "('k, 'e, 'h) parent \<Rightarrow> 'h" where
  "parentHeader (OuterDelta d) = mCurrentHeader d"
| "parentHeader (HeaderOf h) = h"

definition commit ::
  "('k \<Rightarrow> 'k \<Rightarrow> bool) \<Rightarrow> ('e \<Rightarrow> 'k) \<Rightarrow> ('k, 'e, 'h) parent \<Rightarrow> ('k, 'e, 'h) LedgerDelta
     \<Rightarrow> cxx_error + (('k, 'e, 'h) parent \<times> ('k, 'e, 'h) LedgerDelta)" where
  "commit lt getKey p d =
     bindE (checkState d) (\<lambda>_.
     bindE (assertE (mPreviousHeaderValue d = parentHeader p)
              (RuntimeError ''unexpected header state'')) (\<lambda>_.
     bindE (case p of
              OuterDelta outer \<Rightarrow>
                bindE (mergeEntries lt getKey d outer) (\<lambda>outer.
                  Inr (OuterDelta (outer\<lparr>mCurrentHeader := mCurrentHeader d\<rparr>)))
            | HeaderOf _ \<Rightarrow> Inr (HeaderOf (mCurrentHeader d))) (\<lambda>p.
       Inr (p, d\<lparr>mHeaderSet := False\<rparr>))))"

text \<open>\<open>EntryHelper::flushCachedEntry\<close> erases a key from the entry cache, when it is there.\<close>

definition flushCachedEntry :: "'k \<Rightarrow> ('k \<rightharpoonup> 'e option) \<Rightarrow> ('k \<rightharpoonup> 'e option)" where
  "flushCachedEntry k cache = cache(k := None)"

definition rollback ::
  "('k, 'e, 'h) LedgerDelta \<Rightarrow> ('k \<rightharpoonup> 'e option)
     \<Rightarrow> cxx_error + (('k, 'e, 'h) LedgerDelta \<times> ('k \<rightharpoonup> 'e option))" where
  "rollback d cache =
     bindE (checkState d) (\<lambda>_.
       let cache = fold flushCachedEntry (mDelete d) cache;
           cache = fold (\<lambda>n. flushCachedEntry (fst n)) (mNew d) cache;
           cache = fold (\<lambda>m. flushCachedEntry (fst m)) (mMod d) cache
       in Inr (d\<lparr>mHeaderSet := False\<rparr>, cache))"

definition destroyDelta ::
  "('k, 'e, 'h) LedgerDelta \<Rightarrow> ('k \<rightharpoonup> 'e option)
     \<Rightarrow> cxx_error + (('k, 'e, 'h) LedgerDelta \<times> ('k \<rightharpoonup> 'e option))" where
  "destroyDelta d cache = (if mHeaderSet d then rollback d cache else Inr (d, cache))"

definition addCurrentMeta ::
  "('k \<Rightarrow> 'k \<Rightarrow> bool) \<Rightarrow> ('e \<Rightarrow> u32) \<Rightarrow> ('h \<Rightarrow> u32) \<Rightarrow> ('k, 'e, 'h) LedgerDelta \<Rightarrow> 'k \<Rightarrow> ('k, 'e) LedgerEntryChange list" where
  "addCurrentMeta lt lastModified ledgerSeq d key =
     (case kmap_find lt key (mPrevious d) of
        None \<Rightarrow> []
      | Some e \<Rightarrow> if lastModified e \<noteq> ledgerSeq (mCurrentHeader d) then [STATE e] else [])"

definition getChanges ::
  "('k \<Rightarrow> 'k \<Rightarrow> bool) \<Rightarrow> ('e \<Rightarrow> u32) \<Rightarrow> ('h \<Rightarrow> u32) \<Rightarrow> ('k, 'e, 'h) LedgerDelta \<Rightarrow> ('k, 'e) LedgerEntryChange list" where
  "getChanges lt lastModified ledgerSeq d =
     map (\<lambda>n. CREATED (snd n)) (mNew d)
     @ concat (map (\<lambda>m. addCurrentMeta lt lastModified ledgerSeq d (fst m) @ [UPDATED (snd m)]) (mMod d))
     @ concat (map (\<lambda>k. addCurrentMeta lt lastModified ledgerSeq d k @ [REMOVED k]) (mDelete d))"

definition getAllChanges :: "('k, 'e, 'h) LedgerDelta \<Rightarrow> ('k, 'e) LedgerEntryChange list" where
  "getAllChanges d = mAllChanges d"

definition getLiveEntries :: "('k, 'e, 'h) LedgerDelta \<Rightarrow> 'e list" where
  "getLiveEntries d = map snd (mNew d) @ map snd (mMod d)"

definition getDeadEntries :: "('k, 'e, 'h) LedgerDelta \<Rightarrow> 'k list" where
  "getDeadEntries d = mDelete d"

text \<open>
  \<open>EntryHelperProvider::checkAgainstDatabase\<close> loads the entry past the cache and compares it;
  the text of the exception is its constant prefix.
\<close>

definition checkEntryAgainstDatabase ::
  "('e \<Rightarrow> 'k) \<Rightarrow> ('k \<rightharpoonup> 'e) \<Rightarrow> 'e \<Rightarrow> cxx_error + unit" where
  "checkEntryAgainstDatabase getKey db entry =
     (case db (getKey entry) of
        None \<Rightarrow> Inl (RuntimeError ''Inconsistent state between objects: '')
      | Some fromDb \<Rightarrow> if fromDb \<noteq> entry
                       then Inl (RuntimeError ''Inconsistent state between objects: '')
                       else Inr ())"

definition checkDeltaAgainstDatabase ::
  "bool \<Rightarrow> ('e \<Rightarrow> 'k) \<Rightarrow> ('k \<rightharpoonup> 'e) \<Rightarrow> ('k, 'e, 'h) LedgerDelta \<Rightarrow> cxx_error + unit" where
  "checkDeltaAgainstDatabase PARANOID_MODE getKey db d =
     (if \<not> PARANOID_MODE then Inr ()
      else bindE (foldE (\<lambda>l _. checkEntryAgainstDatabase getKey db l) (getLiveEntries d) ()) (\<lambda>_.
        foldE (\<lambda>k _. if db k \<noteq> None
                     then Inl (RuntimeError ''Inconsistent state ; entry should not exist in database: '')
                     else Inr ()) (getDeadEntries d) ()))"

section \<open>The map a delta describes\<close>

definition applyDelta :: "('k, 'e, 'h) LedgerDelta \<Rightarrow> ('k \<rightharpoonup> 'e) \<Rightarrow> ('k \<rightharpoonup> 'e)" where
  "applyDelta d B =
     (\<lambda>k. if k \<in> set (mDelete d) then None
          else case map_of (mNew d) k of Some e \<Rightarrow> Some e
               | None \<Rightarrow> (case map_of (mMod d) k of Some e \<Rightarrow> Some e | None \<Rightarrow> B k))"

fun replay1 :: "('e \<Rightarrow> 'k) \<Rightarrow> ('k, 'e) LedgerEntryChange \<Rightarrow> ('k \<rightharpoonup> 'e) \<Rightarrow> ('k \<rightharpoonup> 'e)" where
  "replay1 getKey (CREATED e) M = M(getKey e \<mapsto> e)"
| "replay1 getKey (UPDATED e) M = M(getKey e \<mapsto> e)"
| "replay1 getKey (REMOVED k) M = M(k := None)"
| "replay1 getKey (STATE e) M = M"

definition replay ::
  "('e \<Rightarrow> 'k) \<Rightarrow> ('k, 'e) LedgerEntryChange list \<Rightarrow> ('k \<rightharpoonup> 'e) \<Rightarrow> ('k \<rightharpoonup> 'e)" where
  "replay getKey cs M = fold (replay1 getKey) cs M"

definition keyed :: "('e \<Rightarrow> 'k) \<Rightarrow> ('k, 'e) omap \<Rightarrow> bool" where
  "keyed getKey m \<longleftrightarrow> (\<forall>(k, e) \<in> set m. getKey e = k)"

definition delta_ok :: "('e \<Rightarrow> 'k::linorder) \<Rightarrow> ('k \<rightharpoonup> 'e) \<Rightarrow> ('k, 'e, 'h) LedgerDelta \<Rightarrow> bool" where
  "delta_ok getKey B d \<longleftrightarrow>
     mHeaderSet d
     \<and> omap_ok (mNew d) \<and> omap_ok (mMod d) \<and> oset_ok (mDelete d) \<and> omap_ok (mPrevious d)
     \<and> keyed getKey (mNew d) \<and> keyed getKey (mMod d) \<and> keyed getKey (mPrevious d)
     \<and> fst ` set (mNew d) \<inter> dom B = {}
     \<and> fst ` set (mMod d) \<subseteq> dom B \<and> set (mDelete d) \<subseteq> dom B
     \<and> fst ` set (mMod d) \<inter> set (mDelete d) = {}
     \<and> replay getKey (mAllChanges d) B = applyDelta d B"


subsection \<open>Lookup lemmas\<close>

lemma in_keys: "k \<in> fst ` set m \<longleftrightarrow> map_of m k \<noteq> None"
  by (metis map_of_eq_None_iff)

lemma keyed_put: "keyed getKey m \<Longrightarrow> omap_ok m \<Longrightarrow> keyed getKey (omap_put (getKey e) e m)"
  unfolding keyed_def by (auto simp: omap_put_mem split: if_splits)

lemma keyed_erase: "keyed getKey m \<Longrightarrow> keyed getKey (omap_erase k m)"
  by (auto simp: keyed_def omap_erase_def)

lemma keyed_insert: "keyed getKey m \<Longrightarrow> omap_ok m \<Longrightarrow> keyed getKey (kmap_insert (<) (getKey e) e m)"
  by (simp add: kmap_insert_def keyed_put)

lemma omap_ok_insert: "omap_ok m \<Longrightarrow> omap_ok (kmap_insert (<) k e m)"
  by (simp add: kmap_insert_def omap_ok_put)

lemma fst_omap_erase [simp]: "fst ` set (omap_erase k m) = fst ` set m - {k}"
  by (auto simp: omap_erase_def)

lemma oset_ok_removeAll: "oset_ok xs \<Longrightarrow> oset_ok (removeAll k xs)"
  by (simp add: oset_ok_def distinct_removeAll removeAll_filter_not_eq sorted_filter [of "\<lambda>x. x", simplified])

lemma applyDelta_dom:
  "delta_ok getKey B d \<Longrightarrow> k \<in> dom (applyDelta d B) \<longleftrightarrow>
     k \<notin> set (mDelete d) \<and> (map_of (mNew d) k \<noteq> None \<or> k \<in> dom B)"
proof -
  assume "delta_ok getKey B d"
  then have "map_of (mMod d) k \<noteq> None \<Longrightarrow> k \<in> dom B"
    unfolding delta_ok_def by (metis in_keys subsetD)
  then show ?thesis by (auto simp: applyDelta_def split: option.splits if_splits)
qed

lemma applyDelta_previous [simp]: "applyDelta (d\<lparr>mPrevious := p\<rparr>) B = applyDelta d B"
  by (auto simp: applyDelta_def fun_eq_iff split: option.splits)

lemma replay_append [simp]: "replay getKey (xs @ ys) M = replay getKey ys (replay getKey xs M)"
  by (simp add: replay_def)

lemma replay_Nil [simp]: "replay getKey [] M = M"
  by (simp add: replay_def)

lemma replay_Cons [simp]: "replay getKey (c # cs) M = replay getKey cs (replay1 getKey c M)"
  by (simp add: replay_def)

lemma delta_ok_new: "delta_ok getKey B (newDelta h u)"
  by (simp add: delta_ok_def newDelta_def keyed_def applyDelta_def)

lemma delta_ok_nested: "delta_ok getKey B (nestedDelta d)"
  by (simp add: delta_ok_def nestedDelta_def keyed_def applyDelta_def)

section \<open>Operations are map updates\<close>

lemma addEntry_ok:
  assumes "delta_ok getKey B d" and "getKey e \<notin> dom (applyDelta d B)"
  shows "\<exists>d'. addEntry (<) getKey e d = Inr d' \<and> delta_ok getKey B d'
           \<and> applyDelta d' B = (applyDelta d B)(getKey e \<mapsto> e) \<and> mCurrentHeader d' = mCurrentHeader d"
proof (cases "getKey e \<in> set (mDelete d)")
  case True
  let ?d = "d\<lparr>mDelete := removeAll (getKey e) (mDelete d), mMod := omap_put (getKey e) e (mMod d),
              mAllChanges := mAllChanges d @ [CREATED e]\<rparr>"
  have nN: "map_of (mNew d) (getKey e) = None"
    using True assms(1) unfolding delta_ok_def by (metis disjoint_iff in_keys subsetD)
  have "addEntry (<) getKey e d = Inr ?d"
    using True assms(1) by (simp add: addEntry_def Let_def checkState_def delta_ok_def)
  moreover have a: "applyDelta ?d B = (applyDelta d B)(getKey e \<mapsto> e)"
    using nN by (auto simp: applyDelta_def fun_eq_iff split: option.splits)
  moreover have "delta_ok getKey B ?d"
    using True assms(1) a unfolding delta_ok_def
    by (auto simp: omap_ok_put keyed_put oset_ok_removeAll)
  ultimately show ?thesis by fastforce
next
  case False
  let ?d = "d\<lparr>mNew := omap_put (getKey e) e (mNew d), mAllChanges := mAllChanges d @ [CREATED e]\<rparr>"
  have n: "map_of (mNew d) (getKey e) = None" "getKey e \<notin> dom B"
    using False assms applyDelta_dom by blast+
  have m: "map_of (mMod d) (getKey e) = None"
    using n(2) assms(1) unfolding delta_ok_def by (metis in_keys subset_iff)
  have "addEntry (<) getKey e d = Inr ?d"
    using False assms(1) n m by (simp add: addEntry_def Let_def checkState_def delta_ok_def)
  moreover have a: "applyDelta ?d B = (applyDelta d B)(getKey e \<mapsto> e)"
    using False by (auto simp: applyDelta_def fun_eq_iff split: option.splits)
  moreover have "delta_ok getKey B ?d"
    using n(2) assms(1) a unfolding delta_ok_def
    by (auto simp: omap_ok_put keyed_put)
  ultimately show ?thesis by fastforce
qed

lemma deleteEntry_ok:
  assumes "delta_ok getKey B d" and "k \<in> dom (applyDelta d B)"
  shows "\<exists>d'. deleteEntry (<) k d = Inr d' \<and> delta_ok getKey B d'
           \<and> applyDelta d' B = (applyDelta d B)(k := None) \<and> mCurrentHeader d' = mCurrentHeader d"
proof (cases "map_of (mNew d) k = None")
  case False
  let ?d = "d\<lparr>mNew := omap_erase k (mNew d), mAllChanges := mAllChanges d @ [REMOVED k]\<rparr>"
  have nB: "k \<notin> dom B"
    using False assms(1) unfolding delta_ok_def by (metis disjoint_iff in_keys)
  then have nM: "map_of (mMod d) k = None" and nD: "k \<notin> set (mDelete d)"
    using assms(1) unfolding delta_ok_def by (metis in_keys subset_iff, blast)
  have "deleteEntry (<) k d = Inr ?d"
    using False assms(1) by (simp add: deleteEntry_def Let_def checkState_def delta_ok_def)
  moreover have a: "applyDelta ?d B = (applyDelta d B)(k := None)"
    using nB nM by (auto simp: applyDelta_def fun_eq_iff domIff split: option.splits)
  moreover have "delta_ok getKey B ?d"
    using assms(1) a unfolding delta_ok_def
    by (auto simp: omap_ok_erase keyed_erase)
  ultimately show ?thesis by fastforce
next
  case True
  let ?d = "d\<lparr>mDelete := oset_insert k (mDelete d), mMod := omap_erase k (mMod d),
              mAllChanges := mAllChanges d @ [REMOVED k]\<rparr>"
  have kB: "k \<in> dom B" using True assms applyDelta_dom by blast
  have "deleteEntry (<) k d = Inr ?d"
    using True assms(1) by (simp add: deleteEntry_def Let_def checkState_def delta_ok_def)
  moreover have a: "applyDelta ?d B = (applyDelta d B)(k := None)"
    by (auto simp: applyDelta_def fun_eq_iff set_insort_insert split: option.splits)
  moreover have "delta_ok getKey B ?d"
    using assms(1) a kB unfolding delta_ok_def
    by (auto simp: omap_ok_erase keyed_erase set_insort_insert)
  ultimately show ?thesis by fastforce
qed

lemma modEntry_ok:
  assumes "delta_ok getKey B d" and "getKey e \<in> dom (applyDelta d B)"
  shows "\<exists>d'. modEntry (<) getKey e d = Inr d' \<and> delta_ok getKey B d'
           \<and> applyDelta d' B = (applyDelta d B)(getKey e \<mapsto> e) \<and> mCurrentHeader d' = mCurrentHeader d"
proof (cases "map_of (mMod d) (getKey e) \<noteq> None \<or> map_of (mNew d) (getKey e) = None")
  case True
  let ?d = "d\<lparr>mMod := omap_put (getKey e) e (mMod d), mAllChanges := mAllChanges d @ [UPDATED e]\<rparr>"
  have nD: "getKey e \<notin> set (mDelete d)" using assms applyDelta_dom by blast
  have kB: "getKey e \<in> dom B"
    using True assms applyDelta_dom [OF assms(1)] unfolding delta_ok_def by (metis in_keys subset_iff)
  then have nN: "map_of (mNew d) (getKey e) = None"
    using assms(1) unfolding delta_ok_def by (metis disjoint_iff in_keys)
  have "modEntry (<) getKey e d = Inr ?d"
    using True assms(1) nD nN by (auto simp: modEntry_def Let_def checkState_def delta_ok_def)
  moreover have a: "applyDelta ?d B = (applyDelta d B)(getKey e \<mapsto> e)"
    using nD nN by (auto simp: applyDelta_def fun_eq_iff split: option.splits)
  moreover have "delta_ok getKey B ?d"
    using assms(1) a kB nD unfolding delta_ok_def
    by (auto simp: omap_ok_put keyed_put)
  ultimately show ?thesis by fastforce
next
  case False
  let ?d = "d\<lparr>mNew := omap_put (getKey e) e (mNew d), mAllChanges := mAllChanges d @ [UPDATED e]\<rparr>"
  have nD: "getKey e \<notin> set (mDelete d)" using assms applyDelta_dom by blast
  have nB: "getKey e \<notin> dom B"
    using False assms(1) unfolding delta_ok_def by (metis disjoint_iff in_keys)
  have "modEntry (<) getKey e d = Inr ?d"
    using False assms(1) by (simp add: modEntry_def Let_def checkState_def delta_ok_def)
  moreover have a: "applyDelta ?d B = (applyDelta d B)(getKey e \<mapsto> e)"
    using nD by (auto simp: applyDelta_def fun_eq_iff split: option.splits)
  moreover have "delta_ok getKey B ?d"
    using assms(1) a nB unfolding delta_ok_def
    by (auto simp: omap_ok_put keyed_put)
  ultimately show ?thesis by fastforce
qed

lemma recordEntry_ok:
  assumes "delta_ok getKey B d"
  shows "\<exists>d'. recordEntry (<) getKey e d = Inr d' \<and> delta_ok getKey B d'
           \<and> applyDelta d' B = applyDelta d B \<and> mCurrentHeader d' = mCurrentHeader d"
  using assms
  by (auto simp: recordEntry_def checkState_def delta_ok_def omap_ok_insert keyed_insert)

lemma recordPrevious_ok:
  assumes "delta_ok getKey B d"
  shows "\<exists>d'. recordPrevious (<) getKey p k d = Inr d' \<and> delta_ok getKey B d'
           \<and> applyDelta d' B = applyDelta d B \<and> mCurrentHeader d' = mCurrentHeader d"
  using assms recordEntry_ok [OF assms] by (auto simp: recordPrevious_def split: option.splits)


section \<open>Merging a delta into another\<close>

definition tracks ::
  "('e \<Rightarrow> 'k::linorder) \<Rightarrow> ('k \<rightharpoonup> 'e) \<Rightarrow> 'h \<Rightarrow> ('k \<rightharpoonup> 'e) \<Rightarrow> ('k, 'e, 'h) LedgerDelta \<Rightarrow> bool" where
  "tracks getKey B h M d \<longleftrightarrow> delta_ok getKey B d \<and> applyDelta d B = M \<and> mCurrentHeader d = h"

lemma tracks_add:
  "tracks getKey B h M d \<Longrightarrow> getKey e \<notin> dom M \<Longrightarrow>
     \<exists>d'. addEntry (<) getKey e d = Inr d' \<and> tracks getKey B h (M(getKey e \<mapsto> e)) d'"
  using addEntry_ok [of getKey B d e] by (auto simp: tracks_def)

lemma tracks_mod:
  "tracks getKey B h M d \<Longrightarrow> getKey e \<in> dom M \<Longrightarrow>
     \<exists>d'. modEntry (<) getKey e d = Inr d' \<and> tracks getKey B h (M(getKey e \<mapsto> e)) d'"
  using modEntry_ok [of getKey B d e] by (auto simp: tracks_def)

lemma tracks_del:
  "tracks getKey B h M d \<Longrightarrow> k \<in> dom M \<Longrightarrow>
     \<exists>d'. deleteEntry (<) k d = Inr d' \<and> tracks getKey B h (M(k := None)) d'"
  using deleteEntry_ok [of getKey B d k] by (auto simp: tracks_def)

lemma tracks_record:
  "tracks getKey B h M d \<Longrightarrow> \<exists>d'. recordEntry (<) getKey e d = Inr d' \<and> tracks getKey B h M d'"
  using recordEntry_ok [of getKey B d e] by (auto simp: tracks_def)

lemma tracks_previous:
  "tracks getKey B h M d \<Longrightarrow> \<exists>d'. recordPrevious (<) getKey p k d = Inr d' \<and> tracks getKey B h M d'"
  using recordPrevious_ok [of getKey B d p k] by (auto simp: tracks_def)

lemma map_add_map_of_Cons:
  "k \<notin> fst ` set ns \<Longrightarrow> M ++ map_of ((k, e) # ns) = M(k \<mapsto> e) ++ map_of ns"
  by (auto simp: fun_eq_iff map_add_def map_of_eq_None_iff [symmetric] split: option.splits)

lemma restrict_Cons: "M |` (- set (k # ks)) = (M(k := None)) |` (- set ks)"
  by (auto simp: fun_eq_iff restrict_map_def)

lemma keyed_Cons: "keyed getKey (n # ns) \<longleftrightarrow> getKey (snd n) = fst n \<and> keyed getKey ns"
  by (auto simp: keyed_def)

lemma merge_deletes:
  assumes "tracks getKey B h M d" "distinct ks" "set ks \<subseteq> dom M"
  shows "\<exists>d'. foldE (\<lambda>k d. bindE (deleteEntry (<) k d) (recordPrevious (<) getKey p k)) ks d = Inr d'
           \<and> tracks getKey B h (M |` (- set ks)) d'"
  using assms
proof (induction ks arbitrary: d M)
  case Nil
  then show ?case by (simp add: restrict_map_def)
next
  case (Cons k ks)
  obtain d1 where d1: "deleteEntry (<) k d = Inr d1" "tracks getKey B h (M(k := None)) d1"
    using tracks_del [OF Cons.prems(1), of k] Cons.prems by auto
  obtain d2 where d2: "recordPrevious (<) getKey p k d1 = Inr d2" "tracks getKey B h (M(k := None)) d2"
    using tracks_previous [OF d1(2)] by blast
  have "set ks \<subseteq> dom (M(k := None))" "distinct ks" using Cons.prems by auto
  from Cons.IH [OF d2(2) this(2,1)] show ?case
    unfolding restrict_Cons foldE.simps d1(1) d2(1) bindE_Inr .
qed

lemma merge_adds:
  assumes "tracks getKey B h M d" "distinct (map fst ns)" "keyed getKey ns" "fst ` set ns \<inter> dom M = {}"
  shows "\<exists>d'. foldE (\<lambda>n d. addEntry (<) getKey (snd n) d) ns d = Inr d'
           \<and> tracks getKey B h (M ++ map_of ns) d'"
  using assms
proof (induction ns arbitrary: d M)
  case Nil
  then show ?case by simp
next
  case (Cons n ns)
  obtain k e where n: "n = (k, e)" "getKey e = k" using Cons.prems(3) by (cases n) (auto simp: keyed_def)
  obtain d1 where d1: "addEntry (<) getKey e d = Inr d1" "tracks getKey B h (M(k \<mapsto> e)) d1"
    using tracks_add [OF Cons.prems(1), of e] Cons.prems n by auto
  have k: "k \<notin> fst ` set ns" and "distinct (map fst ns)" "keyed getKey ns" "fst ` set ns \<inter> dom (M(k \<mapsto> e)) = {}"
    using Cons.prems n by (auto simp: keyed_Cons)
  from Cons.IH [OF d1(2) this(2-)] show ?case
    unfolding n(1) map_add_map_of_Cons [OF k] foldE.simps snd_conv d1(1) bindE_Inr .
qed

lemma merge_mods:
  assumes "tracks getKey B h M d" "distinct (map fst ms)" "keyed getKey ms" "fst ` set ms \<subseteq> dom M"
  shows "\<exists>d'. foldE (\<lambda>m d. bindE (modEntry (<) getKey (snd m) d) (recordPrevious (<) getKey p (fst m))) ms d = Inr d'
           \<and> tracks getKey B h (M ++ map_of ms) d'"
  using assms
proof (induction ms arbitrary: d M)
  case Nil
  then show ?case by simp
next
  case (Cons m ms)
  obtain k e where m: "m = (k, e)" "getKey e = k" using Cons.prems(3) by (cases m) (auto simp: keyed_def)
  obtain d1 where d1: "modEntry (<) getKey e d = Inr d1" "tracks getKey B h (M(k \<mapsto> e)) d1"
    using tracks_mod [OF Cons.prems(1), of e] Cons.prems m by auto
  obtain d2 where d2: "recordPrevious (<) getKey p k d1 = Inr d2" "tracks getKey B h (M(k \<mapsto> e)) d2"
    using tracks_previous [OF d1(2)] by blast
  have k: "k \<notin> fst ` set ms" and "distinct (map fst ms)" "keyed getKey ms" "fst ` set ms \<subseteq> dom (M(k \<mapsto> e))"
    using Cons.prems m by (auto simp: keyed_Cons)
  from Cons.IH [OF d2(2) this(2-)] show ?case
    unfolding m(1) map_add_map_of_Cons [OF k] foldE.simps snd_conv fst_conv d1(1) d2(1) bindE_Inr .
qed

text \<open>The same map written as the three loops of \<open>mergeEntries\<close> build it.\<close>

lemma applyDelta_layers:
  assumes "delta_ok getKey M d"
  shows "applyDelta d M = ((M |` (- set (mDelete d))) ++ map_of (mNew d)) ++ map_of (mMod d)"
proof
  fix k
  have "map_of (mNew d) k \<noteq> None \<Longrightarrow> k \<notin> dom M" "map_of (mMod d) k \<noteq> None \<Longrightarrow> k \<in> dom M"
    "k \<in> set (mDelete d) \<Longrightarrow> k \<in> dom M" "map_of (mMod d) k \<noteq> None \<Longrightarrow> k \<notin> set (mDelete d)"
    using assms in_keys [of k "mNew d"] in_keys [of k "mMod d"] unfolding delta_ok_def
    by (blast dest: subsetD)+
  then show "applyDelta d M k = (((M |` (- set (mDelete d))) ++ map_of (mNew d)) ++ map_of (mMod d)) k"
    by (auto simp: applyDelta_def map_add_def restrict_map_def split: option.splits)
qed

lemma mergeEntries_tracks:
  assumes "tracks getKey B h M outer" "delta_ok getKey M inner"
  shows "\<exists>d. mergeEntries (<) getKey inner outer = Inr d \<and> tracks getKey B h (applyDelta inner M) d"
proof -
  have ok: "omap_ok (mNew inner)" "omap_ok (mMod inner)" "oset_ok (mDelete inner)"
    "keyed getKey (mNew inner)" "keyed getKey (mMod inner)"
    "fst ` set (mNew inner) \<inter> dom M = {}" "fst ` set (mMod inner) \<subseteq> dom M"
    "set (mDelete inner) \<subseteq> dom M" "fst ` set (mMod inner) \<inter> set (mDelete inner) = {}"
    using assms(2) by (simp_all add: delta_ok_def)
  let ?M1 = "M |` (- set (mDelete inner))" and ?p = "mPrevious inner"
  let ?M2 = "?M1 ++ map_of (mNew inner)"
  obtain d1 where d1: "foldE (\<lambda>k d. bindE (deleteEntry (<) k d) (recordPrevious (<) getKey ?p k)) (mDelete inner) outer = Inr d1"
      "tracks getKey B h ?M1 d1"
    using merge_deletes [OF assms(1)] ok(3,8) unfolding oset_ok_def by blast
  have "fst ` set (mNew inner) \<inter> dom ?M1 = {}" using ok(6) by auto
  then obtain d2 where d2: "foldE (\<lambda>n d. addEntry (<) getKey (snd n) d) (mNew inner) d1 = Inr d2"
      "tracks getKey B h ?M2 d2"
    using merge_adds [OF d1(2) omap_ok_distinct [OF ok(1)] ok(4)] by blast
  have "fst ` set (mMod inner) \<subseteq> dom ?M2" using ok(7,9) by auto
  then obtain d3 where d3: "foldE (\<lambda>m d. bindE (modEntry (<) getKey (snd m) d) (recordPrevious (<) getKey ?p (fst m)))
        (mMod inner) d2 = Inr d3" "tracks getKey B h (?M2 ++ map_of (mMod inner)) d3"
    using merge_mods [OF d2(2) omap_ok_distinct [OF ok(2)] ok(5)] by blast
  have "checkState outer = Inr ()"
    using assms(1) by (simp add: tracks_def delta_ok_def checkState_def)
  then show ?thesis
    using d1(1) d2(1) d3 applyDelta_layers [OF assms(2)] by (simp add: mergeEntries_def)
qed

lemma tracks_header: "tracks getKey B h M d \<Longrightarrow> tracks getKey B h' M (d\<lparr>mCurrentHeader := h'\<rparr>)"
proof -
  have "applyDelta (d\<lparr>mCurrentHeader := h'\<rparr>) = applyDelta d"
    by (auto simp: applyDelta_def fun_eq_iff split: option.splits)
  then show "tracks getKey B h M d \<Longrightarrow> tracks getKey B h' M (d\<lparr>mCurrentHeader := h'\<rparr>)"
    by (simp add: tracks_def delta_ok_def)
qed

lemma commit_tracks:
  assumes "tracks getKey B h M outer" "tracks getKey M h' M' inner" "mPreviousHeaderValue inner = h"
  shows "\<exists>d. commit (<) getKey (OuterDelta outer) inner = Inr (OuterDelta d, inner\<lparr>mHeaderSet := False\<rparr>)
           \<and> tracks getKey B h' M' d"
proof -
  have i: "delta_ok getKey M inner" "applyDelta inner M = M'" "mCurrentHeader inner = h'" "mHeaderSet inner"
    and o: "mCurrentHeader outer = h"
    using assms(1,2) by (simp_all add: tracks_def delta_ok_def)
  obtain d where d: "mergeEntries (<) getKey inner outer = Inr d" "tracks getKey B h M' d"
    using mergeEntries_tracks [OF assms(1) i(1)] i(2) by auto
  show ?thesis
    using d(1) tracks_header [OF d(2), of h'] i(3,4) o assms(3) by (simp add: commit_def checkState_def)
qed

section \<open>Reported changes replay to the same map\<close>

lemma replay_created: "keyed getKey ns \<Longrightarrow> distinct (map fst ns) \<Longrightarrow>
   replay getKey (map (\<lambda>n. CREATED (snd n)) ns) M = M ++ map_of ns"
proof (induction ns arbitrary: M)
  case (Cons n ns)
  obtain k e where n: "n = (k, e)" "getKey e = k" using Cons.prems(1) by (cases n) (auto simp: keyed_def)
  have k: "k \<notin> fst ` set ns" using Cons.prems(2) n by simp
  show ?case
    using Cons n unfolding n(1) map_add_map_of_Cons [OF k] by (simp add: keyed_Cons)
qed simp

lemma replay_meta [simp]: "replay getKey (addCurrentMeta (<) lm ls d k) M = M"
  by (simp add: addCurrentMeta_def split: option.splits)

lemma replay_updated: "keyed getKey ms \<Longrightarrow> distinct (map fst ms) \<Longrightarrow>
   replay getKey (concat (map (\<lambda>m. addCurrentMeta (<) lm ls d (fst m) @ [UPDATED (snd m)]) ms)) M = M ++ map_of ms"
proof (induction ms arbitrary: M)
  case (Cons m ms)
  obtain k e where m: "m = (k, e)" "getKey e = k" using Cons.prems(1) by (cases m) (auto simp: keyed_def)
  have k: "k \<notin> fst ` set ms" using Cons.prems(2) m by simp
  show ?case
    using Cons m unfolding m(1) map_add_map_of_Cons [OF k] by (simp add: keyed_Cons)
qed simp

lemma replay_removed:
  "replay getKey (concat (map (\<lambda>k. addCurrentMeta (<) lm ls d k @ [REMOVED k]) ks)) M = M |` (- set ks)"
proof (induction ks arbitrary: M)
  case (Cons k ks)
  then show ?case by (auto simp: fun_eq_iff restrict_map_def)
qed (simp add: restrict_map_def)

lemma replay_getChanges:
  assumes "delta_ok getKey B d"
  shows "replay getKey (getChanges (<) lm ls d) B = applyDelta d B"
proof -
  have ok: "keyed getKey (mNew d)" "keyed getKey (mMod d)" "distinct (map fst (mNew d))"
    "distinct (map fst (mMod d))" "fst ` set (mMod d) \<inter> set (mDelete d) = {}"
    "fst ` set (mNew d) \<inter> dom B = {}" "set (mDelete d) \<subseteq> dom B"
    using assms omap_ok_distinct by (auto simp: delta_ok_def)
  have "((B ++ map_of (mNew d)) ++ map_of (mMod d)) |` (- set (mDelete d)) = applyDelta d B"
    (is "?l = _")
  proof
    fix k
    have "k \<in> set (mDelete d) \<Longrightarrow> map_of (mMod d) k = None"
      using ok(5) in_keys [of k "mMod d"] by blast
    moreover have "map_of (mMod d) k \<noteq> None \<Longrightarrow> map_of (mNew d) k = None"
      using assms in_keys [of k "mMod d"] in_keys [of k "mNew d"] unfolding delta_ok_def by blast
    ultimately show "?l k = applyDelta d B k"
      by (auto simp: applyDelta_def map_add_def restrict_map_def split: option.splits)
  qed
  then show ?thesis
    using ok by (simp add: getChanges_def replay_created replay_updated replay_removed)
qed


section \<open>Nested blocks\<close>

text \<open>
  A script is what the code that owns a delta does to it: it registers changes, records loaded
  entries, writes the header, and opens nested deltas, which are committed or dropped at the end
  of their block. \<open>execScript\<close> runs a script on deltas; \<open>specScript\<close> is what the script means on the map
  of entries and the header: a committed block has its effect, a dropped block has none.
\<close>

datatype ('k, 'e, 'h) script =
    Add 'e
  | Mod 'e
  | Del 'k
  | Load 'e
  | SetHeader 'h
  | Block bool "('k, 'e, 'h) script list"

lemma foldE_cong [fundef_cong]:
  "xs = ys \<Longrightarrow> s = t \<Longrightarrow> (\<And>x u. x \<in> set ys \<Longrightarrow> f x u = g x u) \<Longrightarrow> foldE f xs s = foldE g ys t"
proof (induction ys arbitrary: xs s t)
  case (Cons y ys)
  then show ?case by (auto intro!: bindE_cong)
qed simp

fun execScript ::
  "('k \<Rightarrow> 'k \<Rightarrow> bool) \<Rightarrow> ('e \<Rightarrow> 'k) \<Rightarrow> ('k, 'e, 'h) script \<Rightarrow> ('k, 'e, 'h) LedgerDelta
     \<Rightarrow> cxx_error + ('k, 'e, 'h) LedgerDelta" where
  "execScript lt getKey (Add e) d = addEntry lt getKey e d"
| "execScript lt getKey (Mod e) d = modEntry lt getKey e d"
| "execScript lt getKey (Del k) d = deleteEntry lt k d"
| "execScript lt getKey (Load e) d = recordEntry lt getKey e d"
| "execScript lt getKey (SetHeader h) d = Inr (d\<lparr>mCurrentHeader := h\<rparr>)"
| "execScript lt getKey (Block c ss) d =
     bindE (foldE (execScript lt getKey) ss (nestedDelta d)) (\<lambda>i.
       if c then bindE (commit lt getKey (OuterDelta d) i) (\<lambda>(p, _).
                   case p of OuterDelta d \<Rightarrow> Inr d | HeaderOf _ \<Rightarrow> Inr d)
       else Inr d)"

fun specScript :: "('e \<Rightarrow> 'k) \<Rightarrow> ('k, 'e, 'h) script \<Rightarrow> ('k \<rightharpoonup> 'e) \<times> 'h \<Rightarrow> ('k \<rightharpoonup> 'e) \<times> 'h" where
  "specScript getKey (Add e) (M, h) = (M(getKey e \<mapsto> e), h)"
| "specScript getKey (Mod e) (M, h) = (M(getKey e \<mapsto> e), h)"
| "specScript getKey (Del k) (M, h) = (M(k := None), h)"
| "specScript getKey (Load e) (M, h) = (M, h)"
| "specScript getKey (SetHeader h') (M, h) = (M, h')"
| "specScript getKey (Block c ss) (M, h) = (if c then fold (specScript getKey) ss (M, h) else (M, h))"

text \<open>A script fits a map when it adds absent keys and changes or deletes present ones.\<close>

fun fits :: "('e \<Rightarrow> 'k) \<Rightarrow> ('k, 'e, 'h) script \<Rightarrow> ('k \<rightharpoonup> 'e) \<times> 'h \<Rightarrow> bool"
  and fitsAll :: "('e \<Rightarrow> 'k) \<Rightarrow> ('k, 'e, 'h) script list \<Rightarrow> ('k \<rightharpoonup> 'e) \<times> 'h \<Rightarrow> bool" where
  "fits getKey (Add e) (M, h) = (M (getKey e) = None)"
| "fits getKey (Mod e) (M, h) = (M (getKey e) \<noteq> None)"
| "fits getKey (Del k) (M, h) = (M k \<noteq> None)"
| "fits getKey (Load e) (M, h) = True"
| "fits getKey (SetHeader h') (M, h) = True"
| "fits getKey (Block c ss) (M, h) = fitsAll getKey ss (M, h)"
| "fitsAll getKey [] s = True"
| "fitsAll getKey (x # xs) s = (fits getKey x s \<and> fitsAll getKey xs (specScript getKey x s))"

lemma nested_tracks:
  "tracks getKey B h M d \<Longrightarrow>
     tracks getKey M h M (nestedDelta d) \<and> mPreviousHeaderValue (nestedDelta d) = h"
  using delta_ok_nested [of getKey M d]
  by (auto simp: tracks_def nestedDelta_def applyDelta_def fun_eq_iff)

lemma keeps_previous_header:
  "addEntry (<) getKey e d = Inr d' \<Longrightarrow> mPreviousHeaderValue d' = mPreviousHeaderValue d"
  "modEntry (<) getKey e d = Inr d' \<Longrightarrow> mPreviousHeaderValue d' = mPreviousHeaderValue d"
  "deleteEntry (<) k d = Inr d' \<Longrightarrow> mPreviousHeaderValue d' = mPreviousHeaderValue d"
  "recordEntry (<) getKey e d = Inr d' \<Longrightarrow> mPreviousHeaderValue d' = mPreviousHeaderValue d"
  "recordPrevious (<) getKey p k d = Inr d' \<Longrightarrow> mPreviousHeaderValue d' = mPreviousHeaderValue d"
  by (auto simp: addEntry_def modEntry_def deleteEntry_def recordEntry_def recordPrevious_def Let_def
      split: if_splits option.splits elim!: bindE_runE)

lemma foldE_invariant:
  assumes "foldE f xs s = Inr t" "\<And>x s s'. x \<in> set xs \<Longrightarrow> f x s = Inr s' \<Longrightarrow> g s' = g s"
  shows "g t = g s"
  using assms by (induction xs arbitrary: s) (auto elim!: bindE_runE, metis)

lemma mergeEntries_previous_header:
  assumes "mergeEntries (<) getKey i d = Inr d'"
  shows "mPreviousHeaderValue d' = mPreviousHeaderValue d"
  using assms unfolding mergeEntries_def
  by (auto elim!: bindE_runE dest!: foldE_invariant [where g = mPreviousHeaderValue] keeps_previous_header)

lemma commit_previous_header:
  "commit (<) getKey (OuterDelta d) i = Inr (OuterDelta d', j) \<Longrightarrow>
     mPreviousHeaderValue d' = mPreviousHeaderValue d"
  unfolding commit_def by (auto elim!: bindE_runE dest!: mergeEntries_previous_header)

lemma execScript_previous_header:
  "execScript (<) getKey x d = Inr d' \<Longrightarrow> mPreviousHeaderValue d' = mPreviousHeaderValue d"
proof (cases x)
  case (Block c ss)
  assume "execScript (<) getKey x d = Inr d'"
  then show ?thesis
    unfolding Block
    by (auto elim!: bindE_runE bindE_runE2 dest!: commit_previous_header split: if_splits parent.splits)
qed (auto dest: keeps_previous_header)

lemma execScript_tracks:
  "tracks getKey B h M d \<Longrightarrow> fits getKey x (M, h) \<Longrightarrow>
     \<exists>d'. execScript (<) getKey x d = Inr d' \<and>
       tracks getKey B (snd (specScript getKey x (M, h))) (fst (specScript getKey x (M, h))) d'"
  "tracks getKey B h M d \<Longrightarrow> fitsAll getKey xs (M, h) \<Longrightarrow>
     \<exists>d'. foldE (execScript (<) getKey) xs d = Inr d' \<and>
       tracks getKey B (snd (fold (specScript getKey) xs (M, h))) (fst (fold (specScript getKey) xs (M, h))) d'"
proof (induction getKey x "(M, h)" and getKey xs "(M, h)" arbitrary: B M h d and B M h d rule: fits_fitsAll.induct)
  case (6 getKey c ss M h)
  have n: "tracks getKey M h M (nestedDelta d)" "mPreviousHeaderValue (nestedDelta d) = h"
    using nested_tracks [OF 6(2)] by auto
  obtain i where i: "foldE (execScript (<) getKey) ss (nestedDelta d) = Inr i"
      "tracks getKey M (snd (fold (specScript getKey) ss (M, h))) (fst (fold (specScript getKey) ss (M, h))) i"
    using 6(1) [OF n(1)] 6(3) by auto
  have "mPreviousHeaderValue i = h"
    using foldE_invariant [OF i(1), of mPreviousHeaderValue] execScript_previous_header n(2) by metis
  from commit_tracks [OF 6(2) i(2) this] show ?case using i(1) 6(2) by auto
next
  case (8 getKey x xs M h)
  obtain d1 where d1: "execScript (<) getKey x d = Inr d1"
     "tracks getKey B (snd (specScript getKey x (M, h))) (fst (specScript getKey x (M, h))) d1"
    using 8(1) [OF 8(3)] 8(4) by auto
  show ?case using 8(2) [OF _ d1(2)] 8(4) d1(1) by auto
qed (auto dest: tracks_add tracks_mod tracks_del tracks_record tracks_header simp: domIff)


section \<open>The entry cache and the database\<close>

text \<open>A cache is coherent with a map when it never answers anything else than the map.\<close>

definition cache_ok :: "('k \<rightharpoonup> 'e) \<Rightarrow> ('k \<rightharpoonup> 'e option) \<Rightarrow> bool" where
  "cache_ok M cache \<longleftrightarrow> (\<forall>k v. cache k = Some v \<longrightarrow> v = M k)"

lemma fold_flush: "fold (\<lambda>x. flushCachedEntry (f x)) xs cache = cache |` (- f ` set xs)"
  by (induction xs arbitrary: cache)
    (auto simp: flushCachedEntry_def restrict_map_def fun_eq_iff)

lemma rollback_cache:
  assumes "mHeaderSet d"
  shows "rollback d cache =
    Inr (d\<lparr>mHeaderSet := False\<rparr>,
         cache |` (- (set (mDelete d) \<union> fst ` set (mNew d) \<union> fst ` set (mMod d))))"
  using assms fold_flush [of "\<lambda>x. x" "mDelete d" cache]
  by (simp add: rollback_def checkState_def fold_flush Int_ac)

lemma applyDelta_untouched:
  assumes "k \<notin> set (mDelete d)" "k \<notin> fst ` set (mNew d)" "k \<notin> fst ` set (mMod d)"
  shows "applyDelta d B k = B k"
  using assms unfolding applyDelta_def by (simp add: map_of_eq_None_iff [symmetric])

lemma checkEntry_iff:
  "checkEntryAgainstDatabase getKey db e = Inr () \<longleftrightarrow> db (getKey e) = Some e"
  by (simp add: checkEntryAgainstDatabase_def split: option.splits)

lemma foldE_unit: "foldE (\<lambda>x _. f x) xs () = Inr () \<longleftrightarrow> (\<forall>x \<in> set xs. f x = Inr ())"
  by (induction xs) (auto simp: bindE_eq_Inr)

lemma applyDelta_live:
  assumes "delta_ok getKey B d" "(k, e) \<in> set (mNew d) \<union> set (mMod d)"
  shows "applyDelta d B k = Some e"
proof -
  have ok: "omap_ok (mNew d)" "omap_ok (mMod d)" "fst ` set (mNew d) \<inter> set (mDelete d) = {}"
    "fst ` set (mMod d) \<inter> set (mDelete d) = {}" "fst ` set (mNew d) \<inter> fst ` set (mMod d) = {}"
    using assms(1) unfolding delta_ok_def by blast+
  have "k \<notin> set (mDelete d)" using ok(3,4) assms(2) by force
  moreover have "map_of (mNew d) k = Some e \<or> map_of (mNew d) k = None \<and> map_of (mMod d) k = Some e"
    using assms(2) ok(1,2,5) in_keys [of k "mNew d"] by (force simp: omap_ok_map_of)
  ultimately show ?thesis by (auto simp: applyDelta_def)
qed

lemma live_agree:
  assumes "keyed getKey m" "\<And>k e. (k, e) \<in> set m \<Longrightarrow> A k = Some e"
  shows "(\<forall>e \<in> set (map snd m). db (getKey e) = Some e) \<longleftrightarrow> (\<forall>k \<in> fst ` set m. db k = A k)"
proof -
  have "db (getKey e) = Some e \<longleftrightarrow> db k = A k" if "(k, e) \<in> set m" for k e
    using assms that by (auto simp: keyed_def)
  then show ?thesis by auto
qed

definition touched :: "('k, 'e, 'h) LedgerDelta \<Rightarrow> 'k set" where
  "touched d = set (mDelete d) \<union> fst ` set (mNew d) \<union> fst ` set (mMod d)"

lemma checkDelta_iff:
  assumes "delta_ok getKey B d"
  shows "checkDeltaAgainstDatabase True getKey db d = Inr () \<longleftrightarrow>
    (\<forall>k \<in> touched d. db k = applyDelta d B k)"
proof -
  have ok: "keyed getKey (mNew d)" "keyed getKey (mMod d)"
    using assms unfolding delta_ok_def by blast+
  have "checkDeltaAgainstDatabase True getKey db d = Inr () \<longleftrightarrow>
     (\<forall>e \<in> set (map snd (mNew d)). db (getKey e) = Some e) \<and> (\<forall>e \<in> set (map snd (mMod d)). db (getKey e) = Some e)
     \<and> (\<forall>k \<in> set (mDelete d). db k = None)"
    by (simp add: checkDeltaAgainstDatabase_def bindE_eq_Inr foldE_unit checkEntry_iff getLiveEntries_def
        getDeadEntries_def ball_Un)
  also have "\<dots> \<longleftrightarrow> (\<forall>k \<in> fst ` set (mNew d). db k = applyDelta d B k) \<and> (\<forall>k \<in> fst ` set (mMod d). db k = applyDelta d B k)
     \<and> (\<forall>k \<in> set (mDelete d). db k = applyDelta d B k)"
    using live_agree [OF ok(1), of "applyDelta d B" db] live_agree [OF ok(2), of "applyDelta d B" db]
      applyDelta_live [OF assms] by (simp add: applyDelta_def)
  finally show ?thesis by (simp only: touched_def ball_Un) blast
qed

section \<open>By the identity of keys\<close>

fun identChange :: "('k \<Rightarrow> 'i) \<Rightarrow> ('k, 'e) LedgerEntryChange \<Rightarrow> ('i, 'e) LedgerEntryChange" where
  "identChange ident (CREATED e) = CREATED e"
| "identChange ident (UPDATED e) = UPDATED e"
| "identChange ident (REMOVED k) = REMOVED (ident k)"
| "identChange ident (STATE e) = STATE e"

definition identDelta :: "('k \<Rightarrow> 'i) \<Rightarrow> ('k, 'e, 'h) LedgerDelta \<Rightarrow> ('i, 'e, 'h) LedgerDelta" where
  "identDelta ident d =
     \<lparr>mHeaderSet = mHeaderSet d, mCurrentHeader = mCurrentHeader d, mPreviousHeaderValue = mPreviousHeaderValue d,
      mNew = identMap ident (mNew d), mMod = identMap ident (mMod d), mDelete = map ident (mDelete d),
      mAllChanges = map (identChange ident) (mAllChanges d), mPrevious = identMap ident (mPrevious d),
      mUpdateLastModified = mUpdateLastModified d\<rparr>"

lemma identDelta_fields [simp]:
  "mHeaderSet (identDelta ident d) = mHeaderSet d" "mCurrentHeader (identDelta ident d) = mCurrentHeader d"
  "mPreviousHeaderValue (identDelta ident d) = mPreviousHeaderValue d" "mNew (identDelta ident d) = identMap ident (mNew d)"
  "mMod (identDelta ident d) = identMap ident (mMod d)" "mDelete (identDelta ident d) = map ident (mDelete d)"
  "mAllChanges (identDelta ident d) = map (identChange ident) (mAllChanges d)"
  "mPrevious (identDelta ident d) = identMap ident (mPrevious d)"
  "mUpdateLastModified (identDelta ident d) = mUpdateLastModified d"
  by (simp_all add: identDelta_def)

lemma identDelta_update:
  "identDelta ident (d\<lparr>mNew := m\<rparr>) = (identDelta ident d)\<lparr>mNew := identMap ident m\<rparr>"
  "identDelta ident (d\<lparr>mMod := m\<rparr>) = (identDelta ident d)\<lparr>mMod := identMap ident m\<rparr>"
  "identDelta ident (d\<lparr>mDelete := s\<rparr>) = (identDelta ident d)\<lparr>mDelete := map ident s\<rparr>"
  "identDelta ident (d\<lparr>mPrevious := m\<rparr>) = (identDelta ident d)\<lparr>mPrevious := identMap ident m\<rparr>"
  "identDelta ident (d\<lparr>mAllChanges := cs\<rparr>) = (identDelta ident d)\<lparr>mAllChanges := map (identChange ident) cs\<rparr>"
  "identDelta ident (d\<lparr>mCurrentHeader := h\<rparr>) = (identDelta ident d)\<lparr>mCurrentHeader := h\<rparr>"
  "identDelta ident (d\<lparr>mHeaderSet := b\<rparr>) = (identDelta ident d)\<lparr>mHeaderSet := b\<rparr>"
  by (simp_all add: identDelta_def)

lemma identDelta_new [simp]:
  "identDelta ident (newDelta h u) = newDelta h u" "identDelta ident (nestedDelta d) = nestedDelta (identDelta ident d)"
  by (simp_all add: identDelta_def newDelta_def nestedDelta_def)

lemma checkState_ident [simp]: "checkState (identDelta ident d) = checkState d"
  by (simp add: checkState_def)

text \<open>A result by identities.\<close>

abbreviation identR :: "('k \<Rightarrow> 'i) \<Rightarrow> 'err + ('k, 'e, 'h) LedgerDelta \<Rightarrow> 'err + ('i, 'e, 'h) LedgerDelta" where
  "identR ident r \<equiv> map_sum id (identDelta ident) r"

lemma bindE_ident:
  "map_sum id f m = m' \<Longrightarrow> (\<And>x. map_sum id h (g x) = g' (f x)) \<Longrightarrow> map_sum id h (bindE m g) = bindE m' g'"
  by (cases m) auto

lemma foldE_ident_on:
  assumes "\<And>x s. x \<in> set xs \<Longrightarrow> map_sum id f (p x s) = q (g x) (f s)"
  shows "map_sum id f (foldE p xs s) = foldE q (map g xs) (f s)"
  using assms
proof (induction xs arbitrary: s)
  case (Cons x xs)
  show ?case
    unfolding foldE.simps list.map by (rule bindE_ident [where f = f]) (use Cons in \<open>blast intro: list.set_intros\<close>)+
qed simp

lemmas foldE_ident = foldE_ident_on [of _ f p q g for f p q g]

context key_order
begin

lemma addEntry_ident:
  "identR ident (addEntry lt getKey e d) = addEntry (<) (ident \<circ> getKey) e (identDelta ident d)"
  by (auto simp: addEntry_def checkState_def assertE_def Let_def containers_ident identDelta_update)

lemma deleteEntry_ident:
  "identR ident (deleteEntry lt k d) = deleteEntry (<) (ident k) (identDelta ident d)"
  by (auto simp: deleteEntry_def checkState_def assertE_def Let_def containers_ident identDelta_update)

lemma modEntry_ident:
  "identR ident (modEntry lt getKey e d) = modEntry (<) (ident \<circ> getKey) e (identDelta ident d)"
  by (auto simp: modEntry_def checkState_def assertE_def Let_def containers_ident identDelta_update)

lemma recordEntry_ident:
  "identR ident (recordEntry lt getKey e d) = recordEntry (<) (ident \<circ> getKey) e (identDelta ident d)"
  by (auto simp: recordEntry_def checkState_def assertE_def containers_ident identDelta_update kmap_insert_def)

lemma recordPrevious_ident:
  "identR ident (recordPrevious lt getKey p k d) =
     recordPrevious (<) (ident \<circ> getKey) (identMap ident p) (ident k) (identDelta ident d)"
  by (auto simp: recordPrevious_def find_ident recordEntry_ident split: option.splits)

lemma mergeEntries_ident:
  "identR ident (mergeEntries lt getKey other d) =
     mergeEntries (<) (ident \<circ> getKey) (identDelta ident other) (identDelta ident d)"
proof -
  let ?g = "ident \<circ> getKey" and ?p = "identMap ident (mPrevious other)"
  have "identR ident (foldE (\<lambda>k d. bindE (deleteEntry lt k d) (recordPrevious lt getKey (mPrevious other) k)) ks d)
      = foldE (\<lambda>k d. bindE (deleteEntry (<) k d) (recordPrevious (<) ?g ?p k)) (map ident ks) (identDelta ident d)" for ks d
    by (intro foldE_ident bindE_ident [where f = "identDelta ident"] deleteEntry_ident recordPrevious_ident)
  moreover have "identR ident (foldE (\<lambda>n d. addEntry lt getKey (snd n) d) ns d)
      = foldE (\<lambda>n d. addEntry (<) ?g (snd n) d) (identMap ident ns) (identDelta ident d)" for ns d
    unfolding identMap_def by (rule foldE_ident) (simp add: addEntry_ident case_prod_beta)
  moreover have "identR ident (foldE (\<lambda>m d. bindE (modEntry lt getKey (snd m) d) (recordPrevious lt getKey (mPrevious other) (fst m))) ms d)
      = foldE (\<lambda>m d. bindE (modEntry (<) ?g (snd m) d) (recordPrevious (<) ?g ?p (fst m))) (identMap ident ms) (identDelta ident d)" for ms d
    unfolding identMap_def [of _ ms]
    by (intro foldE_ident bindE_ident [where f = "identDelta ident"]) (simp_all add: modEntry_ident recordPrevious_ident case_prod_beta)
  moreover have "map_sum id id (checkState d) = checkState d" by (cases "checkState d") simp_all
  ultimately show ?thesis
    unfolding mergeEntries_def by (intro bindE_ident [where f = id] bindE_ident [where f = "identDelta ident"]) simp_all
qed

lemma commit_outer_ident:
  "map_sum id (\<lambda>(p, i). (parentHeader p, case p of OuterDelta d \<Rightarrow> Some (identDelta ident d) | HeaderOf _ \<Rightarrow> None, identDelta ident i))
     (commit lt getKey (OuterDelta d) i) =
   map_sum id (\<lambda>(p, i). (parentHeader p, case p of OuterDelta d \<Rightarrow> Some d | HeaderOf _ \<Rightarrow> None, i))
     (commit (<) (ident \<circ> getKey) (OuterDelta (identDelta ident d)) (identDelta ident i))"
  using mergeEntries_ident [of getKey i d]
  by (cases "mergeEntries lt getKey i d"; cases "mergeEntries (<) (ident \<circ> getKey) (identDelta ident i) (identDelta ident d)")
    (auto simp: commit_def checkState_def assertE_def identDelta_update)

lemma getChanges_ident:
  "map (identChange ident) (getChanges lt lastModified ledgerSeq d) = getChanges (<) lastModified ledgerSeq (identDelta ident d)"
proof -
  have meta: "map (identChange ident) (addCurrentMeta lt lastModified ledgerSeq d k)
      = addCurrentMeta (<) lastModified ledgerSeq (identDelta ident d) (ident k)" for k
    by (auto simp: addCurrentMeta_def find_ident split: option.splits)
  show ?thesis by (simp add: getChanges_def map_concat comp_def meta identMap_def case_prod_beta)
qed

end

definition identScript :: "('k \<Rightarrow> 'i) \<Rightarrow> ('k, 'e, 'h) script \<Rightarrow> ('i, 'e, 'h) script" where
  "identScript ident = map_script ident id id"

lemma identScript_simps [simp]:
  "identScript ident (Add e) = Add e" "identScript ident (Mod e) = Mod e" "identScript ident (Del k) = Del (ident k)"
  "identScript ident (Load e) = Load e" "identScript ident (SetHeader h) = SetHeader h"
  "identScript ident (Block c ss) = Block c (map (identScript ident) ss)"
  by (simp_all add: identScript_def)

context key_order
begin

lemma execScript_ident:
  "identR ident (execScript lt getKey x d) = execScript (<) (ident \<circ> getKey) (identScript ident x) (identDelta ident d)"
proof (induction x arbitrary: d)
  case (Block c ss)
  have ss: "identR ident (foldE (execScript lt getKey) ss e)
      = foldE (execScript (<) (ident \<circ> getKey)) (map (identScript ident) ss) (identDelta ident e)" for e
    by (rule foldE_ident_on) (rule Block)
  have "identR ident (bindE (commit lt getKey (OuterDelta d) i) (\<lambda>(p, _). case p of OuterDelta d \<Rightarrow> Inr d | HeaderOf _ \<Rightarrow> Inr d))
      = bindE (commit (<) (ident \<circ> getKey) (OuterDelta (identDelta ident d)) (identDelta ident i))
          (\<lambda>(p, _). case p of OuterDelta d \<Rightarrow> Inr d | HeaderOf _ \<Rightarrow> Inr (identDelta ident d))" for i
    using commit_outer_ident [of getKey d i]
    by (cases "commit lt getKey (OuterDelta d) i";
        cases "commit (<) (ident \<circ> getKey) (OuterDelta (identDelta ident d)) (identDelta ident i)")
      (auto split: parent.splits)
  then show ?case
    unfolding execScript.simps identScript_simps
    by (intro bindE_ident [where f = "identDelta ident"] ss [of "nestedDelta d", unfolded identDelta_new]) simp
qed (simp_all add: addEntry_ident modEntry_ident deleteEntry_ident recordEntry_ident identDelta_update)

lemma execScripts_ident:
  "identR ident (foldE (execScript lt getKey) xs d) =
     foldE (execScript (<) (ident \<circ> getKey)) (map (identScript ident) xs) (identDelta ident d)"
  by (rule foldE_ident) (rule execScript_ident)

end

end
