(* ===== verification/Std_Sort.thy ===== *)
theory Std_Sort
  imports Main "HOL-Library.Multiset"
begin

text \<open>
  \<open>std::sort\<close>. The standard promises a permutation of the range that is sorted by the
  comparison, and no more: elements the comparison does not separate come in any order. The
  locale states that promise; insertion sort is one function that keeps it.
\<close>

definition strict_weak :: "('t \<Rightarrow> 't \<Rightarrow> bool) \<Rightarrow> bool" where
  "strict_weak lt \<longleftrightarrow> (\<forall>x. \<not> lt x x) \<and> (\<forall>x y z. lt x y \<longrightarrow> lt y z \<longrightarrow> lt x z)
     \<and> (\<forall>x y z. lt x z \<longrightarrow> lt x y \<or> lt y z)"

lemma strict_weak_key: "strict_weak (\<lambda>x y. f x < f y)" for f :: "'t \<Rightarrow> 'b::linorder"
  unfolding strict_weak_def
proof (intro conjI allI impI)
  fix x y z
  show "f x < f y \<or> f y < f z" if "f x < f z"
    using le_less_trans [OF _ that, of "f y"] by (cases "f x < f y") (simp_all add: not_less)
qed (simp, erule (1) less_trans)

lemma sorted_key_unique:
  assumes "sorted (map f xs)" "sorted (map f ys)" "mset xs = mset ys" "inj_on f (set xs)"
  shows "xs = ys"
proof -
  have "mset (map f xs) = mset (map f ys)" using assms(3) by simp
  then have "map f xs = map f ys" using assms(1,2) by (metis properties_for_sort)
  moreover have "set xs = set ys" using assms(3) by (metis set_mset_mset)
  ultimately show ?thesis using assms(4) by (metis inj_on_map_eq_map Un_absorb)
qed

locale sorting =
  fixes srt :: "('t \<Rightarrow> 't \<Rightarrow> bool) \<Rightarrow> 't list \<Rightarrow> 't list"
  assumes sort_permutes: "strict_weak lt \<Longrightarrow> mset (srt lt xs) = mset xs"
    and sort_sorts: "strict_weak lt \<Longrightarrow> sorted_wrt (\<lambda>x y. \<not> lt y x) (srt lt xs)"
begin

lemma sort_set: "strict_weak lt \<Longrightarrow> set (srt lt xs) = set xs"
  by (metis sort_permutes set_mset_mset)

lemma sort_length: "strict_weak lt \<Longrightarrow> length (srt lt xs) = length xs"
  by (metis sort_permutes size_mset)

lemma sort_distinct: "strict_weak lt \<Longrightarrow> distinct (srt lt xs) = distinct xs"
  by (metis sort_permutes mset_eq_imp_distinct_iff)

lemma sort_key_sorted:
  fixes f :: "'t \<Rightarrow> 'b::linorder"
  shows "sorted (map f (srt (\<lambda>x y. f x < f y) xs))"
  using sort_sorts [OF strict_weak_key, of f xs] by (simp add: sorted_wrt_map not_less)

lemma sort_key_unique:
  fixes f :: "'t \<Rightarrow> 'b::linorder"
  assumes "mset xs = mset ys" "sorted (map f ys)" "inj_on f (set xs)"
  shows "srt (\<lambda>x y. f x < f y) xs = ys"
  by (rule sorted_key_unique [where f = f])
    (simp_all add: assms sort_key_sorted sort_permutes [OF strict_weak_key] sort_set [OF strict_weak_key])

lemma sort_short: "strict_weak lt \<Longrightarrow> length xs \<le> 1 \<Longrightarrow> srt lt xs = xs"
  using sort_permutes [of lt xs] by (cases xs) auto

end

fun insertBy :: "('a \<Rightarrow> 'a \<Rightarrow> bool) \<Rightarrow> 'a \<Rightarrow> 'a list \<Rightarrow> 'a list" where
  "insertBy cmp x [] = [x]"
| "insertBy cmp x (y # ys) = (if cmp y x then y # insertBy cmp x ys else x # y # ys)"

definition stdSort :: "('a \<Rightarrow> 'a \<Rightarrow> bool) \<Rightarrow> 'a list \<Rightarrow> 'a list" where
  "stdSort cmp xs = foldr (insertBy cmp) xs []"

lemma mset_insertBy: "mset (insertBy cmp x ys) = add_mset x (mset ys)"
  by (induction ys) auto

lemma sorted_insertBy:
  assumes "strict_weak lt" "sorted_wrt (\<lambda>x y. \<not> lt y x) ys"
  shows "sorted_wrt (\<lambda>x y. \<not> lt y x) (insertBy lt x ys)"
  using assms(2)
proof (induction ys)
  case (Cons y ys)
  have "set (insertBy lt x ys) = insert x (set ys)"
    using mset_insertBy [of lt x ys] by (metis set_mset_add_mset_insert set_mset_mset)
  moreover have "lt y x \<Longrightarrow> \<not> lt x y" using assms(1) unfolding strict_weak_def by metis
  moreover have "\<not> lt y x \<Longrightarrow> \<not> lt z y \<Longrightarrow> \<not> lt z x" for z using assms(1) unfolding strict_weak_def by metis
  ultimately show ?case using Cons by simp
qed simp

interpretation insertion: sorting stdSort
proof
  fix lt :: "'a \<Rightarrow> 'a \<Rightarrow> bool" and xs :: "'a list"
  assume "strict_weak lt"
  show "mset (stdSort lt xs) = mset xs" by (induction xs) (simp_all add: stdSort_def mset_insertBy)
  show "sorted_wrt (\<lambda>x y. \<not> lt y x) (stdSort lt xs)"
    by (induction xs) (simp_all add: stdSort_def sorted_insertBy [OF \<open>strict_weak lt\<close>])
qed

end
