(* ===== verification/Bucket.thy ===== *)
theory Bucket
  imports Ledger_Keys Ledger_Delta Std_Sort
begin

text \<open>
  \<open>src/src/bucket/Bucket.cpp\<close> and \<open>BucketApplicator.cpp\<close>: immutable sorted files of live
  entries and tombstones.

  A bucket is the list of the entries of its file; the empty bucket has no file. Files are
  addressed by the hash of their contents, so a bucket is determined by that list. An input
  iterator is the list of the entries it has still to read. The output iterator is a record;
  the file it writes is \<open>mOut\<close>, whose length is \<open>mObjectsPut\<close>. \<open>cmp\<close> is \<open>BucketEntryIdCmp\<close>.
  \<open>std::sort\<close> is an insertion sort: of the permutations sorted by \<open>cmp\<close> that the standard
  allows, it is one, and the only one when no two entries are identified.

  The lemmas show that one pass of \<open>merge\<close> over sorted inputs computes the sorted overlay of
  the new bucket over the old one, without the shadowed keys and, at the last level, without
  tombstones; that \<open>fresh\<close> holds exactly a batch; and that \<open>apply\<close> replays a bucket on the
  database whatever its chunks.
\<close>

section \<open>Definitions\<close>

type_synonym ('k, 'e) bucket = "('k, 'e) BucketEntry list"
type_synonym ('k, 'e) entryCmp = "('k, 'e) BucketEntry \<Rightarrow> ('k, 'e) BucketEntry \<Rightarrow> bool"

fun isDead :: "('k, 'e) BucketEntry \<Rightarrow> bool" where
  "isDead (LIVEENTRY _) = False"
| "isDead (DEADENTRY _) = True"

record ('k, 'e) OutputIterator =
  mOut :: "('k, 'e) BucketEntry list"
  mBuf :: "('k, 'e) BucketEntry option"
  mKeepDeadEntries :: bool

definition newOutput :: "bool \<Rightarrow> ('k, 'e) OutputIterator" where
  "newOutput keepDeadEntries = \<lparr>mOut = [], mBuf = None, mKeepDeadEntries = keepDeadEntries\<rparr>"

definition put ::
  "('k, 'e) entryCmp \<Rightarrow> ('k, 'e) BucketEntry \<Rightarrow> ('k, 'e) OutputIterator
     \<Rightarrow> cxx_error + ('k, 'e) OutputIterator" where
  "put cmp e out =
     (if \<not> mKeepDeadEntries out \<and> isDead e then Inr out
      else bindE (case mBuf out of
             Some buf \<Rightarrow>
               bindE (assertE (\<not> cmp e buf) AssertFail) (\<lambda>_.
                 Inr (if cmp buf e then out\<lparr>mOut := mOut out @ [buf]\<rparr> else out))
           | None \<Rightarrow> Inr out) (\<lambda>out.
        Inr (out\<lparr>mBuf := Some e\<rparr>)))"

definition getBucket :: "('k, 'e) OutputIterator \<Rightarrow> ('k, 'e) bucket" where
  "getBucket out = (case mBuf out of Some buf \<Rightarrow> mOut out @ [buf] | None \<Rightarrow> mOut out)"

fun containsBucketIdentity :: "('k, 'e) entryCmp \<Rightarrow> ('k, 'e) BucketEntry \<Rightarrow> ('k, 'e) bucket \<Rightarrow> bool" where
  "containsBucketIdentity cmp x [] = False"
| "containsBucketIdentity cmp x (e # iter) =
     (if \<not> (cmp e x \<or> cmp x e) then True else containsBucketIdentity cmp x iter)"

fun countLiveAndDeadEntries_from :: "nat \<times> nat \<Rightarrow> ('k, 'e) bucket \<Rightarrow> nat \<times> nat" where
  "countLiveAndDeadEntries_from (live, dead) [] = (live, dead)"
| "countLiveAndDeadEntries_from (live, dead) (e # iter) =
     countLiveAndDeadEntries_from (if isDead e then (live, dead + 1) else (live + 1, dead)) iter"

definition countLiveAndDeadEntries :: "('k, 'e) bucket \<Rightarrow> nat \<times> nat" where
  "countLiveAndDeadEntries b = countLiveAndDeadEntries_from (0, 0) b"

text \<open>
  \<open>maybe_put\<close>: every shadow iterator in turn is advanced to the candidate; the first that
  stands on the same identity ends the scan, and the candidate is not written.
\<close>

fun scanShadows ::
  "('k, 'e) entryCmp \<Rightarrow> ('k, 'e) BucketEntry \<Rightarrow> ('k, 'e) bucket list \<Rightarrow> ('k, 'e) bucket list \<times> bool" where
  "scanShadows cmp e [] = ([], False)"
| "scanShadows cmp e (si # sis) =
     (let si' = dropWhile (\<lambda>s. cmp s e) si in
      if si' \<noteq> [] \<and> \<not> cmp e (hd si') then (si' # sis, True)
      else let (r, shadowed) = scanShadows cmp e sis in (si' # r, shadowed))"

definition maybe_put ::
  "('k, 'e) entryCmp \<Rightarrow> ('k, 'e) BucketEntry \<Rightarrow> ('k, 'e) bucket list \<Rightarrow> ('k, 'e) OutputIterator
     \<Rightarrow> cxx_error + (('k, 'e) bucket list \<times> ('k, 'e) OutputIterator)" where
  "maybe_put cmp e shadowIterators out =
     (let (sis, shadowed) = scanShadows cmp e shadowIterators in
      if shadowed then Inr (sis, out)
      else bindE (put cmp e out) (\<lambda>out. Inr (sis, out)))"

fun mergeLoop ::
  "('k, 'e) entryCmp \<Rightarrow> ('k, 'e) bucket \<Rightarrow> ('k, 'e) bucket \<Rightarrow> ('k, 'e) bucket list
     \<Rightarrow> ('k, 'e) OutputIterator \<Rightarrow> cxx_error + ('k, 'e) OutputIterator" where
  "mergeLoop cmp [] [] sis out = Inr out"
| "mergeLoop cmp (x # oi) [] sis out =
     bindE (maybe_put cmp x sis out) (\<lambda>(sis, out). mergeLoop cmp oi [] sis out)"
| "mergeLoop cmp [] (y # ni) sis out =
     bindE (maybe_put cmp y sis out) (\<lambda>(sis, out). mergeLoop cmp [] ni sis out)"
| "mergeLoop cmp (x # oi) (y # ni) sis out =
     (if cmp x y then bindE (maybe_put cmp x sis out) (\<lambda>(sis, out). mergeLoop cmp oi (y # ni) sis out)
      else if cmp y x then bindE (maybe_put cmp y sis out) (\<lambda>(sis, out). mergeLoop cmp (x # oi) ni sis out)
      else bindE (maybe_put cmp y sis out) (\<lambda>(sis, out). mergeLoop cmp oi ni sis out))"

definition mergeBuckets ::
  "('k, 'e) entryCmp \<Rightarrow> ('k, 'e) bucket \<Rightarrow> ('k, 'e) bucket \<Rightarrow> ('k, 'e) bucket list \<Rightarrow> bool
     \<Rightarrow> cxx_error + ('k, 'e) bucket" where
  "mergeBuckets cmp oldBucket newBucket shadows keepDeadEntries =
     bindE (mergeLoop cmp oldBucket newBucket shadows (newOutput keepDeadEntries)) (\<lambda>out.
       Inr (getBucket out))"

definition fresh ::
  "('k, 'e) entryCmp \<Rightarrow> 'e list \<Rightarrow> 'k list \<Rightarrow> cxx_error + ('k, 'e) bucket" where
  "fresh cmp liveEntries deadEntries =
     (let live = stdSort cmp (map LIVEENTRY liveEntries);
          dead = stdSort cmp (map DEADENTRY deadEntries) in
      bindE (foldE (put cmp) live (newOutput True)) (\<lambda>liveOut.
      bindE (foldE (put cmp) dead (newOutput True)) (\<lambda>deadOut.
        mergeBuckets cmp (getBucket liveOut) (getBucket deadOut) [] True)))"

text \<open>
  \<open>BucketApplicator\<close>: the rest of the file, whether the stream is still good, the number of
  entries applied so far and the database. A read at the end of the file fails and leaves the
  stream bad; a bucket without a file never opens it.
\<close>

record ('k, 'e) BucketApplicator =
  mIn :: "('k, 'e) BucketEntry list"
  mInGood :: bool
  mSize :: u64
  mDb :: "'k \<rightharpoonup> 'e"

definition newApplicator :: "('k \<rightharpoonup> 'e) \<Rightarrow> ('k, 'e) bucket \<Rightarrow> ('k, 'e) BucketApplicator" where
  "newApplicator db b = \<lparr>mIn = b, mInGood = (b \<noteq> []), mSize = 0, mDb = db\<rparr>"

fun applyEntry :: "('e \<Rightarrow> 'k) \<Rightarrow> ('k, 'e) BucketEntry \<Rightarrow> ('k \<rightharpoonup> 'e) \<Rightarrow> ('k \<rightharpoonup> 'e)" where
  "applyEntry key (LIVEENTRY e) db = db(key e \<mapsto> e)"
| "applyEntry key (DEADENTRY k) db = db(k := None)"

fun advanceLoop ::
  "('e \<Rightarrow> 'k) \<Rightarrow> ('k, 'e) BucketEntry list \<Rightarrow> u64 \<Rightarrow> ('k \<rightharpoonup> 'e)
     \<Rightarrow> ('k, 'e) BucketEntry list \<times> bool \<times> u64 \<times> ('k \<rightharpoonup> 'e)" where
  "advanceLoop key [] sz db = ([], False, sz, db)"
| "advanceLoop key (entry # rest) sz db =
     (let db = applyEntry key entry db; sz = sz + 1 in
      if and sz 255 = 255 then (rest, True, sz, db)
      else advanceLoop key rest sz db)"

definition advance :: "('e \<Rightarrow> 'k) \<Rightarrow> ('k, 'e) BucketApplicator \<Rightarrow> ('k, 'e) BucketApplicator" where
  "advance key a =
     (if mInGood a
      then let (rest, good, sz, db) = advanceLoop key (mIn a) (mSize a) (mDb a)
           in a\<lparr>mIn := rest, mInGood := good, mSize := sz, mDb := db\<rparr>
      else a)"

lemma advanceLoop_progress:
  "advanceLoop key es sz db = (rest, good, sz', db') \<Longrightarrow>
     length rest < length es \<or> (rest = [] \<and> \<not> good)"
proof (induction es arbitrary: sz db)
  case (Cons e es)
  then show ?case by (force simp: Let_def split: if_splits)
qed simp

function applyLoop :: "('e \<Rightarrow> 'k) \<Rightarrow> ('k, 'e) BucketApplicator \<Rightarrow> ('k, 'e) BucketApplicator" where
  "applyLoop key a = (if mInGood a then applyLoop key (advance key a) else a)"
  by auto
termination
proof (relation "measure (\<lambda>(key, a). 2 * length (mIn a) + (if mInGood a then 1 else 0))")
  fix key :: "'e \<Rightarrow> 'k" and a :: "('k, 'e) BucketApplicator"
  assume "mInGood a"
  then show "((key, advance key a), key, a) \<in> measure (\<lambda>(key, a). 2 * length (mIn a) + (if mInGood a then 1 else 0))"
    using advanceLoop_progress [of key "mIn a" "mSize a" "mDb a"]
    by (cases "advanceLoop key (mIn a) (mSize a) (mDb a)") (force simp: advance_def)
qed simp

definition applyBucket :: "('e \<Rightarrow> 'k) \<Rightarrow> ('k, 'e) bucket \<Rightarrow> ('k \<rightharpoonup> 'e) \<Rightarrow> ('k \<rightharpoonup> 'e)" where
  "applyBucket key b db = mDb (applyLoop key (newApplicator db b))"

section \<open>Identity and lookup\<close>

text \<open>A comparison that orders entries by an identity in a linear order.\<close>

definition ident_order :: "('k, 'e) entryCmp \<Rightarrow> (('k, 'e) BucketEntry \<Rightarrow> 'i::linorder) \<Rightarrow> bool" where
  "ident_order cmp kf \<longleftrightarrow> (\<forall>a b. cmp a b \<longleftrightarrow> kf a < kf b)"

definition bucket_ok :: "(('k, 'e) BucketEntry \<Rightarrow> 'i::linorder) \<Rightarrow> ('k, 'e) bucket \<Rightarrow> bool" where
  "bucket_ok kf b \<longleftrightarrow> sorted_wrt (<) (map kf b)"

definition blookup :: "(('k, 'e) BucketEntry \<Rightarrow> 'i) \<Rightarrow> ('k, 'e) bucket \<Rightarrow> 'i \<rightharpoonup> ('k, 'e) BucketEntry" where
  "blookup kf b i = find (\<lambda>e. kf e = i) b"

abbreviation idents :: "(('k, 'e) BucketEntry \<Rightarrow> 'i) \<Rightarrow> ('k, 'e) bucket \<Rightarrow> 'i set" where
  "idents kf b \<equiv> kf ` set b"

lemma bucket_ok_Nil [simp]: "bucket_ok kf []"
  by (simp add: bucket_ok_def)

lemma bucket_ok_Cons [simp]: "bucket_ok kf (e # b) \<longleftrightarrow> (\<forall>x \<in> set b. kf e < kf x) \<and> bucket_ok kf b"
  by (auto simp: bucket_ok_def)

lemma bucket_ok_snoc: "bucket_ok kf (b @ [e]) \<longleftrightarrow> bucket_ok kf b \<and> (\<forall>x \<in> set b. kf x < kf e)"
  by (auto simp: bucket_ok_def sorted_wrt_append)

lemma bucket_ok_filter: "bucket_ok kf b \<Longrightarrow> bucket_ok kf (filter P b)"
  unfolding bucket_ok_def by (induction b) auto

lemma blookup_Nil [simp]: "blookup kf [] i = None"
  by (simp add: blookup_def)

lemma blookup_Cons [simp]: "blookup kf (e # b) i = (if kf e = i then Some e else blookup kf b i)"
  by (simp add: blookup_def)

lemma blookup_None: "blookup kf b i = None \<longleftrightarrow> i \<notin> idents kf b"
  by (induction b) auto

lemma blookup_SomeD: "blookup kf b i = Some e \<Longrightarrow> e \<in> set b \<and> kf e = i"
  by (induction b) (auto split: if_splits)

lemma blookup_Some: "bucket_ok kf b \<Longrightarrow> blookup kf b i = Some e \<longleftrightarrow> e \<in> set b \<and> kf e = i"
  by (induction b) auto

lemma blookup_filter_ident: "blookup kf (filter (\<lambda>e. P (kf e)) b) i = (if P i then blookup kf b i else None)"
  by (induction b) auto

lemma blookup_filter:
  "bucket_ok kf b \<Longrightarrow> blookup kf (filter P b) i =
     (case blookup kf b i of Some e \<Rightarrow> if P e then Some e else None | None \<Rightarrow> None)"
proof (induction b)
  case (Cons e b)
  then have "kf e = i \<Longrightarrow> blookup kf b i = None" by (auto simp: blookup_None)
  with Cons show ?case by (auto split: option.splits)
qed simp

section \<open>One pass of the merge\<close>

text \<open>What the pass writes, read off the inputs.\<close>

fun overlay :: "(('k, 'e) BucketEntry \<Rightarrow> 'i::linorder) \<Rightarrow> ('k, 'e) bucket \<Rightarrow> ('k, 'e) bucket \<Rightarrow> ('k, 'e) bucket" where
  "overlay kf [] ys = ys"
| "overlay kf xs [] = xs"
| "overlay kf (x # xs) (y # ys) =
     (if kf x < kf y then x # overlay kf xs (y # ys)
      else if kf y < kf x then y # overlay kf (x # xs) ys
      else y # overlay kf xs ys)"

lemma overlay_Nil2 [simp]: "overlay kf xs [] = xs"
  by (cases xs) auto

lemma idents_overlay [simp]: "idents kf (overlay kf xs ys) = idents kf xs \<union> idents kf ys"
  by (induction kf xs ys rule: overlay.induct) (auto simp: not_less_iff_gr_or_eq)

lemma overlay_bound:
  assumes "\<forall>i \<in> idents kf xs \<union> idents kf ys. a < i"
  shows "\<forall>x \<in> set (overlay kf xs ys). a < kf x"
proof
  fix x assume "x \<in> set (overlay kf xs ys)"
  then have "kf x \<in> idents kf (overlay kf xs ys)" by (rule imageI)
  then show "a < kf x" using assms unfolding idents_overlay by blast
qed

lemma bucket_ok_overlay:
  "bucket_ok kf xs \<Longrightarrow> bucket_ok kf ys \<Longrightarrow> bucket_ok kf (overlay kf xs ys)"
proof (induction kf xs ys rule: overlay.induct)
  case (3 kf x xs y ys)
  have x: "\<forall>z \<in> set xs. kf x < kf z" "bucket_ok kf xs" and y: "\<forall>z \<in> set ys. kf y < kf z" "bucket_ok kf ys"
    using "3.prems" by simp_all
  consider "kf x < kf y" | "kf y < kf x" | "kf x = kf y" by force
  then show ?case
  proof cases
    case 1
    have "\<forall>z \<in> set (overlay kf xs (y # ys)). kf x < kf z"
      by (rule overlay_bound) (use 1 x y in auto)
    then show ?thesis using 1 "3.IH"(1) [OF 1 x(2) "3.prems"(2)] by simp
  next
    case 2
    have "\<forall>z \<in> set (overlay kf (x # xs) ys). kf y < kf z"
      by (rule overlay_bound) (use 2 x y in auto)
    then show ?thesis using 2 less_not_sym [OF 2] "3.IH"(2) "3.prems"(1) y(2) by simp
  next
    case eq: 3
    have "\<forall>z \<in> set (overlay kf xs ys). kf y < kf z"
      by (rule overlay_bound) (use eq x y in auto)
    then show ?thesis using eq "3.IH"(3) x(2) y(2) by simp
  qed
qed auto

lemma blookup_overlay:
  "bucket_ok kf xs \<Longrightarrow> bucket_ok kf ys \<Longrightarrow>
     blookup kf (overlay kf xs ys) = blookup kf xs ++ blookup kf ys"
proof (induction kf xs ys rule: overlay.induct)
  case (3 kf x xs y ys)
  have n: "blookup kf ys (kf x) = None" if "kf x \<le> kf y"
    using that 3 by (force simp: blookup_None)
  have m: "blookup kf xs (kf y) = None" if "kf y \<le> kf x"
    using that 3 by (force simp: blookup_None)
  show ?case
    using 3 n m by (auto simp: fun_eq_iff map_add_def split: option.splits)
qed (auto simp: fun_eq_iff map_add_def split: option.splits)

definition shadowed :: "(('k, 'e) BucketEntry \<Rightarrow> 'i) \<Rightarrow> ('k, 'e) bucket list \<Rightarrow> 'i \<Rightarrow> bool" where
  "shadowed kf shadows i \<longleftrightarrow> (\<exists>s \<in> set shadows. i \<in> idents kf s)"

lemma shadowed_Nil [simp]: "\<not> shadowed kf [] i"
  by (simp add: shadowed_def)

lemma shadowed_Cons [simp]: "shadowed kf (s # ss) i \<longleftrightarrow> i \<in> idents kf s \<or> shadowed kf ss i"
  by (simp add: shadowed_def)

lemma dropWhile_idents:
  assumes "bucket_ok kf b" "a \<le> i"
  shows "i \<in> idents kf (dropWhile (\<lambda>s. kf s < a) b) \<longleftrightarrow> i \<in> idents kf b"
  using assms by (induction b) auto

lemma bucket_ok_dropWhile: "bucket_ok kf b \<Longrightarrow> bucket_ok kf (dropWhile P b)"
  by (induction b) auto

lemma dropWhile_head:
  assumes "bucket_ok kf b"
  shows "dropWhile (\<lambda>s. kf s < a) b \<noteq> [] \<and> \<not> a < kf (hd (dropWhile (\<lambda>s. kf s < a) b)) \<longleftrightarrow> a \<in> idents kf b"
  using assms by (induction b) (auto simp: not_less_iff_gr_or_eq)

lemma scanShadows_spec:
  assumes "ident_order cmp kf" "\<forall>s \<in> set sis. bucket_ok kf s"
  shows "snd (scanShadows cmp e sis) = shadowed kf sis (kf e)
    \<and> (\<forall>s \<in> set (fst (scanShadows cmp e sis)). bucket_ok kf s)
    \<and> (\<forall>i \<ge> kf e. shadowed kf (fst (scanShadows cmp e sis)) i = shadowed kf sis i)"
  using assms(2)
proof (induction sis)
  case (Cons s sis)
  let ?d = "dropWhile (\<lambda>s. kf s < kf e) s"
  have c: "cmp a b \<longleftrightarrow> kf a < kf b" for a b using assms(1) by (simp add: ident_order_def)
  have s: "bucket_ok kf s" using Cons.prems by simp
  show ?case
  proof (cases "kf e \<in> idents kf s")
    case True
    then have "scanShadows cmp e (s # sis) = (?d # sis, True)"
      using dropWhile_head [OF s, of "kf e"] by (simp add: c)
    then show ?thesis
      using True Cons.prems dropWhile_idents [OF s] bucket_ok_dropWhile [OF s] by auto
  next
    case False
    then have "scanShadows cmp e (s # sis) = (?d # fst (scanShadows cmp e sis), snd (scanShadows cmp e sis))"
      using dropWhile_head [OF s, of "kf e"] by (auto simp: c split_beta Let_def)
    then show ?thesis
      using False Cons dropWhile_idents [OF s] bucket_ok_dropWhile [OF s] by auto
  qed
qed simp

lemma put_spec:
  assumes "ident_order cmp kf" "\<forall>x \<in> set (getBucket out). kf x < kf e"
  shows "\<exists>out'. put cmp e out = Inr out' \<and> mKeepDeadEntries out' = mKeepDeadEntries out
    \<and> getBucket out' = getBucket out @ (if mKeepDeadEntries out \<or> \<not> isDead e then [e] else [])"
proof -
  have c: "cmp a b \<longleftrightarrow> kf a < kf b" for a b using assms(1) by (simp add: ident_order_def)
  show ?thesis
    using assms(2) by (cases "mBuf out") (auto simp: put_def getBucket_def c less_not_sym)
qed

lemma maybe_put_spec:
  assumes "ident_order cmp kf" "\<forall>s \<in> set sis. bucket_ok kf s" "\<forall>x \<in> set (getBucket out). kf x < kf e"
  shows "\<exists>sis' out'. maybe_put cmp e sis out = Inr (sis', out')
    \<and> mKeepDeadEntries out' = mKeepDeadEntries out
    \<and> (\<forall>s \<in> set sis'. bucket_ok kf s) \<and> (\<forall>i \<ge> kf e. shadowed kf sis' i = shadowed kf sis i)
    \<and> getBucket out' = getBucket out @
        (if \<not> shadowed kf sis (kf e) \<and> (mKeepDeadEntries out \<or> \<not> isDead e) then [e] else [])"
proof -
  obtain sis' b where s: "scanShadows cmp e sis = (sis', b)" by force
  have sp: "b = shadowed kf sis (kf e)" "\<forall>s \<in> set sis'. bucket_ok kf s"
    "\<forall>i \<ge> kf e. shadowed kf sis' i = shadowed kf sis i"
    using scanShadows_spec [OF assms(1,2), of e] s by auto
  obtain out' where o: "put cmp e out = Inr out'" "mKeepDeadEntries out' = mKeepDeadEntries out"
    "getBucket out' = getBucket out @ (if mKeepDeadEntries out \<or> \<not> isDead e then [e] else [])"
    using put_spec [OF assms(1,3)] by blast
  show ?thesis
    using s sp o by (cases b) (auto simp: maybe_put_def)
qed

definition writes :: "(('k, 'e) BucketEntry \<Rightarrow> 'i) \<Rightarrow> ('k, 'e) bucket list \<Rightarrow> bool \<Rightarrow> ('k, 'e) BucketEntry \<Rightarrow> bool" where
  "writes kf shadows keepDead e \<longleftrightarrow> \<not> shadowed kf shadows (kf e) \<and> (keepDead \<or> \<not> isDead e)"

definition pass_ok where
  "pass_ok cmp kf oi ni zs \<longleftrightarrow> (\<forall>sis out. (\<forall>s \<in> set sis. bucket_ok kf s) \<longrightarrow>
     (\<forall>x \<in> set (getBucket out). \<forall>z \<in> set zs. kf x < kf z) \<longrightarrow>
     (\<exists>out'. mergeLoop cmp oi ni sis out = Inr out' \<and>
        getBucket out' = getBucket out @ filter (writes kf sis (mKeepDeadEntries out)) zs))"

lemma pass_okD:
  "pass_ok cmp kf oi ni zs \<Longrightarrow> \<forall>s \<in> set sis. bucket_ok kf s \<Longrightarrow>
     \<forall>x \<in> set (getBucket out). \<forall>z \<in> set zs. kf x < kf z \<Longrightarrow>
     \<exists>out'. mergeLoop cmp oi ni sis out = Inr out' \<and>
        getBucket out' = getBucket out @ filter (writes kf sis (mKeepDeadEntries out)) zs"
  unfolding pass_ok_def by blast

lemma mergeLoop_step:
  assumes cmp: "ident_order cmp kf" and rest: "pass_ok cmp kf oi ni zs" and e: "\<forall>z \<in> set zs. kf e < kf z"
    and sis: "\<forall>s \<in> set sis. bucket_ok kf s"
    and out: "\<forall>x \<in> set (getBucket out). \<forall>z \<in> set (e # zs). kf x < kf z"
  shows "\<exists>out'. bindE (maybe_put cmp e sis out) (\<lambda>(sis, out). mergeLoop cmp oi ni sis out) = Inr out' \<and>
     getBucket out' = getBucket out @ filter (writes kf sis (mKeepDeadEntries out)) (e # zs)"
proof -
  have "\<forall>x \<in> set (getBucket out). kf x < kf e" using out by simp
  then obtain sis1 out1 where m: "maybe_put cmp e sis out = Inr (sis1, out1)"
      "mKeepDeadEntries out1 = mKeepDeadEntries out" "\<forall>s \<in> set sis1. bucket_ok kf s"
      "\<forall>i \<ge> kf e. shadowed kf sis1 i = shadowed kf sis i"
      "getBucket out1 = getBucket out @ (if writes kf sis (mKeepDeadEntries out) e then [e] else [])"
    using maybe_put_spec [OF cmp sis] unfolding writes_def by metis
  have "\<forall>x \<in> set (getBucket out1). \<forall>z \<in> set zs. kf x < kf z"
    using m(5) out e by (auto split: if_splits)
  then obtain out2 where o: "mergeLoop cmp oi ni sis1 out1 = Inr out2"
      "getBucket out2 = getBucket out1 @ filter (writes kf sis1 (mKeepDeadEntries out)) zs"
    using pass_okD [OF rest m(3), of out1] m(2) by auto
  have "filter (writes kf sis1 (mKeepDeadEntries out)) zs = filter (writes kf sis (mKeepDeadEntries out)) zs"
    by (rule filter_cong) (use e m(4) in \<open>auto simp: writes_def\<close>)
  then show ?thesis using m(1,5) o by simp
qed

lemma mergeLoop_pass:
  assumes cmp: "ident_order cmp kf" and "bucket_ok kf oi" "bucket_ok kf ni"
  shows "pass_ok cmp kf oi ni (overlay kf oi ni)"
  using assms(2-)
proof (induction "length oi + length ni" arbitrary: oi ni rule: less_induct)
  case less
  have c: "cmp a b \<longleftrightarrow> kf a < kf b" for a b using cmp by (simp add: ident_order_def)
  note step = mergeLoop_step [OF cmp]
  show ?case
  proof (cases oi)
    case Nil
    show ?thesis
    proof (cases ni)
      case Nil
      with \<open>oi = []\<close> show ?thesis by (simp add: pass_ok_def)
    next
      case (Cons y ni')
      have "pass_ok cmp kf [] ni' ni'" using less.hyps [of "[]" ni'] less.prems Nil Cons by simp
      then show ?thesis using step [of "[]" ni' ni' y] less.prems Nil Cons by (simp add: pass_ok_def)
    qed
  next
    case (Cons x oi')
    note oi = this
    show ?thesis
    proof (cases ni)
      case Nil
      have "pass_ok cmp kf oi' [] oi'" using less.hyps [of oi' "[]"] less.prems Nil Cons by simp
      then show ?thesis using step [of oi' "[]" oi' x] less.prems Nil Cons by (simp add: pass_ok_def)
    next
      case (Cons y ni')
      have x: "\<forall>z \<in> set oi'. kf x < kf z" "bucket_ok kf oi'" and y: "\<forall>z \<in> set ni'. kf y < kf z" "bucket_ok kf ni'"
        using less.prems oi Cons by simp_all
      consider (lt) "kf x < kf y" | (gt) "kf y < kf x" "\<not> kf x < kf y" | (eq) "kf x = kf y" by force
      then show ?thesis
      proof cases
        case lt
        have "pass_ok cmp kf oi' (y # ni') (overlay kf oi' (y # ni'))"
          using less.hyps [of oi' "y # ni'"] less.prems oi Cons x by simp
        moreover have "\<forall>z \<in> set (overlay kf oi' (y # ni')). kf x < kf z"
          by (rule overlay_bound) (use lt x y in auto)
        ultimately show ?thesis
          using step [of oi' "y # ni'" _ x] lt unfolding oi Cons pass_ok_def [of _ _ "x # oi'"]
          by (simp add: c)
      next
        case gt
        have "pass_ok cmp kf (x # oi') ni' (overlay kf (x # oi') ni')"
          using less.hyps [of "x # oi'" ni'] less.prems oi Cons y by simp
        moreover have "\<forall>z \<in> set (overlay kf (x # oi') ni'). kf y < kf z"
          by (rule overlay_bound) (use gt x y in auto)
        ultimately show ?thesis
          using step [of "x # oi'" ni' _ y] gt unfolding oi Cons pass_ok_def [of _ _ "x # oi'" "y # ni'"]
          by (simp add: c)
      next
        case eq
        have "pass_ok cmp kf oi' ni' (overlay kf oi' ni')"
          using less.hyps [of oi' ni'] oi Cons x y by simp
        moreover have "\<forall>z \<in> set (overlay kf oi' ni'). kf y < kf z"
          by (rule overlay_bound) (use eq x y in auto)
        ultimately show ?thesis
          using step [of oi' ni' _ y] eq unfolding oi Cons pass_ok_def [of _ _ "x # oi'"]
          by (simp add: c)
      qed
    qed
  qed
qed

theorem mergeBuckets_overlay:
  assumes "ident_order cmp kf" "bucket_ok kf old" "bucket_ok kf new" "\<forall>s \<in> set shadows. bucket_ok kf s"
  shows "mergeBuckets cmp old new shadows keepDead
    = Inr (filter (writes kf shadows keepDead) (overlay kf old new))"
proof -
  have "getBucket (newOutput keepDead :: ('a, 'b) OutputIterator) = []"
    "mKeepDeadEntries (newOutput keepDead :: ('a, 'b) OutputIterator) = keepDead"
    by (simp_all add: newOutput_def getBucket_def)
  then show ?thesis
    using pass_okD [OF mergeLoop_pass [OF assms(1-3)] assms(4), of "newOutput keepDead"]
    by (auto simp: mergeBuckets_def)
qed

section \<open>Fresh buckets\<close>

lemma insertBy_ok:
  assumes "ident_order cmp kf" "bucket_ok kf b" "kf x \<notin> idents kf b"
  shows "bucket_ok kf (insertBy cmp x b) \<and> set (insertBy cmp x b) = insert x (set b)"
  using assms(2,3)
proof (induction b)
  case (Cons y b)
  have c: "cmp y x \<longleftrightarrow> kf y < kf x" using assms(1) by (simp add: ident_order_def)
  show ?case using Cons by (force simp: c not_less_iff_gr_or_eq)
qed simp

lemma stdSort_ok:
  assumes "ident_order cmp kf" "distinct (map kf xs)"
  shows "bucket_ok kf (stdSort cmp xs) \<and> set (stdSort cmp xs) = set xs"
  using assms(2)
proof (induction xs)
  case (Cons x xs)
  then show ?case
    using insertBy_ok [OF assms(1), of "stdSort cmp xs" x] by (auto simp: stdSort_def)
qed (simp add: stdSort_def)

lemma foldE_put:
  assumes "ident_order cmp kf" "mKeepDeadEntries out" "bucket_ok kf (getBucket out @ xs)"
  shows "\<exists>out'. foldE (put cmp) xs out = Inr out' \<and> getBucket out' = getBucket out @ xs"
  using assms(2,3)
proof (induction xs arbitrary: out)
  case (Cons x xs)
  have "\<forall>y \<in> set (getBucket out). kf y < kf x"
    using Cons.prems(2) by (auto simp: bucket_ok_def sorted_wrt_append)
  then obtain out1 where "put cmp x out = Inr out1" "mKeepDeadEntries out1"
      "getBucket out1 = getBucket out @ [x]"
    using put_spec [OF assms(1)] Cons.prems(1) by fastforce
  then show ?case using Cons.IH [of out1] Cons.prems by simp
qed simp

lemma fresh_overlay:
  assumes "ident_order cmp kf" "distinct (map (\<lambda>e. kf (LIVEENTRY e)) live)"
    "distinct (map (\<lambda>k. kf (DEADENTRY k)) dead)"
  shows "\<exists>l d. fresh cmp live dead = Inr (overlay kf l d) \<and> bucket_ok kf l \<and> bucket_ok kf d
    \<and> set l = LIVEENTRY ` set live \<and> set d = DEADENTRY ` set dead"
proof -
  let ?l = "stdSort cmp (map LIVEENTRY live)" and ?d = "stdSort cmp (map DEADENTRY dead)"
  have l: "bucket_ok kf ?l" "set ?l = LIVEENTRY ` set live"
    using stdSort_ok [OF assms(1), of "map LIVEENTRY live"] assms(2) by (auto simp: o_def)
  have d: "bucket_ok kf ?d" "set ?d = DEADENTRY ` set dead"
    using stdSort_ok [OF assms(1), of "map DEADENTRY dead"] assms(3) by (auto simp: o_def)
  have n: "getBucket (newOutput True :: ('a, 'b) OutputIterator) = []"
    "mKeepDeadEntries (newOutput True :: ('a, 'b) OutputIterator)"
    by (simp_all add: newOutput_def getBucket_def)
  obtain lo where lo: "foldE (put cmp) ?l (newOutput True) = Inr lo" "getBucket lo = ?l"
    using foldE_put [OF assms(1) n(2), of ?l] l(1) n(1) by auto
  obtain do where do: "foldE (put cmp) ?d (newOutput True) = Inr do" "getBucket do = ?d"
    using foldE_put [OF assms(1) n(2), of ?d] d(1) n(1) by auto
  have "mergeBuckets cmp ?l ?d [] True = Inr (filter (writes kf [] True) (overlay kf ?l ?d))"
    using mergeBuckets_overlay [OF assms(1) l(1) d(1), of "[]"] by simp
  moreover have "filter (writes kf [] True) (overlay kf ?l ?d) = overlay kf ?l ?d"
    by (rule filter_True) (simp add: writes_def)
  ultimately show ?thesis using lo do l d by (auto simp: fresh_def)
qed

section \<open>Scans of a bucket\<close>

lemma containsBucketIdentity_iff:
  "ident_order cmp kf \<Longrightarrow> containsBucketIdentity cmp x b \<longleftrightarrow> kf x \<in> idents kf b"
  by (induction b) (auto simp: ident_order_def not_less_iff_gr_or_eq)

lemma countLiveAndDeadEntries_from_eq:
  "countLiveAndDeadEntries_from (l, d) b =
     (l + length (filter (\<lambda>e. \<not> isDead e) b), d + length (filter isDead b))"
  by (induction b arbitrary: l d) auto

section \<open>Applying a bucket to the database\<close>

lemma advanceLoop_fold:
  "advanceLoop key es sz db = (rest, good, sz', db') \<Longrightarrow>
     fold (applyEntry key) rest db' = fold (applyEntry key) es db \<and> (\<not> good \<longrightarrow> rest = [])"
  by (induction es arbitrary: sz db) (auto simp: Let_def split: if_splits)

lemma applyLoop_fold:
  "\<not> mInGood a \<longrightarrow> mIn a = [] \<Longrightarrow> mDb (applyLoop key a) = fold (applyEntry key) (mIn a) (mDb a)"
proof (induction key a rule: applyLoop.induct)
  case (1 key a)
  show ?case
  proof (cases "mInGood a")
    case True
    obtain rest good sz db where r: "advanceLoop key (mIn a) (mSize a) (mDb a) = (rest, good, sz, db)"
      by (cases "advanceLoop key (mIn a) (mSize a) (mDb a)")
    then have "advance key a = a\<lparr>mIn := rest, mInGood := good, mSize := sz, mDb := db\<rparr>"
      using True by (simp add: advance_def)
    then show ?thesis
      using 1(1) [OF True] advanceLoop_fold [OF r] True by (subst applyLoop.simps) simp
  next
    case False
    then show ?thesis using 1(2) by simp
  qed
qed

declare applyLoop.simps [simp del]

lemma applyBucket_fold: "applyBucket key b db = fold (applyEntry key) b db"
  using applyLoop_fold [of "newApplicator db b" key] by (simp add: applyBucket_def newApplicator_def)

fun entryKey :: "('e \<Rightarrow> 'k) \<Rightarrow> ('k, 'e) BucketEntry \<Rightarrow> 'k" where
  "entryKey key (LIVEENTRY e) = key e"
| "entryKey key (DEADENTRY k) = k"

text \<open>The entry a key has according to what a lookup found, over a default.\<close>

fun liveOr :: "'e option \<Rightarrow> ('k, 'e) BucketEntry option \<Rightarrow> 'e option" where
  "liveOr z None = z"
| "liveOr z (Some (LIVEENTRY e)) = Some e"
| "liveOr z (Some (DEADENTRY k)) = None"

lemma applyEntry_at:
  "applyEntry key e db k = (if entryKey key e = k then liveOr None (Some e) else db k)"
  by (cases e) auto

lemma applyBucket_lookup:
  assumes "distinct (map (entryKey key) b)"
  shows "applyBucket key b db k = liveOr (db k) (blookup (entryKey key) b k)"
proof -
  have "fold (applyEntry key) b db k = liveOr (db k) (blookup (entryKey key) b k)"
    using assms
  proof (induction b arbitrary: db)
    case (Cons e b)
    then have "entryKey key e = k \<Longrightarrow> blookup (entryKey key) b k = None"
      by (force simp: blookup_None)
    moreover have "liveOr (liveOr None (Some e)) None = liveOr (db k) (Some e)" by (cases e) auto
    ultimately show ?case using Cons by (simp add: applyEntry_at)
  qed simp
  then show ?thesis by (simp add: applyBucket_fold)
qed

text \<open>The identity of an entry of a bucket: the identity of its key.\<close>

definition entryIdent :: "('k \<Rightarrow> 'i) \<Rightarrow> ('e \<Rightarrow> 'k) \<Rightarrow> ('k, 'e) BucketEntry \<Rightarrow> 'i" where
  "entryIdent ident key x = ident (entryKey key x)"

lemma entryIdent_simps [simp]:
  "entryIdent ident key (LIVEENTRY e) = ident (key e)" "entryIdent ident key (DEADENTRY k) = ident k"
  by (simp_all add: entryIdent_def)

context key_order
begin

lemma ident_order_entries: "ident_order (BucketEntryIdCmp lt key) (entryIdent ident key)" for key :: "'e \<Rightarrow> 'k"
  unfolding ident_order_def
proof (intro allI)
  fix a b :: "('k, 'e) BucketEntry"
  show "BucketEntryIdCmp lt key a b \<longleftrightarrow> entryIdent ident key a < entryIdent ident key b"
    by (cases a; cases b) (auto simp: lt_ident)
qed

end

lemma entryIdent_id: "entryIdent (\<lambda>k. k) key = entryKey key"
  by (simp add: entryIdent_def fun_eq_iff)

lemma ident_order_key: "ident_order (BucketEntryIdCmp (<) key) (entryKey key)" for key :: "'e \<Rightarrow> 'k::linorder"
  using linear_keys.ident_order_entries [of key] by (simp add: entryIdent_id)

lemma bucket_ok_keys: "bucket_ok (entryIdent ident key) b \<Longrightarrow> distinct (map (entryKey key) b)"
proof -
  assume "bucket_ok (entryIdent ident key) b"
  then have "distinct (map ident (map (entryKey key) b))"
    using strict_sorted_iff [of "map (entryIdent ident key) b"]
    by (simp add: bucket_ok_def sorted_wrt_map entryIdent_def [abs_def] comp_def)
  then show ?thesis unfolding distinct_map by blast
qed

end
