(* ===== verification/Future_Bucket.thy ===== *)
theory Future_Bucket
  imports Bucket
begin

text \<open>
  \<open>src/src/bucket/FutureBucket.h\<close> and \<open>FutureBucket.cpp\<close>: a merge in progress, which can be
  written out by hashes and restarted.

  The environment holds the entry order, the hash of a bucket (SHA-256 of its file, zero for
  the empty bucket) and \<open>BucketManager::getBucketByHash\<close>. A \<open>std::shared_future\<close> is invalid,
  still running, or ready; the value it has or will have is fixed when the merge starts,
  because its inputs are immutable, and \<open>finishMerge\<close> is the worker thread's step. Hashes
  are kept as values; the empty string is \<open>None\<close>. Whether files are retained on disk is not
  modelled.

  The default constructor does not initialise \<open>mKeepDeadEntries\<close> and \<open>load\<close> does not write it:
  its value after \<open>load\<close> is the argument \<open>indeterminate\<close>.
\<close>

section \<open>Definitions\<close>

datatype FutureState = FB_CLEAR | FB_HASH_OUTPUT | FB_HASH_INPUTS | FB_LIVE_OUTPUT | FB_LIVE_INPUTS

datatype 'b future = Invalid | Running "cxx_error + 'b" | Ready "cxx_error + 'b"

record ('k, 'e) bucket_env =
  entryIdCmp :: "('k, 'e) entryCmp"
  bucketHash :: "('k, 'e) bucket \<Rightarrow> hash256"
  getBucketByHash :: "hash256 \<Rightarrow> ('k, 'e) bucket option"

record ('k, 'e) FutureBucket =
  mState :: FutureState
  mInputCurrBucket :: "('k, 'e) bucket option"
  mInputSnapBucket :: "('k, 'e) bucket option"
  mInputShadowBuckets :: "('k, 'e) bucket list"
  mOutputBucket :: "('k, 'e) bucket future"
  mInputCurrBucketHash :: "hash256 option"
  mInputSnapBucketHash :: "hash256 option"
  mInputShadowBucketHashes :: "hash256 list"
  mOutputBucketHash :: "hash256 option"
  mFutureKeepDead :: bool

definition emptyFuture :: "bool \<Rightarrow> ('k, 'e) FutureBucket" where
  "emptyFuture indeterminate =
     \<lparr>mState = FB_CLEAR, mInputCurrBucket = None, mInputSnapBucket = None, mInputShadowBuckets = [],
      mOutputBucket = Invalid, mInputCurrBucketHash = None, mInputSnapBucketHash = None,
      mInputShadowBucketHashes = [], mOutputBucketHash = None, mFutureKeepDead = indeterminate\<rparr>"

definition isLive :: "('k, 'e) FutureBucket \<Rightarrow> bool" where
  "isLive fb = (mState fb = FB_LIVE_INPUTS \<or> mState fb = FB_LIVE_OUTPUT)"

definition isMerging :: "('k, 'e) FutureBucket \<Rightarrow> bool" where
  "isMerging fb = (mState fb = FB_LIVE_INPUTS)"

definition hasHashes :: "('k, 'e) FutureBucket \<Rightarrow> bool" where
  "hasHashes fb = (mState fb = FB_HASH_INPUTS \<or> mState fb = FB_HASH_OUTPUT)"

fun futureReady :: "'b future \<Rightarrow> bool" where
  "futureReady (Ready _) = True"
| "futureReady _ = False"

fun futureGet :: "'b future \<Rightarrow> cxx_error + 'b" where
  "futureGet (Ready r) = r"
| "futureGet (Running r) = r"
| "futureGet Invalid = Inl (RuntimeError ''no state'')"

fun finishMerge :: "'b future \<Rightarrow> 'b future" where
  "finishMerge (Running r) = Ready r"
| "finishMerge f = f"

definition mergeComplete :: "('k, 'e) FutureBucket \<Rightarrow> cxx_error + bool" where
  "mergeComplete fb =
     bindE (assertE (isLive fb) AssertFail) (\<lambda>_. Inr (futureReady (mOutputBucket fb)))"

definition checkHashEq :: "('k, 'e) bucket_env \<Rightarrow> ('k, 'e) bucket \<Rightarrow> hash256 option \<Rightarrow> cxx_error + unit" where
  "checkHashEq env b h = assertE (Some (bucketHash env b) = h) AssertFail"

definition checkHashesMatch :: "('k, 'e) bucket_env \<Rightarrow> ('k, 'e) FutureBucket \<Rightarrow> cxx_error + unit" where
  "checkHashesMatch env fb =
     bindE (if mInputShadowBuckets fb \<noteq> []
            then bindE (assertE (length (mInputShadowBuckets fb) = length (mInputShadowBucketHashes fb)) AssertFail)
                   (\<lambda>_. foldE (\<lambda>(b, h) _. checkHashEq env b (Some h))
                          (zip (mInputShadowBuckets fb) (mInputShadowBucketHashes fb)) ())
            else Inr ()) (\<lambda>_.
     bindE (case mInputSnapBucket fb of
              Some b \<Rightarrow> checkHashEq env b (mInputSnapBucketHash fb) | None \<Rightarrow> Inr ()) (\<lambda>_.
     bindE (case mInputCurrBucket fb of
              Some b \<Rightarrow> checkHashEq env b (mInputCurrBucketHash fb) | None \<Rightarrow> Inr ()) (\<lambda>_.
       if mOutputBucket fb \<noteq> Invalid
       then bindE (mergeComplete fb) (\<lambda>complete.
              if complete \<and> mOutputBucketHash fb \<noteq> None
              then bindE (futureGet (mOutputBucket fb)) (\<lambda>b. checkHashEq env b (mOutputBucketHash fb))
              else Inr ())
       else Inr ())))"

definition checkFutureState :: "('k, 'e) bucket_env \<Rightarrow> ('k, 'e) FutureBucket \<Rightarrow> cxx_error + unit" where
  "checkFutureState env fb =
     (case mState fb of
        FB_CLEAR \<Rightarrow>
          assertE (mInputShadowBuckets fb = [] \<and> mInputSnapBucket fb = None \<and> mInputCurrBucket fb = None
            \<and> mOutputBucket fb = Invalid \<and> mInputShadowBucketHashes fb = []
            \<and> mInputSnapBucketHash fb = None \<and> mInputCurrBucketHash fb = None
            \<and> mOutputBucketHash fb = None) AssertFail
      | FB_LIVE_INPUTS \<Rightarrow>
          bindE (assertE (mInputSnapBucket fb \<noteq> None \<and> mInputCurrBucket fb \<noteq> None
            \<and> mOutputBucket fb \<noteq> Invalid \<and> mOutputBucketHash fb = None) AssertFail) (\<lambda>_.
          checkHashesMatch env fb)
      | FB_LIVE_OUTPUT \<Rightarrow>
          bindE (mergeComplete fb) (\<lambda>complete.
          bindE (assertE complete AssertFail) (\<lambda>_.
          bindE (assertE (mOutputBucket fb \<noteq> Invalid \<and> mOutputBucketHash fb \<noteq> None) AssertFail) (\<lambda>_.
          checkHashesMatch env fb)))
      | FB_HASH_INPUTS \<Rightarrow>
          assertE (mInputSnapBucket fb = None \<and> mInputCurrBucket fb = None \<and> mOutputBucket fb = Invalid
            \<and> mInputSnapBucketHash fb \<noteq> None \<and> mInputCurrBucketHash fb \<noteq> None
            \<and> mOutputBucketHash fb = None) AssertFail
      | FB_HASH_OUTPUT \<Rightarrow>
          assertE (mInputSnapBucket fb = None \<and> mInputCurrBucket fb = None \<and> mOutputBucket fb = Invalid
            \<and> mInputSnapBucketHash fb = None \<and> mInputCurrBucketHash fb = None
            \<and> mOutputBucketHash fb \<noteq> None) AssertFail)"

definition clearInputs :: "('k, 'e) FutureBucket \<Rightarrow> ('k, 'e) FutureBucket" where
  "clearInputs fb = fb\<lparr>mInputShadowBuckets := [], mInputSnapBucket := None, mInputCurrBucket := None,
     mInputShadowBucketHashes := [], mInputSnapBucketHash := None, mInputCurrBucketHash := None\<rparr>"

definition clearOutput :: "('k, 'e) FutureBucket \<Rightarrow> ('k, 'e) FutureBucket" where
  "clearOutput fb = fb\<lparr>mOutputBucket := Invalid, mOutputBucketHash := None\<rparr>"

definition clearFuture :: "('k, 'e) FutureBucket \<Rightarrow> ('k, 'e) FutureBucket" where
  "clearFuture fb = clearOutput (clearInputs (fb\<lparr>mState := FB_CLEAR\<rparr>))"

definition startMerge ::
  "('k, 'e) bucket_env \<Rightarrow> ('k, 'e) FutureBucket \<Rightarrow> cxx_error + ('k, 'e) FutureBucket" where
  "startMerge env fb =
     bindE (assertE (mState fb = FB_LIVE_INPUTS) AssertFail) (\<lambda>_.
     bindE (derefE AssertFail (mInputCurrBucket fb)) (\<lambda>currB.
     bindE (derefE AssertFail (mInputSnapBucket fb)) (\<lambda>snap.
     bindE (assertE (mOutputBucket fb = Invalid) AssertFail) (\<lambda>_.
     let fb = fb\<lparr>mOutputBucket := Running (mergeBuckets (entryIdCmp env) currB snap
                                   (mInputShadowBuckets fb) (mFutureKeepDead fb))\<rparr> in
     bindE (checkFutureState env fb) (\<lambda>_. Inr fb)))))"

definition newFuture ::
  "('k, 'e) bucket_env \<Rightarrow> ('k, 'e) bucket \<Rightarrow> ('k, 'e) bucket \<Rightarrow> ('k, 'e) bucket list \<Rightarrow> bool
     \<Rightarrow> cxx_error + ('k, 'e) FutureBucket" where
  "newFuture env currB snap shadows keepDeadEntries =
     startMerge env
       \<lparr>mState = FB_LIVE_INPUTS, mInputCurrBucket = Some currB, mInputSnapBucket = Some snap,
        mInputShadowBuckets = shadows, mOutputBucket = Invalid,
        mInputCurrBucketHash = Some (bucketHash env currB),
        mInputSnapBucketHash = Some (bucketHash env snap),
        mInputShadowBucketHashes = map (bucketHash env) shadows, mOutputBucketHash = None,
        mFutureKeepDead = keepDeadEntries\<rparr>"

definition setLiveOutput ::
  "('k, 'e) bucket_env \<Rightarrow> ('k, 'e) bucket option \<Rightarrow> ('k, 'e) FutureBucket \<Rightarrow> cxx_error + ('k, 'e) FutureBucket" where
  "setLiveOutput env output fb =
     bindE (derefE NullDeref output) (\<lambda>b.
     let fb = fb\<lparr>mState := FB_LIVE_OUTPUT, mOutputBucketHash := Some (bucketHash env b),
                 mOutputBucket := Ready (Inr b)\<rparr> in
     bindE (checkFutureState env fb) (\<lambda>_. Inr fb))"

definition resolve ::
  "('k, 'e) bucket_env \<Rightarrow> ('k, 'e) FutureBucket \<Rightarrow> cxx_error + (('k, 'e) FutureBucket \<times> ('k, 'e) bucket)" where
  "resolve env fb =
     bindE (checkFutureState env fb) (\<lambda>_.
     bindE (assertE (isLive fb) AssertFail) (\<lambda>_.
     let fb = clearInputs fb in
     bindE (futureGet (mOutputBucket fb)) (\<lambda>bucket.
     let fb = fb\<lparr>mOutputBucket := finishMerge (mOutputBucket fb)\<rparr> in
     bindE (if mOutputBucketHash fb = None
            then Inr (fb\<lparr>mOutputBucketHash := Some (bucketHash env bucket)\<rparr>)
            else bindE (checkHashEq env bucket (mOutputBucketHash fb)) (\<lambda>_. Inr fb)) (\<lambda>fb.
     let fb = fb\<lparr>mState := FB_LIVE_OUTPUT\<rparr> in
     bindE (checkFutureState env fb) (\<lambda>_. Inr (fb, bucket))))))"

definition hasOutputHash :: "('k, 'e) FutureBucket \<Rightarrow> cxx_error + bool" where
  "hasOutputHash fb =
     (if mState fb = FB_LIVE_OUTPUT \<or> mState fb = FB_HASH_OUTPUT
      then bindE (assertE (mOutputBucketHash fb \<noteq> None) AssertFail) (\<lambda>_. Inr True)
      else Inr False)"

definition getOutputHash :: "('k, 'e) FutureBucket \<Rightarrow> cxx_error + hash256" where
  "getOutputHash fb =
     bindE (assertE (mState fb = FB_LIVE_OUTPUT \<or> mState fb = FB_HASH_OUTPUT) AssertFail) (\<lambda>_.
       derefE AssertFail (mOutputBucketHash fb))"

definition makeLive ::
  "('k, 'e) bucket_env \<Rightarrow> ('k, 'e) FutureBucket \<Rightarrow> cxx_error + ('k, 'e) FutureBucket" where
  "makeLive env fb =
     bindE (checkFutureState env fb) (\<lambda>_.
     bindE (assertE (\<not> isLive fb) AssertFail) (\<lambda>_.
     bindE (assertE (hasHashes fb) AssertFail) (\<lambda>_.
     bindE (hasOutputHash fb) (\<lambda>hasOutput.
     if hasOutput
     then bindE (getOutputHash fb) (\<lambda>h. setLiveOutput env (getBucketByHash env h) fb)
     else
       bindE (assertE (mState fb = FB_HASH_INPUTS) AssertFail) (\<lambda>_.
       bindE (derefE (RuntimeError ''wrong number of hex bytes when decoding uint256'') (mInputCurrBucketHash fb)) (\<lambda>hc.
       bindE (derefE (RuntimeError ''wrong number of hex bytes when decoding uint256'') (mInputSnapBucketHash fb)) (\<lambda>hs.
       bindE (assertE (mInputShadowBuckets fb = []) AssertFail) (\<lambda>_.
       bindE (foldE (\<lambda>h bs. bindE (derefE AssertFail (getBucketByHash env h)) (\<lambda>b. Inr (bs @ [b])))
                (mInputShadowBucketHashes fb) []) (\<lambda>shadows.
       bindE (startMerge env (fb\<lparr>mInputCurrBucket := getBucketByHash env hc,
                                 mInputSnapBucket := getBucketByHash env hs,
                                 mInputShadowBuckets := shadows, mState := FB_LIVE_INPUTS\<rparr>)) (\<lambda>fb.
       bindE (assertE (isLive fb) AssertFail) (\<lambda>_. Inr fb)))))))))))"

definition getHashes :: "('k, 'e) FutureBucket \<Rightarrow> hash256 list" where
  "getHashes fb =
     (case mInputCurrBucketHash fb of Some h \<Rightarrow> [h] | None \<Rightarrow> [])
     @ (case mInputSnapBucketHash fb of Some h \<Rightarrow> [h] | None \<Rightarrow> [])
     @ mInputShadowBucketHashes fb
     @ (case mOutputBucketHash fb of Some h \<Rightarrow> [h] | None \<Rightarrow> [])"

text \<open>The archived form: the state tag and the fields that go with it.\<close>

record saved_future =
  savedState :: FutureState
  savedCurr :: "hash256 option"
  savedSnap :: "hash256 option"
  savedShadow :: "hash256 list"
  savedOutput :: "hash256 option"

definition saveFuture :: "('k, 'e) bucket_env \<Rightarrow> ('k, 'e) FutureBucket \<Rightarrow> cxx_error + saved_future" where
  "saveFuture env fb =
     bindE (checkFutureState env fb) (\<lambda>_.
       Inr (case mState fb of
          FB_LIVE_INPUTS \<Rightarrow> \<lparr>savedState = FB_HASH_INPUTS, savedCurr = mInputCurrBucketHash fb,
             savedSnap = mInputSnapBucketHash fb, savedShadow = mInputShadowBucketHashes fb, savedOutput = None\<rparr>
        | FB_HASH_INPUTS \<Rightarrow> \<lparr>savedState = FB_HASH_INPUTS, savedCurr = mInputCurrBucketHash fb,
             savedSnap = mInputSnapBucketHash fb, savedShadow = mInputShadowBucketHashes fb, savedOutput = None\<rparr>
        | FB_LIVE_OUTPUT \<Rightarrow> \<lparr>savedState = FB_HASH_OUTPUT, savedCurr = None, savedSnap = None,
             savedShadow = [], savedOutput = mOutputBucketHash fb\<rparr>
        | FB_HASH_OUTPUT \<Rightarrow> \<lparr>savedState = FB_HASH_OUTPUT, savedCurr = None, savedSnap = None,
             savedShadow = [], savedOutput = mOutputBucketHash fb\<rparr>
        | FB_CLEAR \<Rightarrow> \<lparr>savedState = FB_CLEAR, savedCurr = None, savedSnap = None,
             savedShadow = [], savedOutput = None\<rparr>))"

definition loadFuture ::
  "('k, 'e) bucket_env \<Rightarrow> bool \<Rightarrow> saved_future \<Rightarrow> cxx_error + ('k, 'e) FutureBucket" where
  "loadFuture env indeterminate sf =
     (let fb = (clearFuture (emptyFuture indeterminate))\<lparr>mState := savedState sf\<rparr> in
      bindE (case savedState sf of
               FB_HASH_INPUTS \<Rightarrow> Inr (fb\<lparr>mInputCurrBucketHash := savedCurr sf,
                  mInputSnapBucketHash := savedSnap sf, mInputShadowBucketHashes := savedShadow sf\<rparr>)
             | FB_HASH_OUTPUT \<Rightarrow> Inr (fb\<lparr>mOutputBucketHash := savedOutput sf\<rparr>)
             | FB_CLEAR \<Rightarrow> Inr fb
             | _ \<Rightarrow> Inl (RuntimeError ''deserialized unexpected FutureBucket state'')) (\<lambda>fb.
      bindE (checkFutureState env fb) (\<lambda>_. Inr fb)))"

section \<open>States that pass their own check\<close>

lemma foldE_unit_pair:
  "foldE (\<lambda>(b, h) _. f b h) xs () = Inr () \<longleftrightarrow> (\<forall>(b, h) \<in> set xs. f b h = Inr ())"
  by (induction xs) (auto simp: bindE_eq_Inr)

lemma shadow_hashes_match:
  assumes "length bs = length hs"
  shows "(\<forall>(b, h) \<in> set (zip bs hs). checkHashEq env b (Some h) = Inr ()) \<longleftrightarrow> map (bucketHash env) bs = hs"
  using assms
proof (induction bs hs rule: list_induct2)
  case (Cons b bs h hs)
  then show ?case by (auto simp: checkHashEq_def assertE_def)
qed simp

lemma checkFutureState_live_inputs:
  "mState fb = FB_LIVE_INPUTS \<Longrightarrow> checkFutureState env fb = Inr () \<longleftrightarrow>
     (\<exists>c s. mInputCurrBucket fb = Some c \<and> mInputSnapBucket fb = Some s
        \<and> mInputCurrBucketHash fb = Some (bucketHash env c)
        \<and> mInputSnapBucketHash fb = Some (bucketHash env s)
        \<and> (mInputShadowBuckets fb \<noteq> [] \<longrightarrow>
             mInputShadowBucketHashes fb = map (bucketHash env) (mInputShadowBuckets fb)))
     \<and> mOutputBucket fb \<noteq> Invalid \<and> mOutputBucketHash fb = None"
  using shadow_hashes_match [of "mInputShadowBuckets fb" "mInputShadowBucketHashes fb" env]
  by (auto simp: checkFutureState_def checkHashesMatch_def bindE_eq_Inr assertE_eq_Inr foldE_unit_pair
      mergeComplete_def isLive_def checkHashEq_def split: option.splits if_splits)

lemma checkFutureState_live_output:
  "mState fb = FB_LIVE_OUTPUT \<Longrightarrow> mInputShadowBuckets fb = [] \<Longrightarrow> mInputCurrBucket fb = None \<Longrightarrow>
     mInputSnapBucket fb = None \<Longrightarrow>
     checkFutureState env fb = Inr () \<longleftrightarrow>
       (\<exists>b. mOutputBucket fb = Ready (Inr b) \<and> mOutputBucketHash fb = Some (bucketHash env b))"
  by (cases "mOutputBucket fb")
    (auto simp: checkFutureState_def checkHashesMatch_def bindE_eq_Inr assertE_eq_Inr
      mergeComplete_def isLive_def checkHashEq_def)

text \<open>
  The states a future reaches: cleared, archived, merging its recorded inputs, or holding
  a bucket whose hash it records.
\<close>

definition future_ok :: "('k, 'e) bucket_env \<Rightarrow> ('k, 'e) FutureBucket \<Rightarrow> bool" where
  "future_ok env fb \<longleftrightarrow> checkFutureState env fb = Inr () \<and>
     (mState fb = FB_LIVE_OUTPUT \<or> mState fb = FB_HASH_INPUTS \<or> mState fb = FB_HASH_OUTPUT \<longrightarrow>
        mInputShadowBuckets fb = [] \<and> mInputCurrBucket fb = None \<and> mInputSnapBucket fb = None) \<and>
     (mState fb = FB_LIVE_OUTPUT \<or> mState fb = FB_HASH_OUTPUT \<longrightarrow> mInputShadowBucketHashes fb = []
        \<and> mInputCurrBucketHash fb = None \<and> mInputSnapBucketHash fb = None) \<and>
     (mState fb = FB_LIVE_INPUTS \<longrightarrow>
        mInputShadowBucketHashes fb = map (bucketHash env) (mInputShadowBuckets fb) \<and>
        (\<exists>c s. mInputCurrBucket fb = Some c \<and> mInputSnapBucket fb = Some s \<and>
           futureGet (mOutputBucket fb) =
             mergeBuckets (entryIdCmp env) c s (mInputShadowBuckets fb) (mFutureKeepDead fb)))"

lemma future_ok_check: "future_ok env fb \<Longrightarrow> checkFutureState env fb = Inr ()"
  by (simp add: future_ok_def)

lemma emptyFuture_ok: "future_ok env (emptyFuture j)"
  by (simp add: future_ok_def emptyFuture_def checkFutureState_def)

lemma clearFuture_ok: "future_ok env (clearFuture fb)" "\<not> isLive (clearFuture fb)" "\<not> isMerging (clearFuture fb)"
  by (simp_all add: future_ok_def clearFuture_def clearInputs_def clearOutput_def checkFutureState_def
      isLive_def isMerging_def)

lemma finishMerge_simps [simp]:
  "futureGet (finishMerge f) = futureGet f" "finishMerge f = Invalid \<longleftrightarrow> f = Invalid"
  "f \<noteq> Invalid \<Longrightarrow> finishMerge f = Ready (futureGet f)"
  by (cases f; simp)+

lemma finishMerge_ok: "future_ok env fb \<Longrightarrow> future_ok env (fb\<lparr>mOutputBucket := finishMerge (mOutputBucket fb)\<rparr>)"
proof (cases "mState fb")
  case FB_LIVE_INPUTS
  assume "future_ok env fb"
  then show ?thesis using FB_LIVE_INPUTS by (auto simp: future_ok_def checkFutureState_live_inputs)
next
  case FB_LIVE_OUTPUT
  assume ok: "future_ok env fb"
  then have "finishMerge (mOutputBucket fb) = mOutputBucket fb"
    using FB_LIVE_OUTPUT checkFutureState_live_output [of fb env] by (auto simp: future_ok_def)
  then show ?thesis using ok by simp
qed (auto simp: future_ok_def checkFutureState_def assertE_eq_Inr)

lemma startMerge_ok:
  assumes "mState fb = FB_LIVE_INPUTS" "mInputCurrBucket fb = Some c" "mInputSnapBucket fb = Some s"
    "mOutputBucket fb = Invalid" "mInputCurrBucketHash fb = Some (bucketHash env c)"
    "mInputSnapBucketHash fb = Some (bucketHash env s)" "mOutputBucketHash fb = None"
    "mInputShadowBucketHashes fb = map (bucketHash env) (mInputShadowBuckets fb)"
  shows "\<exists>fb'. startMerge env fb = Inr fb' \<and> future_ok env fb' \<and> isMerging fb'
    \<and> futureGet (mOutputBucket fb') = mergeBuckets (entryIdCmp env) c s (mInputShadowBuckets fb) (mFutureKeepDead fb)"
proof -
  let ?fb = "fb\<lparr>mOutputBucket := Running (mergeBuckets (entryIdCmp env) c s (mInputShadowBuckets fb) (mFutureKeepDead fb))\<rparr>"
  have "checkFutureState env ?fb = Inr ()" using assms by (simp add: checkFutureState_live_inputs)
  then have "startMerge env fb = Inr ?fb \<and> future_ok env ?fb"
    using assms by (simp add: startMerge_def future_ok_def)
  then show ?thesis using assms(1) by (auto simp: isMerging_def)
qed

lemma newFuture_ok:
  "\<exists>fb. newFuture env c s sh kd = Inr fb \<and> future_ok env fb \<and> isMerging fb
     \<and> futureGet (mOutputBucket fb) = mergeBuckets (entryIdCmp env) c s sh kd"
proof -
  let ?fb = "\<lparr>mState = FB_LIVE_INPUTS, mInputCurrBucket = Some c, mInputSnapBucket = Some s,
        mInputShadowBuckets = sh, mOutputBucket = Invalid,
        mInputCurrBucketHash = Some (bucketHash env c),
        mInputSnapBucketHash = Some (bucketHash env s),
        mInputShadowBucketHashes = map (bucketHash env) sh, mOutputBucketHash = None,
        mFutureKeepDead = kd\<rparr>"
  show ?thesis using startMerge_ok [of ?fb c s env] by (simp add: newFuture_def)
qed

lemma resolve_ok:
  assumes "future_ok env fb" "isLive fb" "futureGet (mOutputBucket fb) = Inr b"
  shows "\<exists>fb'. resolve env fb = Inr (fb', b) \<and> future_ok env fb' \<and> mState fb' = FB_LIVE_OUTPUT
    \<and> mOutputBucket fb' = Ready (Inr b)"
proof -
  let ?g = "(clearInputs fb)\<lparr>mOutputBucket := Ready (Inr b)\<rparr>"
  let ?fb = "if mOutputBucketHash fb = None
     then ?g\<lparr>mOutputBucketHash := Some (bucketHash env b), mState := FB_LIVE_OUTPUT\<rparr>
     else ?g\<lparr>mState := FB_LIVE_OUTPUT\<rparr>"
  have f: "mOutputBucket fb \<noteq> Invalid" using assms(3) by auto
  have h: "mOutputBucketHash fb = None \<or> mOutputBucketHash fb = Some (bucketHash env b)"
    using assms by (auto simp: future_ok_def isLive_def checkFutureState_live_inputs checkFutureState_live_output)
  have c: "checkFutureState env ?fb = Inr ()"
    using h by (auto simp: checkFutureState_live_output clearInputs_def)
  have "resolve env fb = Inr (?fb, b)"
    using assms f h c future_ok_check [OF assms(1)]
    by (auto simp: resolve_def Let_def clearInputs_def checkHashEq_def)
  moreover have "future_ok env ?fb" using c by (simp add: future_ok_def clearInputs_def)
  ultimately show ?thesis by (intro exI [of _ ?fb]) simp
qed

section \<open>Archiving and restarting\<close>

lemma setLiveOutput_ok:
  assumes "mInputShadowBuckets fb = []" "mInputCurrBucket fb = None" "mInputSnapBucket fb = None"
    "mInputShadowBucketHashes fb = []" "mInputCurrBucketHash fb = None" "mInputSnapBucketHash fb = None"
  shows "\<exists>fb'. setLiveOutput env (Some b) fb = Inr fb' \<and> future_ok env fb' \<and> isLive fb'
    \<and> mOutputBucket fb' = Ready (Inr b)"
proof -
  let ?fb = "fb\<lparr>mState := FB_LIVE_OUTPUT, mOutputBucketHash := Some (bucketHash env b),
                mOutputBucket := Ready (Inr b)\<rparr>"
  have c: "checkFutureState env ?fb = Inr ()" using assms by (simp add: checkFutureState_live_output)
  then have "future_ok env ?fb" using assms by (simp add: future_ok_def)
  then show ?thesis using c by (intro exI [of _ ?fb]) (simp add: setLiveOutput_def isLive_def)
qed

lemma foldE_shadows:
  "foldE (\<lambda>h bs. bindE (derefE AssertFail (get h)) (\<lambda>b. Inr (bs @ [b]))) hs acc = Inr bs \<longleftrightarrow>
     (\<exists>cs. bs = acc @ cs \<and> map get hs = map Some cs)"
proof (induction hs arbitrary: acc)
  case (Cons h hs)
  then show ?case by (cases "get h") (auto simp: Cons_eq_map_conv)
qed auto

lemma makeLive_inputs:
  assumes "future_ok env fb" "mState fb = FB_HASH_INPUTS"
    "mInputCurrBucketHash fb = Some (bucketHash env c)" "getBucketByHash env (bucketHash env c) = Some c"
    "mInputSnapBucketHash fb = Some (bucketHash env s)" "getBucketByHash env (bucketHash env s) = Some s"
    "mInputShadowBucketHashes fb = map (bucketHash env) sh"
    "map (getBucketByHash env) (map (bucketHash env) sh) = map Some sh"
  shows "\<exists>fb'. makeLive env fb = Inr fb' \<and> future_ok env fb' \<and> isMerging fb'
    \<and> futureGet (mOutputBucket fb') = mergeBuckets (entryIdCmp env) c s sh (mFutureKeepDead fb)"
proof -
  have o: "mOutputBucket fb = Invalid" "mOutputBucketHash fb = None" "mInputShadowBuckets fb = []"
    using assms(1,2) by (auto simp: future_ok_def checkFutureState_def assertE_eq_Inr)
  let ?fb = "fb\<lparr>mInputCurrBucket := Some c, mInputSnapBucket := Some s, mInputShadowBuckets := sh,
                mState := FB_LIVE_INPUTS\<rparr>"
  obtain fb' where f: "startMerge env ?fb = Inr fb'" "future_ok env fb'" "isMerging fb'"
      "futureGet (mOutputBucket fb') = mergeBuckets (entryIdCmp env) c s sh (mFutureKeepDead fb)"
    using startMerge_ok [of ?fb c s env] assms o by auto
  have sh: "foldE (\<lambda>h bs. bindE (derefE AssertFail (getBucketByHash env h)) (\<lambda>b. Inr (bs @ [b])))
      (map (bucketHash env) sh) [] = Inr sh"
    using assms(8) by (simp add: foldE_shadows)
  have "makeLive env fb = Inr fb'"
    using assms f sh o future_ok_check [OF assms(1)]
    by (simp add: makeLive_def isLive_def hasHashes_def hasOutputHash_def isMerging_def)
  then show ?thesis using f by blast
qed

lemma makeLive_output:
  assumes "future_ok env fb" "mState fb = FB_HASH_OUTPUT"
    "mOutputBucketHash fb = Some (bucketHash env b)" "getBucketByHash env (bucketHash env b) = Some b"
  shows "\<exists>fb'. makeLive env fb = Inr fb' \<and> future_ok env fb' \<and> isLive fb'
    \<and> mOutputBucket fb' = Ready (Inr b)"
proof -
  have "makeLive env fb = setLiveOutput env (Some b) fb"
    using assms future_ok_check [OF assms(1)]
    by (simp add: makeLive_def isLive_def hasHashes_def hasOutputHash_def getOutputHash_def)
  then show ?thesis using setLiveOutput_ok [of fb env b] assms by (auto simp: future_ok_def)
qed

text \<open>The bucket manager still has the files a future refers to.\<close>

definition stored :: "('k, 'e) bucket_env \<Rightarrow> ('k, 'e) FutureBucket \<Rightarrow> bool" where
  "stored env fb \<longleftrightarrow>
     (\<forall>b \<in> set_option (mInputCurrBucket fb) \<union> set_option (mInputSnapBucket fb) \<union> set (mInputShadowBuckets fb)
        \<union> (case mOutputBucket fb of Ready (Inr b) \<Rightarrow> {b} | _ \<Rightarrow> {}).
        getBucketByHash env (bucketHash env b) = Some b)"

definition restart ::
  "('k, 'e) bucket_env \<Rightarrow> bool \<Rightarrow> ('k, 'e) FutureBucket \<Rightarrow> cxx_error + ('k, 'e) FutureBucket" where
  "restart env indeterminate fb =
     bindE (saveFuture env fb) (\<lambda>sf. bindE (loadFuture env indeterminate sf) (makeLive env))"

lemma restart_live:
  assumes "future_ok env fb" "isLive fb" "stored env fb"
  shows "\<exists>fb'. restart env j fb = Inr fb' \<and> future_ok env fb' \<and> isLive fb' \<and>
    futureGet (mOutputBucket fb') =
      (if isMerging fb then mergeBuckets (entryIdCmp env) (the (mInputCurrBucket fb)) (the (mInputSnapBucket fb))
         (mInputShadowBuckets fb) j
       else futureGet (mOutputBucket fb))"
proof (cases "mState fb = FB_LIVE_INPUTS")
  case True
  then obtain c s where i: "mInputCurrBucket fb = Some c" "mInputSnapBucket fb = Some s"
      "mInputCurrBucketHash fb = Some (bucketHash env c)" "mInputSnapBucketHash fb = Some (bucketHash env s)"
      "mInputShadowBucketHashes fb = map (bucketHash env) (mInputShadowBuckets fb)"
    using assms(1) checkFutureState_live_inputs [OF True, of env] by (auto simp: future_ok_def)
  let ?g = "(clearFuture (emptyFuture j))\<lparr>mState := FB_HASH_INPUTS, mInputCurrBucketHash := Some (bucketHash env c),
      mInputSnapBucketHash := Some (bucketHash env s),
      mInputShadowBucketHashes := map (bucketHash env) (mInputShadowBuckets fb)\<rparr>"
  have g: "future_ok env ?g"
    by (simp add: future_ok_def clearFuture_def clearInputs_def clearOutput_def emptyFuture_def checkFutureState_def)
  have "getBucketByHash env (bucketHash env c) = Some c" "getBucketByHash env (bucketHash env s) = Some s"
    "map (getBucketByHash env) (map (bucketHash env) (mInputShadowBuckets fb)) = map Some (mInputShadowBuckets fb)"
    using assms(3) i by (auto simp: stored_def)
  then obtain g' where g': "makeLive env ?g = Inr g'" "future_ok env g'" "isMerging g'"
      "futureGet (mOutputBucket g') = mergeBuckets (entryIdCmp env) c s (mInputShadowBuckets fb) j"
    using makeLive_inputs [OF g, of c s "mInputShadowBuckets fb"]
    by (auto simp: clearFuture_def clearInputs_def clearOutput_def emptyFuture_def)
  have "restart env j fb = makeLive env ?g"
    using True i future_ok_check [OF assms(1)] future_ok_check [OF g]
    by (simp add: restart_def saveFuture_def loadFuture_def Let_def)
  then show ?thesis using g' True i by (auto simp: isMerging_def isLive_def)
next
  case False
  then have st: "mState fb = FB_LIVE_OUTPUT" using assms(2) by (auto simp: isLive_def)
  then obtain b where b: "mOutputBucket fb = Ready (Inr b)" "mOutputBucketHash fb = Some (bucketHash env b)"
    using assms(1) checkFutureState_live_output [OF st, of env] by (auto simp: future_ok_def)
  let ?g = "(clearFuture (emptyFuture j))\<lparr>mState := FB_HASH_OUTPUT, mOutputBucketHash := Some (bucketHash env b)\<rparr>"
  have g: "future_ok env ?g"
    by (simp add: future_ok_def clearFuture_def clearInputs_def clearOutput_def emptyFuture_def checkFutureState_def)
  have "getBucketByHash env (bucketHash env b) = Some b" using assms(3) b by (simp add: stored_def)
  then obtain g' where "makeLive env ?g = Inr g'" "future_ok env g'" "isLive g'" "mOutputBucket g' = Ready (Inr b)"
    using makeLive_output [OF g, of b] by auto
  moreover have "restart env j fb = makeLive env ?g"
    using st b future_ok_check [OF assms(1)] future_ok_check [OF g]
    by (simp add: restart_def saveFuture_def loadFuture_def Let_def)
  ultimately show ?thesis using b False by (auto simp: isMerging_def)
qed

section \<open>Reachable futures\<close>

inductive future_run :: "('k, 'e) bucket_env \<Rightarrow> ('k, 'e) FutureBucket \<Rightarrow> bool" for env where
  run_default: "future_run env (emptyFuture j)"
| run_merge: "newFuture env c s sh kd = Inr fb \<Longrightarrow> future_run env fb"
| run_output: "setLiveOutput env b (emptyFuture j) = Inr fb \<Longrightarrow> future_run env fb"
| run_worker: "future_run env fb \<Longrightarrow> future_run env (fb\<lparr>mOutputBucket := finishMerge (mOutputBucket fb)\<rparr>)"
| run_resolve: "future_run env fb \<Longrightarrow> resolve env fb = Inr (fb', b) \<Longrightarrow> future_run env fb'"
| run_clear: "future_run env fb \<Longrightarrow> future_run env (clearFuture fb)"
| run_load: "loadFuture env j sf = Inr fb \<Longrightarrow> future_run env fb"
| run_makeLive: "future_run env fb \<Longrightarrow> makeLive env fb = Inr fb' \<Longrightarrow> future_run env fb'"

lemma loadFuture_ok: "loadFuture env j sf = Inr fb \<Longrightarrow> future_ok env fb"
  by (cases "savedState sf")
    (auto simp: loadFuture_def Let_def future_ok_def clearFuture_def clearInputs_def clearOutput_def
      emptyFuture_def elim!: bindE_runE)

lemma startMerge_run:
  assumes "startMerge env fb = Inr fb'" "mInputShadowBucketHashes fb = [] \<longleftrightarrow> mInputShadowBuckets fb = []"
  shows "future_ok env fb'"
  using assms
  by (auto simp: startMerge_def Let_def future_ok_def checkFutureState_live_inputs derefE_eq_Inr assertE_eq_Inr
      elim!: bindE_runE)

lemma makeLive_run:
  assumes "future_ok env fb" "makeLive env fb = Inr fb'"
  shows "future_ok env fb'"
proof (cases "mState fb = FB_HASH_OUTPUT")
  case True
  then obtain b where "setLiveOutput env (Some b) fb = Inr fb'"
    using assms(2) by (auto simp: makeLive_def hasOutputHash_def setLiveOutput_def derefE_eq_Inr elim!: bindE_runE)
  then show ?thesis using setLiveOutput_ok [of fb env b] assms(1) True by (auto simp: future_ok_def)
next
  case False
  then have st: "mState fb = FB_HASH_INPUTS"
    using assms(2) by (auto simp: makeLive_def hasHashes_def isLive_def assertE_eq_Inr elim!: bindE_runE)
  obtain hc hs sh where
    "startMerge env (fb\<lparr>mInputCurrBucket := getBucketByHash env hc, mInputSnapBucket := getBucketByHash env hs,
       mInputShadowBuckets := sh, mState := FB_LIVE_INPUTS\<rparr>) = Inr fb'"
    "map (getBucketByHash env) (mInputShadowBucketHashes fb) = map Some sh"
    using assms(2) st
    by (auto simp: makeLive_def hasOutputHash_def foldE_shadows elim!: bindE_runE)
  then show ?thesis by (intro startMerge_run) auto
qed

lemma resolve_run:
  assumes "future_ok env fb" "resolve env fb = Inr (fb', b)"
  shows "future_ok env fb'"
proof -
  have "isLive fb" "futureGet (mOutputBucket fb) = Inr b"
    using assms(2) by (auto simp: resolve_def Let_def clearInputs_def assertE_eq_Inr split: if_splits elim!: bindE_runE)
  then show ?thesis using resolve_ok [OF assms(1)] assms(2) by auto
qed

lemma future_run_ok: "future_run env fb \<Longrightarrow> future_ok env fb"
proof (induction rule: future_run.induct)
  case (run_merge c s sh kd fb)
  then show ?case using newFuture_ok [of env c s sh kd] by auto
next
  case (run_output b j fb)
  then obtain b' where "b = Some b'" by (auto simp: setLiveOutput_def derefE_eq_Inr elim!: bindE_runE)
  then show ?case using run_output setLiveOutput_ok [of "emptyFuture j" env b'] by (auto simp: emptyFuture_def)
qed (auto intro: emptyFuture_ok finishMerge_ok resolve_run clearFuture_ok loadFuture_ok makeLive_run)

text \<open>What happens to a merge once it has been started: the worker ends it, and it is resolved.\<close>

inductive merge_run :: "('k, 'e) bucket_env \<Rightarrow> ('k, 'e) FutureBucket \<Rightarrow> ('k, 'e) FutureBucket \<Rightarrow> bool" for env fb where
  merge_start: "merge_run env fb fb"
| merge_worker: "merge_run env fb fb' \<Longrightarrow> merge_run env fb (fb'\<lparr>mOutputBucket := finishMerge (mOutputBucket fb')\<rparr>)"
| merge_resolve: "merge_run env fb fb' \<Longrightarrow> resolve env fb' = Inr (fb'', b) \<Longrightarrow> merge_run env fb fb''"

lemma merge_run_ok:
  assumes "merge_run env fb fb'" "future_ok env fb" "isLive fb" "futureGet (mOutputBucket fb) = Inr b"
  shows "future_ok env fb' \<and> isLive fb' \<and> futureGet (mOutputBucket fb') = Inr b"
  using assms
proof (induction rule: merge_run.induct)
  case (merge_worker fb')
  then show ?case using finishMerge_ok [of env fb'] by (simp add: isLive_def)
next
  case (merge_resolve fb' fb'' c)
  then show ?case using resolve_ok [of env fb' b] by (auto simp: isLive_def)
qed simp

end
