(* ===== verification/Bucket_List.thy ===== *)
theory Bucket_List
  imports Future_Bucket
begin

text \<open>
  \<open>src/src/bucket/BucketList.cpp\<close>: the levels of buckets that hold the whole ledger, and the
  parts of \<open>Bucket.cpp\<close> and \<open>BucketManagerImpl.cpp\<close> that work on them.

  A level is a record; the list is the list of its levels. Ledger numbers are 32-bit words.
  The shadow vector is popped as the source pops it. Hashes go through \<open>sha\<close>, the SHA-256 of
  the concatenation of a list of hashes.

  The lemmas of this theory compute the level sizes and reduce the spill test to
  divisibility by half the size of the level.
\<close>

section \<open>Definitions\<close>

definition kNumLevels :: nat where
  "kNumLevels = 11"

record ('k, 'e) BucketLevel =
  mLevel :: nat
  mNextCurr :: "('k, 'e) FutureBucket"
  mCurr :: "('k, 'e) bucket"
  mSnap :: "('k, 'e) bucket"

definition newLevel :: "nat \<Rightarrow> ('k, 'e) BucketLevel" where
  "newLevel i = \<lparr>mLevel = i, mNextCurr = emptyFuture False, mCurr = [], mSnap = []\<rparr>"

definition newBucketList :: "('k, 'e) BucketLevel list" where
  "newBucketList = map newLevel [0..<kNumLevels]"

definition setCurr :: "('k, 'e) bucket \<Rightarrow> ('k, 'e) BucketLevel \<Rightarrow> ('k, 'e) BucketLevel" where
  "setCurr b lev = lev\<lparr>mNextCurr := clearFuture (mNextCurr lev), mCurr := b\<rparr>"

definition setSnap :: "('k, 'e) bucket \<Rightarrow> ('k, 'e) BucketLevel \<Rightarrow> ('k, 'e) BucketLevel" where
  "setSnap b lev = lev\<lparr>mSnap := b\<rparr>"

definition setNext :: "('k, 'e) FutureBucket \<Rightarrow> ('k, 'e) BucketLevel \<Rightarrow> ('k, 'e) BucketLevel" where
  "setNext fb lev = lev\<lparr>mNextCurr := fb\<rparr>"

definition commitLevel ::
  "('k, 'e) bucket_env \<Rightarrow> ('k, 'e) BucketLevel \<Rightarrow> cxx_error + ('k, 'e) BucketLevel" where
  "commitLevel env lev =
     bindE (if isLive (mNextCurr lev)
            then bindE (resolve env (mNextCurr lev)) (\<lambda>(fb, b). Inr (setCurr b (lev\<lparr>mNextCurr := fb\<rparr>)))
            else Inr lev) (\<lambda>lev.
     bindE (assertE (\<not> isMerging (mNextCurr lev)) AssertFail) (\<lambda>_. Inr lev))"

definition levelSize :: "nat \<Rightarrow> cxx_error + u32" where
  "levelSize level =
     bindE (assertE (level < kNumLevels) AssertFail) (\<lambda>_.
       Inr (ucast (push_bit (2 * (level + 1)) (1 :: u64))))"

definition levelHalf :: "nat \<Rightarrow> cxx_error + u32" where
  "levelHalf level = bindE (levelSize level) (\<lambda>s. Inr (drop_bit 1 s))"

definition maskLedger :: "u32 \<Rightarrow> u32 \<Rightarrow> u32" where
  "maskLedger v m = and v (not (m - 1))"

definition levelShouldSpill :: "u32 \<Rightarrow> nat \<Rightarrow> cxx_error + bool" where
  "levelShouldSpill ledger level =
     (if level = kNumLevels - 1 then Inr False
      else orE (bindE (levelHalf level) (\<lambda>h. Inr (ledger = maskLedger ledger h)))
               (bindE (levelSize level) (\<lambda>s. Inr (ledger = maskLedger ledger s))))"

definition prepareLevel ::
  "('k, 'e) bucket_env \<Rightarrow> u32 \<Rightarrow> ('k, 'e) bucket \<Rightarrow> ('k, 'e) bucket list \<Rightarrow> ('k, 'e) BucketLevel
     \<Rightarrow> cxx_error + ('k, 'e) BucketLevel" where
  "prepareLevel env currLedger snap shadows lev =
     bindE (assertE (\<not> isMerging (mNextCurr lev)) AssertFail) (\<lambda>_.
     bindE (if mLevel lev > 0
            then bindE (levelHalf (mLevel lev - 1)) (\<lambda>h.
                 let nextChangeLedger = currLedger + h in
                 bindE (levelShouldSpill nextChangeLedger (mLevel lev)) (\<lambda>spill.
                   Inr (if spill then [] else mCurr lev)))
            else Inr (mCurr lev)) (\<lambda>currB.
     let keepDeadEntries = (mLevel lev < kNumLevels - 1) in
     bindE (newFuture env currB snap shadows keepDeadEntries) (\<lambda>fb.
     bindE (assertE (isMerging fb) AssertFail) (\<lambda>_.
       Inr (lev\<lparr>mNextCurr := fb\<rparr>)))))"

definition snapLevel :: "('k, 'e) BucketLevel \<Rightarrow> ('k, 'e) BucketLevel \<times> ('k, 'e) bucket" where
  "snapLevel lev = (let lev = lev\<lparr>mSnap := mCurr lev, mCurr := []\<rparr> in (lev, mSnap lev))"

text \<open>The two \<open>pop_back\<close> calls, with the assertion before them.\<close>

definition popTwo :: "'a list \<Rightarrow> cxx_error + 'a list" where
  "popTwo shadows =
     bindE (assertE (length shadows \<ge> 2) AssertFail) (\<lambda>_. Inr (butlast (butlast shadows)))"

fun spillLoop ::
  "('k, 'e) bucket_env \<Rightarrow> u32 \<Rightarrow> nat \<Rightarrow> ('k, 'e) bucket list \<Rightarrow> ('k, 'e) BucketLevel list
     \<Rightarrow> cxx_error + (('k, 'e) bucket list \<times> ('k, 'e) BucketLevel list)" where
  "spillLoop env currLedger 0 shadows levels = Inr (shadows, levels)"
| "spillLoop env currLedger (Suc j) shadows levels =
     bindE (popTwo shadows) (\<lambda>shadows.
     bindE (levelShouldSpill currLedger j) (\<lambda>spill.
     bindE (if spill
            then let (below, snap) = snapLevel (levels ! j) in
                 let levels = levels[j := below] in
                 bindE (commitLevel env (levels ! Suc j)) (\<lambda>lev.
                 bindE (prepareLevel env currLedger snap shadows lev) (\<lambda>lev.
                   Inr (levels[Suc j := lev])))
            else Inr levels) (\<lambda>levels.
     spillLoop env currLedger j shadows levels)))"

definition addBatch ::
  "('k, 'e) bucket_env \<Rightarrow> u32 \<Rightarrow> 'e list \<Rightarrow> 'k list \<Rightarrow> ('k, 'e) BucketLevel list
     \<Rightarrow> cxx_error + ('k, 'e) BucketLevel list" where
  "addBatch env currLedger liveEntries deadEntries levels =
     bindE (assertE (currLedger > 0) AssertFail) (\<lambda>_.
     let shadows = concat (map (\<lambda>lev. [mCurr lev, mSnap lev]) levels) in
     bindE (popTwo shadows) (\<lambda>shadows.
     bindE (spillLoop env currLedger (length levels - 1) shadows levels) (\<lambda>(shadows, levels).
     bindE (assertE (shadows = []) AssertFail) (\<lambda>_.
     bindE (fresh (entryIdCmp env) liveEntries deadEntries) (\<lambda>b.
     bindE (prepareLevel env currLedger b shadows (levels ! 0)) (\<lambda>lev.
     bindE (commitLevel env lev) (\<lambda>lev.
       Inr (levels[0 := lev]))))))))"

definition restartMerges ::
  "('k, 'e) bucket_env \<Rightarrow> ('k, 'e) BucketLevel list \<Rightarrow> cxx_error + ('k, 'e) BucketLevel list" where
  "restartMerges env levels =
     foldE (\<lambda>lev acc.
       if hasHashes (mNextCurr lev) \<and> \<not> isLive (mNextCurr lev)
       then bindE (makeLive env (mNextCurr lev)) (\<lambda>fb. Inr (acc @ [lev\<lparr>mNextCurr := fb\<rparr>]))
       else Inr (acc @ [lev])) levels []"

definition levelHash :: "('k, 'e) bucket_env \<Rightarrow> (hash256 list \<Rightarrow> hash256) \<Rightarrow> ('k, 'e) BucketLevel \<Rightarrow> hash256" where
  "levelHash env sha lev = sha [bucketHash env (mCurr lev), bucketHash env (mSnap lev)]"

definition bucketListHash ::
  "('k, 'e) bucket_env \<Rightarrow> (hash256 list \<Rightarrow> hash256) \<Rightarrow> ('k, 'e) BucketLevel list \<Rightarrow> hash256" where
  "bucketListHash env sha levels = sha (map (levelHash env sha) levels)"

text \<open>The buckets \<open>checkDBAgainstBuckets\<close> collects, and the one it merges them into.\<close>

definition levelBuckets :: "('k, 'e) bucket_env \<Rightarrow> ('k, 'e) BucketLevel \<Rightarrow> cxx_error + ('k, 'e) bucket list" where
  "levelBuckets env lev =
     bindE (if isLive (mNextCurr lev)
            then bindE (resolve env (mNextCurr lev)) (\<lambda>(_, b). Inr [b])
            else Inr []) (\<lambda>bs. Inr (bs @ [mCurr lev, mSnap lev]))"

definition superBucket ::
  "('k, 'e) bucket_env \<Rightarrow> ('k, 'e) BucketLevel list \<Rightarrow> cxx_error + ('k, 'e) bucket" where
  "superBucket env levels =
     bindE (foldE (\<lambda>lev bs. bindE (levelBuckets env lev) (\<lambda>b. Inr (bs @ b))) levels []) (\<lambda>buckets.
       case buckets of
         [] \<Rightarrow> Inr []
       | b # bs \<Rightarrow> foldE (\<lambda>b super. mergeBuckets (entryIdCmp env) b super [] True) bs b)"

section \<open>Level sizes\<close>

lemma kNumLevels_le: "level < kNumLevels \<longleftrightarrow> level \<le> 10"
  by (auto simp: kNumLevels_def)

lemma ucast_pow2: "n < 64 \<Longrightarrow> ucast (2 ^ n :: u64) = (2 ^ n :: u32)"
proof -
  assume n: "n < 64"
  have "(2 ^ n :: u64) = of_nat (2 ^ n)" by simp
  moreover have "ucast (of_nat (2 ^ n) :: u64) = (of_nat (2 ^ n) :: u32)"
    using n by (simp only: unsigned_of_nat) (simp add: take_bit_nat_eq_self)
  ultimately show ?thesis by simp
qed

lemma levelSize_eq: "level < kNumLevels \<Longrightarrow> levelSize level = Inr (2 ^ (2 * level + 2))"
  using ucast_pow2 [of "2 * level + 2"] by (simp add: levelSize_def push_bit_eq_mult kNumLevels_le)

lemma unat_pow2: "n < 32 \<Longrightarrow> unat (2 ^ n :: u32) = 2 ^ n"
proof -
  assume "n < 32"
  then have "(2::nat) ^ n < 2 ^ 32" by (intro power_strict_increasing) auto
  then show ?thesis using unat_of_nat_u32 [of "2 ^ n"] by simp
qed

lemma levelHalf_eq: "level < kNumLevels \<Longrightarrow> levelHalf level = Inr (2 ^ (2 * level + 1))"
proof -
  assume l: "level < kNumLevels"
  have "drop_bit 1 (2 ^ (2 * level + 2) :: u32) = 2 ^ (2 * level + 1)"
    using l by (intro bit_word_eqI) (auto simp: bit_simps kNumLevels_le simp del: power_Suc)
  then show ?thesis using l by (simp add: levelHalf_def levelSize_eq)
qed

lemma maskLedger_pow: "v = maskLedger v (2 ^ n) \<longleftrightarrow> 2 ^ n dvd unat v"
proof -
  have "v = and v (not (mask n)) \<longleftrightarrow> take_bit n v = 0"
    by (auto simp: bit_eq_iff bit_simps)
  also have "\<dots> \<longleftrightarrow> unat (take_bit n v) = 0" by (simp add: unat_eq_zero)
  also have "\<dots> \<longleftrightarrow> 2 ^ n dvd unat v" by (simp add: unsigned_take_bit_eq take_bit_eq_0_iff)
  finally show ?thesis by (simp add: maskLedger_def mask_eq_exp_minus_1)
qed

text \<open>Level \<open>j\<close> spills at the multiples of half its size.\<close>

definition half :: "nat \<Rightarrow> nat" where
  "half j = 2 * 4 ^ j"

definition spills :: "nat \<Rightarrow> nat \<Rightarrow> bool" where
  "spills L j \<longleftrightarrow> j < 10 \<and> half j dvd L"

lemma half_pow: "half j = 2 ^ (2 * j + 1)"
  by (simp add: half_def power_mult)

lemma levelShouldSpill_eq:
  assumes "level < kNumLevels"
  shows "levelShouldSpill ledger level = Inr (spills (unat ledger) level)"
proof (cases "level = kNumLevels - 1")
  case True
  then show ?thesis by (simp add: levelShouldSpill_def spills_def kNumLevels_def)
next
  case False
  have "(2::nat) ^ (2 * level + 1) dvd 2 ^ (2 * level + 2)" by (rule le_imp_power_dvd) simp
  then show ?thesis
    using assms False unfolding levelShouldSpill_def
    by (auto simp: levelHalf_eq levelSize_eq orE_def maskLedger_pow spills_def half_pow kNumLevels_def
        simp del: power_Suc dest: dvd_trans)
qed

end
