(* ===== verification/Bucket_Spill.thy ===== *)
theory Bucket_Spill
  imports Bucket_List
begin

text \<open>
  The bucket list as maps. Every bucket is what it answers to a lookup; a state gives, for each
  level, the maps of \<open>mCurr\<close> and \<open>mSnap\<close> and the map of the merge in progress, if there is one.
  \<open>spillLevel\<close> is one iteration of the loop of \<open>BucketList::addBatch\<close> on these maps.

  The invariant says what a merge in progress contains: apart from the keys some younger bucket
  has, it is the snap it absorbs over the curr that will be in place when it is committed. The
  lemmas show that the invariant survives the loop and that the loop changes no lookup.
\<close>

section \<open>Maps instead of buckets\<close>

record ('i, 'x) levels =
  acurr :: "nat \<Rightarrow> 'i \<rightharpoonup> 'x"
  asnap :: "nat \<Rightarrow> 'i \<rightharpoonup> 'x"
  anext :: "nat \<Rightarrow> ('i \<rightharpoonup> 'x) option"

definition visible :: "('x \<Rightarrow> bool) \<Rightarrow> 'x option \<Rightarrow> 'x option" where
  "visible dead x = (case x of Some e \<Rightarrow> if dead e then None else Some e | None \<Rightarrow> None)"

text \<open>The last level drops tombstones.\<close>

definition kept :: "('x \<Rightarrow> bool) \<Rightarrow> nat \<Rightarrow> 'x option \<Rightarrow> 'x option" where
  "kept dead i x = (if i < 10 then x else visible dead x)"

definition youngKeys :: "('i, 'x) levels \<Rightarrow> nat \<Rightarrow> 'i set" where
  "youngKeys st j = (\<Union>i < j. dom (acurr st i) \<union> dom (asnap st i))"

definition mergeMaps :: "('x \<Rightarrow> bool) \<Rightarrow> nat \<Rightarrow> 'i set \<Rightarrow> ('i \<rightharpoonup> 'x) \<Rightarrow> ('i \<rightharpoonup> 'x) \<Rightarrow> ('i \<rightharpoonup> 'x)" where
  "mergeMaps dead i sh old new = (\<lambda>k. if k \<in> sh then None else kept dead i ((old ++ new) k))"

definition spillLevel :: "('x \<Rightarrow> bool) \<Rightarrow> nat \<Rightarrow> nat \<Rightarrow> ('i, 'x) levels \<Rightarrow> ('i, 'x) levels" where
  "spillLevel dead L j st =
     (if spills L j then
        let cc = (case anext st (Suc j) of Some b \<Rightarrow> b | None \<Rightarrow> acurr st (Suc j));
            old = (if spills (L + half j) (Suc j) then Map.empty else cc)
        in \<lparr>acurr = (acurr st)(j := Map.empty, Suc j := cc),
            asnap = (asnap st)(j := acurr st j),
            anext = (anext st)(Suc j := Some (mergeMaps dead (Suc j) (youngKeys st j) old (acurr st j)))\<rparr>
      else st)"

fun spillLevels :: "('x \<Rightarrow> bool) \<Rightarrow> nat \<Rightarrow> nat \<Rightarrow> ('i, 'x) levels \<Rightarrow> ('i, 'x) levels" where
  "spillLevels dead L 0 st = st"
| "spillLevels dead L (Suc j) st = spillLevels dead L j (spillLevel dead L j st)"

definition batchLevels :: "('x \<Rightarrow> bool) \<Rightarrow> nat \<Rightarrow> ('i \<rightharpoonup> 'x) \<Rightarrow> ('i, 'x) levels \<Rightarrow> ('i, 'x) levels" where
  "batchLevels dead L batch st =
     (let st = spillLevels dead L 10 st in st\<lparr>acurr := (acurr st)(0 := acurr st 0 ++ batch)\<rparr>)"

text \<open>A lookup in the levels from \<open>i\<close> on: curr before snap, lower levels first.\<close>

definition lookFrom :: "('i, 'x) levels \<Rightarrow> nat \<Rightarrow> 'i \<rightharpoonup> 'x" where
  "lookFrom st i = fold (\<lambda>n t. (t ++ asnap st n) ++ acurr st n) (rev [i..<11]) Map.empty"

lemma lookFrom_11: "11 \<le> i \<Longrightarrow> lookFrom st i = Map.empty"
  by (simp add: lookFrom_def)

lemma lookFrom_step: "i < 11 \<Longrightarrow> lookFrom st i = (lookFrom st (Suc i) ++ asnap st i) ++ acurr st i"
  by (simp add: lookFrom_def upt_conv_Cons)

lemma visible_simps [simp]: "visible dead None = None"
  "visible dead (Some e) = (if dead e then None else Some e)"
  by (simp_all add: visible_def)

section \<open>When levels spill\<close>

lemma half_pos: "0 < half j"
  by (simp add: half_def)

lemma half_dvd: "i \<le> j \<Longrightarrow> half i dvd half j"
  by (simp add: half_def le_imp_power_dvd)

lemma spills_below: "spills L (Suc j) \<Longrightarrow> half j dvd L"
  using half_dvd [of j "Suc j"] by (auto simp: spills_def intro: dvd_trans)

text \<open>The next ledger at which level \<open>j\<close> spills.\<close>

definition nextSpill :: "nat \<Rightarrow> nat \<Rightarrow> nat" where
  "nextSpill j L = (L div half j + 1) * half j"

lemma nextSpill_now: "half j dvd Suc L \<Longrightarrow> nextSpill j L = Suc L"
proof -
  assume d: "half j dvd Suc L"
  then obtain q where q: "Suc L = half j * q" by (elim dvdE)
  then have "q > 0" by (cases q) auto
  have "L = half j * (q - 1) + (half j - 1)" using q \<open>q > 0\<close> half_pos [of j] by (cases q) auto
  moreover have "(half j * (q - 1) + (half j - 1)) div half j = q - 1"
    using half_pos [of j] by (intro div_nat_eqI) auto
  ultimately show ?thesis using q \<open>q > 0\<close> by (simp add: nextSpill_def mult.commute)
qed

lemma nextSpill_later: "\<not> half j dvd Suc L \<Longrightarrow> nextSpill j L = nextSpill j (Suc L)"
  using div_Suc [of L "half j"] by (simp add: nextSpill_def dvd_eq_mod_eq_0)

lemma nextSpill_at: "half j dvd L \<Longrightarrow> nextSpill j L = L + half j"
  by (simp add: nextSpill_def distrib_right)

section \<open>The invariant\<close>

definition absorbs :: "('x \<Rightarrow> bool) \<Rightarrow> ('i, 'x) levels \<Rightarrow> nat \<Rightarrow> ('i \<rightharpoonup> 'x) \<Rightarrow> bool" where
  "absorbs dead st j c \<longleftrightarrow>
     (case anext st (Suc j) of
        None \<Rightarrow> asnap st j = Map.empty
      | Some b \<Rightarrow> \<forall>k. k \<notin> youngKeys st j \<union> dom (acurr st j) \<longrightarrow>
                    b k = kept dead (Suc j) ((c ++ asnap st j) k))"

text \<open>The curr of level \<open>j + 1\<close> that will be in place at the next spill of level \<open>j\<close>.\<close>

definition pendingCurr :: "nat \<Rightarrow> nat \<Rightarrow> ('i \<rightharpoonup> 'x) \<Rightarrow> ('i \<rightharpoonup> 'x)" where
  "pendingCurr L j c = (if spills (nextSpill j L) (Suc j) then Map.empty else c)"

definition list_inv :: "('x \<Rightarrow> bool) \<Rightarrow> nat \<Rightarrow> ('i, 'x) levels \<Rightarrow> bool" where
  "list_inv dead L st \<longleftrightarrow>
     (\<forall>j < 10. absorbs dead st j (pendingCurr L j (acurr st (Suc j)))) \<and> asnap st 10 = Map.empty"

text \<open>The same, while ledger \<open>M\<close> is being added and the iterations from \<open>n\<close> on are done.\<close>

definition dueCurr :: "nat \<Rightarrow> nat \<Rightarrow> ('i \<rightharpoonup> 'x) \<Rightarrow> ('i \<rightharpoonup> 'x)" where
  "dueCurr M j c = (if half j dvd M then (if spills M (Suc j) then Map.empty else c) else pendingCurr M j c)"

definition loop_inv :: "('x \<Rightarrow> bool) \<Rightarrow> nat \<Rightarrow> nat \<Rightarrow> ('i, 'x) levels \<Rightarrow> bool" where
  "loop_inv dead M n st \<longleftrightarrow>
     (\<forall>j < n. absorbs dead st j (dueCurr M j (acurr st (Suc j))))
     \<and> (\<forall>j. n \<le> j \<and> j < 10 \<longrightarrow> absorbs dead st j (pendingCurr M j (acurr st (Suc j))))
     \<and> asnap st 10 = Map.empty \<and> (spills M n \<longrightarrow> acurr st n = Map.empty)"

lemma dueCurr_Suc: "dueCurr (Suc L) j c = pendingCurr L j c"
  by (simp add: dueCurr_def pendingCurr_def nextSpill_now nextSpill_later)

lemma loop_inv_start: "list_inv dead L st \<Longrightarrow> loop_inv dead (Suc L) 10 st"
  unfolding list_inv_def loop_inv_def dueCurr_Suc by (simp add: spills_def) linarith

lemma loop_inv_end: "loop_inv dead M 0 st \<Longrightarrow> list_inv dead M st"
  by (simp add: loop_inv_def list_inv_def)

lemma absorbs_cong:
  assumes "anext st' (Suc j) = anext st (Suc j)" "asnap st' j = asnap st j"
    "youngKeys st j \<union> dom (acurr st j) \<subseteq> youngKeys st' j \<union> dom (acurr st' j)" "absorbs dead st j c"
  shows "absorbs dead st' j c"
  using assms(1,2,4) subset_iff [THEN iffD1, OF assms(3)] unfolding absorbs_def
  by (auto split: option.splits simp del: Un_iff)

lemma youngKeys_cong:
  "(\<And>i. i < j \<Longrightarrow> acurr st' i = acurr st i \<and> asnap st' i = asnap st i) \<Longrightarrow> youngKeys st' j = youngKeys st j"
  by (auto simp: youngKeys_def)

lemma youngKeys_grow:
  "(\<And>n. dom (acurr st n) \<subseteq> dom (acurr st' n) \<and> dom (asnap st n) \<subseteq> dom (asnap st' n)) \<Longrightarrow>
     youngKeys st j \<subseteq> youngKeys st' j"
  unfolding youngKeys_def by (intro UN_mono Un_mono) auto

lemma youngKeys_Suc: "youngKeys st (Suc j) = youngKeys st j \<union> dom (acurr st j) \<union> dom (asnap st j)"
  by (auto simp: youngKeys_def lessThan_Suc simp del: not_None_eq)

lemma youngKeys_mono: "i \<le> j \<Longrightarrow> youngKeys st i \<subseteq> youngKeys st j"
  unfolding youngKeys_def by (rule UN_mono) auto

section \<open>One iteration\<close>

text \<open>What one iteration does to its two levels.\<close>

definition nowCurr :: "('i, 'x) levels \<Rightarrow> nat \<Rightarrow> ('i \<rightharpoonup> 'x)" where
  "nowCurr st j = (case anext st (Suc j) of Some b \<Rightarrow> b | None \<Rightarrow> acurr st (Suc j))"

lemma spillLevel_sel:
  assumes "spills L j"
  shows "acurr (spillLevel dead L j st) = (acurr st)(j := Map.empty, Suc j := nowCurr st j)"
    "asnap (spillLevel dead L j st) = (asnap st)(j := acurr st j)"
    "anext (spillLevel dead L j st) = (anext st)(Suc j := Some (mergeMaps dead (Suc j) (youngKeys st j)
        (if spills (L + half j) (Suc j) then Map.empty else nowCurr st j) (acurr st j)))"
  using assms by (simp_all add: spillLevel_def Let_def nowCurr_def)

lemma spillLevel_idle: "\<not> spills L j \<Longrightarrow> spillLevel dead L j st = st"
  by (simp add: spillLevel_def)

text \<open>In the iteration that commits it, the merge holds the snap over the curr in place.\<close>

lemma nowCurr_due:
  assumes "loop_inv dead M (Suc j) st" "spills M j" "k \<notin> youngKeys st j \<union> dom (acurr st j)"
  shows "nowCurr st j k = kept dead (Suc j) ((acurr st (Suc j) ++ asnap st j) k)
    \<or> (asnap st j = Map.empty \<and> nowCurr st j = acurr st (Suc j))"
proof -
  have "dueCurr M j (acurr st (Suc j)) = acurr st (Suc j)"
    using assms(1,2) by (auto simp: dueCurr_def loop_inv_def spills_def)
  then have "absorbs dead st j (acurr st (Suc j))"
    using assms(1) unfolding loop_inv_def by (metis lessI)
  then show ?thesis
    using assms(3) unfolding absorbs_def nowCurr_def by (cases "anext st (Suc j)") simp_all
qed

lemma nowCurr_covers:
  assumes "loop_inv dead M (Suc j) st" "spills M j" "Suc j < 10"
    "k \<in> dom (acurr st (Suc j)) \<union> dom (asnap st j)" "k \<notin> youngKeys st j \<union> dom (acurr st j)"
  shows "k \<in> dom (nowCurr st j)"
  using nowCurr_due [OF assms(1,2,5)] assms(3,4) by (auto simp: kept_def map_add_def split: option.splits)

lemma spillLevel_young:
  assumes "loop_inv dead M (Suc j) st" "spills M j" "Suc j < 10" "j < i"
  shows "youngKeys st i \<union> dom (acurr st i)
    \<subseteq> youngKeys (spillLevel dead M j st) i \<union> dom (acurr (spillLevel dead M j st) i)"
proof
  let ?t = "spillLevel dead M j st"
  note sel = spillLevel_sel [OF assms(2), of dead st]
  have same: "youngKeys ?t j = youngKeys st j" by (rule youngKeys_cong) (simp add: sel)
  fix k assume k: "k \<in> youngKeys st i \<union> dom (acurr st i)"
  consider (young) "k \<in> youngKeys st j \<union> dom (acurr st j)"
    | (moved) "k \<notin> youngKeys st j \<union> dom (acurr st j)" "k \<in> dom (acurr st (Suc j)) \<union> dom (asnap st j)"
    | (other) "k \<notin> dom (acurr st (Suc j)) \<union> dom (asnap st j) \<union> dom (acurr st j)" by blast
  then show "k \<in> youngKeys ?t i \<union> dom (acurr ?t i)"
  proof cases
    case young
    then have "k \<in> youngKeys ?t (Suc j)" unfolding youngKeys_Suc same by (auto simp: sel)
    then show ?thesis using youngKeys_mono [of "Suc j" i ?t] assms(4) by auto
  next
    case moved
    then have "k \<in> dom (acurr ?t (Suc j))" using nowCurr_covers [OF assms(1-3)] by (simp add: sel)
    moreover have "Suc j = i \<or> Suc (Suc j) \<le> i" using assms(4) by auto
    ultimately show ?thesis using youngKeys_mono [of "Suc (Suc j)" i ?t] by (auto simp: youngKeys_Suc)
  next
    case other
    from k consider n where "n < i" "k \<in> dom (acurr st n) \<union> dom (asnap st n)" | "k \<in> dom (acurr st i)"
      unfolding youngKeys_def by blast
    then show ?thesis
    proof cases
      case (1 n)
      then have "k \<in> dom (acurr ?t n) \<union> dom (asnap ?t n)" using other by (auto simp: sel)
      then show ?thesis using 1(1) unfolding youngKeys_def by blast
    next
      case 2
      then show ?thesis using other by (auto simp: sel)
    qed
  qed
qed

lemma loop_inv_spill:
  assumes inv: "loop_inv dead M (Suc j) st" and j: "j < 10"
  shows "loop_inv dead M j (spillLevel dead M j st)"
proof (cases "spills M j")
  case False
  then have "\<not> half j dvd M" using j by (simp add: spills_def)
  then have "absorbs dead st j (pendingCurr M j (acurr st (Suc j)))"
    using inv by (auto simp: loop_inv_def dueCurr_def)
  moreover have "absorbs dead st i (pendingCurr M i (acurr st (Suc i)))" if "Suc j \<le> i" "i < 10" for i
    using inv that by (simp add: loop_inv_def)
  ultimately have "absorbs dead st i (pendingCurr M i (acurr st (Suc i)))" if "j \<le> i" "i < 10" for i
    using that by (cases "i = j") auto
  then show ?thesis
    using inv False unfolding spillLevel_idle [OF False] loop_inv_def by simp
next
  case True
  let ?t = "spillLevel dead M j st"
  note sel = spillLevel_sel [OF True, of dead st]
  have a: "absorbs dead ?t i (dueCurr M i (acurr ?t (Suc i)))" if i: "i < j" for i
  proof -
    have "half i dvd M" using dvd_trans [OF half_dvd [of i j]] i True by (simp add: spills_def)
    then have "dueCurr M i (acurr ?t (Suc i)) = dueCurr M i (acurr st (Suc i))"
      using i True by (cases "Suc i = j") (simp_all add: sel dueCurr_def)
    moreover have "absorbs dead st i (dueCurr M i (acurr st (Suc i)))"
      using inv i by (simp add: loop_inv_def)
    moreover have "youngKeys ?t i = youngKeys st i" by (rule youngKeys_cong) (use i in \<open>simp add: sel\<close>)
    ultimately show ?thesis by - (rule absorbs_cong [where st = st], use i in \<open>simp_all add: sel\<close>)
  qed
  have "nextSpill j M = M + half j" using True by (simp add: nextSpill_at spills_def)
  moreover have "youngKeys ?t j = youngKeys st j" by (rule youngKeys_cong) (simp add: sel)
  ultimately have b: "absorbs dead ?t j (pendingCurr M j (acurr ?t (Suc j)))"
    by (simp add: absorbs_def sel pendingCurr_def mergeMaps_def)
  have c: "absorbs dead ?t i (pendingCurr M i (acurr ?t (Suc i)))" if i: "j < i" "i < 10" for i
  proof -
    have "absorbs dead st i (pendingCurr M i (acurr ?t (Suc i)))" using inv i by (simp add: loop_inv_def sel)
    moreover have "youngKeys st i \<union> dom (acurr st i) \<subseteq> youngKeys ?t i \<union> dom (acurr ?t i)"
      by (rule spillLevel_young [OF inv True _ i(1)]) (use i in simp)
    ultimately show ?thesis by - (rule absorbs_cong [where st = st], use i in \<open>simp_all add: sel(2,3)\<close>)
  qed
  have "absorbs dead ?t i (pendingCurr M i (acurr ?t (Suc i)))" if "j \<le> i" "i < 10" for i
    using b c that by (cases "i = j") auto
  moreover have "asnap ?t 10 = Map.empty" "acurr ?t j = Map.empty"
    using inv j by (simp_all add: loop_inv_def sel)
  ultimately show ?thesis unfolding loop_inv_def using a by blast
qed

section \<open>Lookups survive\<close>

lemma lookFrom_cong:
  "(\<And>n. i \<le> n \<Longrightarrow> acurr st' n = acurr st n \<and> asnap st' n = asnap st n) \<Longrightarrow> lookFrom st' i = lookFrom st i"
  unfolding lookFrom_def by (rule fold_cong) auto

lemma lookFrom_agree:
  assumes "j \<le> 11" "\<And>i. i < j \<Longrightarrow> acurr st' i = acurr st i \<and> asnap st' i = asnap st i"
    "\<And>k. k \<notin> youngKeys st j \<Longrightarrow> visible dead (lookFrom st' j k) = visible dead (lookFrom st j k)"
  shows "visible dead (lookFrom st' 0 k) = visible dead (lookFrom st 0 k)"
  using assms
proof (induction j)
  case 0
  then show ?case by (simp add: youngKeys_def)
next
  case (Suc j)
  show ?case
  proof (rule Suc.IH)
    fix k assume k: "k \<notin> youngKeys st j"
    have l: "lookFrom st' j = (lookFrom st' (Suc j) ++ asnap st j) ++ acurr st j"
      "lookFrom st j = (lookFrom st (Suc j) ++ asnap st j) ++ acurr st j"
      using Suc.prems(1,2) by (simp_all add: lookFrom_step)
    show "visible dead (lookFrom st' j k) = visible dead (lookFrom st j k)"
    proof (cases "k \<in> dom (acurr st j) \<union> dom (asnap st j)")
      case True
      then show ?thesis unfolding l by (auto simp: map_add_def split: option.splits)
    next
      case False
      then have "k \<notin> youngKeys st (Suc j)" using k by (simp add: youngKeys_Suc)
      then show ?thesis
        using Suc.prems(3) [of k] False unfolding l by (auto simp: map_add_def domIff split: option.splits)
    qed
  qed (use Suc.prems in auto)
qed

lemma spillLevel_lookup:
  assumes inv: "loop_inv dead M (Suc j) st" and j: "j < 10"
  shows "visible dead (lookFrom (spillLevel dead M j st) 0 k) = visible dead (lookFrom st 0 k)"
proof (cases "spills M j")
  case False
  then show ?thesis by (simp add: spillLevel_idle)
next
  case True
  let ?t = "spillLevel dead M j st" and ?T = "lookFrom st (Suc (Suc j)) ++ asnap st (Suc j)"
  note sel = spillLevel_sel [OF True, of dead st]
  have "lookFrom ?t (Suc (Suc j)) = lookFrom st (Suc (Suc j))" by (rule lookFrom_cong) (simp add: sel)
  then have t: "lookFrom ?t j = (?T ++ nowCurr st j) ++ acurr st j"
    using j by (simp add: lookFrom_step sel)
  have s: "lookFrom st j = ((?T ++ acurr st (Suc j)) ++ asnap st j) ++ acurr st j"
    using j by (simp add: lookFrom_step)
  have last: "?T = Map.empty" if "\<not> Suc j < 10"
  proof -
    have "Suc j = 10" using j that by simp
    then show ?thesis using inv by (simp add: lookFrom_11 loop_inv_def)
  qed
  show ?thesis
  proof (rule lookFrom_agree [of j])
    fix k assume k: "k \<notin> youngKeys st j"
    show "visible dead (lookFrom ?t j k) = visible dead (lookFrom st j k)"
    proof (cases "k \<in> dom (acurr st j)")
      case True
      then show ?thesis unfolding s t by (auto simp: map_add_def split: option.splits)
    next
      case False
      then have "acurr st j k = None" by auto
      then show ?thesis
        using nowCurr_due [OF inv True, of k] k False last unfolding s t
        by (cases "Suc j < 10") (auto simp: map_add_def kept_def visible_def split: option.splits)
    qed
  qed (use j in \<open>simp_all add: sel\<close>)
qed

lemma spillLevels_inv:
  assumes "loop_inv dead M n st" "n \<le> 10"
  shows "loop_inv dead M 0 (spillLevels dead M n st)
    \<and> visible dead (lookFrom (spillLevels dead M n st) 0 k) = visible dead (lookFrom st 0 k)"
  using assms
proof (induction n arbitrary: st)
  case (Suc j)
  then show ?case using loop_inv_spill [OF Suc.prems(1)] spillLevel_lookup [OF Suc.prems(1)] by simp
qed simp

text \<open>
  Adding a batch at the next ledger keeps the invariant, and what a lookup sees afterwards is the
  batch over what it saw before.
\<close>

lemma batchLevels_correct:
  assumes "list_inv dead L st"
  shows "list_inv dead (Suc L) (batchLevels dead (Suc L) batch st)"
    and "visible dead (lookFrom (batchLevels dead (Suc L) batch st) 0 k) =
      (case batch k of Some e \<Rightarrow> visible dead (Some e) | None \<Rightarrow> visible dead (lookFrom st 0 k))"
proof -
  let ?m = "spillLevels dead (Suc L) 10 st"
  let ?t = "?m\<lparr>acurr := (acurr ?m)(0 := acurr ?m 0 ++ batch)\<rparr>"
  have t: "batchLevels dead (Suc L) batch st = ?t" by (simp add: batchLevels_def Let_def)
  have m: "loop_inv dead (Suc L) 0 ?m" "visible dead (lookFrom ?m 0 k) = visible dead (lookFrom st 0 k)"
    using spillLevels_inv [OF loop_inv_start [OF assms]] by auto
  have "absorbs dead ?t j (pendingCurr (Suc L) j (acurr ?t (Suc j)))" if "j < 10" for j
  proof (rule absorbs_cong [where st = ?m])
    show "absorbs dead ?m j (pendingCurr (Suc L) j (acurr ?t (Suc j)))"
      using m(1) that by (simp add: loop_inv_def)
    show "youngKeys ?m j \<union> dom (acurr ?m j) \<subseteq> youngKeys ?t j \<union> dom (acurr ?t j)"
      by (rule Un_mono [OF youngKeys_grow]) (auto simp: domIff)
  qed simp_all
  then show "list_inv dead (Suc L) (batchLevels dead (Suc L) batch st)"
    using m(1) by (simp add: t list_inv_def loop_inv_def)
  have "lookFrom ?t (Suc 0) = lookFrom ?m (Suc 0)" by (rule lookFrom_cong) simp
  then have "lookFrom ?t 0 = lookFrom ?m 0 ++ batch" by (simp add: lookFrom_step)
  then show "visible dead (lookFrom (batchLevels dead (Suc L) batch st) 0 k) =
      (case batch k of Some e \<Rightarrow> visible dead (Some e) | None \<Rightarrow> visible dead (lookFrom st 0 k))"
    using m(2) by (simp add: t map_add_def split: option.splits)
qed

end
