(* ===== verification/Bucket_Refinement.thy ===== *)
theory Bucket_Refinement
  imports Bucket_Spill
begin

text \<open>
  The bucket list refines the maps of \<open>Bucket_Spill\<close>: on well-formed levels every operation
  of \<open>BucketList.cpp\<close> succeeds, keeps the levels well formed and has the effect of its
  counterpart on what the buckets answer. The ledger a list of levels stands for is what a
  lookup sees in it; \<open>addBatch\<close> overlays it with the batch.
\<close>

lemma unat_add_u32: "unat a + unat b < 2 ^ 32 \<Longrightarrow> unat (a + b) = unat a + unat b" for a b :: u32
  by (simp add: unat_word_ariths)

section \<open>Well-formed levels\<close>

definition nextBucket :: "('k, 'e) BucketLevel \<Rightarrow> ('k, 'e) bucket option" where
  "nextBucket lev =
     (if isLive (mNextCurr lev)
      then case futureGet (mOutputBucket (mNextCurr lev)) of Inr b \<Rightarrow> Some b | Inl _ \<Rightarrow> None
      else None)"

definition level_ok ::
  "('k, 'e) bucket_env \<Rightarrow> (('k, 'e) BucketEntry \<Rightarrow> 'i::linorder) \<Rightarrow> ('k, 'e) BucketLevel \<Rightarrow> bool" where
  "level_ok env kf lev \<longleftrightarrow>
     bucket_ok kf (mCurr lev) \<and> bucket_ok kf (mSnap lev) \<and> future_ok env (mNextCurr lev)
     \<and> (isLive (mNextCurr lev) \<longrightarrow>
          (\<exists>b. futureGet (mOutputBucket (mNextCurr lev)) = Inr b \<and> bucket_ok kf b))"

definition list_ok ::
  "('k, 'e) bucket_env \<Rightarrow> (('k, 'e) BucketEntry \<Rightarrow> 'i::linorder) \<Rightarrow> ('k, 'e) BucketLevel list \<Rightarrow> bool" where
  "list_ok env kf levels \<longleftrightarrow>
     length levels = 11 \<and> (\<forall>i < 11. mLevel (levels ! i) = i \<and> level_ok env kf (levels ! i))
     \<and> \<not> isLive (mNextCurr (levels ! 0))"

definition absLevels ::
  "(('k, 'e) BucketEntry \<Rightarrow> 'i) \<Rightarrow> ('k, 'e) BucketLevel list \<Rightarrow> ('i, ('k, 'e) BucketEntry) levels" where
  "absLevels kf levels =
     \<lparr>acurr = (\<lambda>i. if i < length levels then blookup kf (mCurr (levels ! i)) else Map.empty),
      asnap = (\<lambda>i. if i < length levels then blookup kf (mSnap (levels ! i)) else Map.empty),
      anext = (\<lambda>i. if i < length levels then map_option (blookup kf) (nextBucket (levels ! i)) else None)\<rparr>"

section \<open>Operations on a level\<close>

lemma commitLevel_ok:
  assumes "level_ok env kf lev"
  shows "\<exists>lev'. commitLevel env lev = Inr lev' \<and> level_ok env kf lev' \<and> \<not> isLive (mNextCurr lev')
    \<and> mLevel lev' = mLevel lev \<and> mSnap lev' = mSnap lev
    \<and> mCurr lev' = (case nextBucket lev of Some b \<Rightarrow> b | None \<Rightarrow> mCurr lev)"
proof (cases "isLive (mNextCurr lev)")
  case True
  then obtain b where b: "futureGet (mOutputBucket (mNextCurr lev)) = Inr b" "bucket_ok kf b"
    using assms by (auto simp: level_ok_def)
  obtain fb where "resolve env (mNextCurr lev) = Inr (fb, b)"
    using resolve_ok [OF _ True b(1)] assms by (auto simp: level_ok_def)
  then show ?thesis
    using True b assms
    by (simp add: commitLevel_def setCurr_def level_ok_def nextBucket_def clearFuture_ok)
next
  case False
  then show ?thesis using assms by (simp add: commitLevel_def nextBucket_def isLive_def isMerging_def)
qed

lemma filter_writes_lookup:
  assumes "bucket_ok kf old" "bucket_ok kf new"
  shows "blookup kf (filter (writes kf shadows keep) (overlay kf old new)) =
    (\<lambda>i. if shadowed kf shadows i then None
         else case (blookup kf old ++ blookup kf new) i of
                Some e \<Rightarrow> if keep \<or> \<not> isDead e then Some e else None | None \<Rightarrow> None)"
proof
  fix i
  have "blookup kf (overlay kf old new) i = Some e \<Longrightarrow> kf e = i" for e
    using blookup_SomeD by fastforce
  then show "blookup kf (filter (writes kf shadows keep) (overlay kf old new)) i =
    (if shadowed kf shadows i then None
     else case (blookup kf old ++ blookup kf new) i of
            Some e \<Rightarrow> if keep \<or> \<not> isDead e then Some e else None | None \<Rightarrow> None)"
    unfolding blookup_filter [OF bucket_ok_overlay [OF assms]] blookup_overlay [OF assms, symmetric]
    by (auto simp: writes_def split: option.splits)
qed

lemma merge_lookup:
  assumes "bucket_ok kf old" "bucket_ok kf new"
  shows "blookup kf (filter (writes kf shadows (i < 10)) (overlay kf old new))
    = mergeMaps isDead i {k. shadowed kf shadows k} (blookup kf old) (blookup kf new)"
  unfolding filter_writes_lookup [OF assms] mergeMaps_def kept_def visible_def
  by (auto simp: fun_eq_iff map_add_def split: option.splits)

lemma prepareLevel_ok:
  assumes cmp: "ident_order (entryIdCmp env) kf" and lev: "level_ok env kf lev" "\<not> isLive (mNextCurr lev)"
    and i: "mLevel lev < 11" and L: "unat L + half 9 < 2 ^ 32"
    and b: "bucket_ok kf snap" "\<forall>s \<in> set shadows. bucket_ok kf s"
  shows "\<exists>lev'. prepareLevel env L snap shadows lev = Inr lev' \<and> level_ok env kf lev'
    \<and> mLevel lev' = mLevel lev \<and> mCurr lev' = mCurr lev \<and> mSnap lev' = mSnap lev
    \<and> nextBucket lev' = Some (filter (writes kf shadows (mLevel lev < 10)) (overlay kf
        (if mLevel lev > 0 \<and> spills (unat L + half (mLevel lev - 1)) (mLevel lev) then [] else mCurr lev) snap))"
proof -
  let ?c = "if mLevel lev > 0 \<and> spills (unat L + half (mLevel lev - 1)) (mLevel lev) then [] else mCurr lev"
  let ?b = "filter (writes kf shadows (mLevel lev < 10)) (overlay kf ?c snap)"
  have c: "bucket_ok kf ?c" using lev(1) by (simp add: level_ok_def)
  have m: "mergeBuckets (entryIdCmp env) ?c snap shadows (mLevel lev < kNumLevels - 1) = Inr ?b"
    using mergeBuckets_overlay [OF cmp c b] by (simp add: kNumLevels_def)
  have next_spill: "levelShouldSpill (L + 2 ^ (2 * j + 1)) (Suc j) = Inr (spills (unat L + half j) (Suc j))"
    if "Suc j < 11" for j
  proof -
    have "half j \<le> half 9" using that dvd_imp_le [OF half_dvd [of j 9]] by (simp add: half_def)
    moreover have u: "unat (2 ^ (2 * j + 1) :: u32) = half j"
      unfolding half_pow by (rule unat_pow2) (use that in simp)
    ultimately have "unat L + unat (2 ^ (2 * j + 1) :: u32) < 2 ^ 32" using L by linarith
    then have "unat (L + 2 ^ (2 * j + 1)) = unat L + half j"
      unfolding u [symmetric] by (rule unat_add_u32)
    then show ?thesis using levelShouldSpill_eq [of "Suc j" "L + 2 ^ (2 * j + 1)"] that by (simp add: kNumLevels_def)
  qed
  have curr: "(if mLevel lev > 0 then bindE (levelHalf (mLevel lev - 1)) (\<lambda>h.
        let nextChangeLedger = L + h in bindE (levelShouldSpill nextChangeLedger (mLevel lev)) (\<lambda>spill.
          Inr (if spill then [] else mCurr lev))) else Inr (mCurr lev)) = Inr ?c"
  proof (cases "mLevel lev")
    case (Suc j)
    then show ?thesis using next_spill [of j] i by (simp add: levelHalf_eq kNumLevels_def del: power_Suc)
  qed simp
  obtain fb where fb: "newFuture env ?c snap shadows (mLevel lev < kNumLevels - 1) = Inr fb" "future_ok env fb"
      "isMerging fb" "futureGet (mOutputBucket fb) = Inr ?b"
    using newFuture_ok [of env ?c snap shadows "mLevel lev < kNumLevels - 1"] m by auto
  have "\<not> isMerging (mNextCurr lev)" using lev(2) by (simp add: isLive_def isMerging_def)
  then have "prepareLevel env L snap shadows lev = Inr (lev\<lparr>mNextCurr := fb\<rparr>)"
    unfolding prepareLevel_def curr using fb by simp
  moreover have "bucket_ok kf ?b" by (intro bucket_ok_filter bucket_ok_overlay c b)
  moreover have "isLive fb" using fb(3) by (simp add: isLive_def isMerging_def)
  ultimately show ?thesis using fb lev(1) by (simp add: level_ok_def nextBucket_def)
qed

section \<open>The loop over the levels\<close>

definition shadowVec :: "('k, 'e) BucketLevel list \<Rightarrow> ('k, 'e) bucket list" where
  "shadowVec levels = concat (map (\<lambda>lev. [mCurr lev, mSnap lev]) levels)"

lemma popTwo_shadowVec:
  "j < length levels \<Longrightarrow> popTwo (shadowVec (take (Suc j) levels)) = Inr (shadowVec (take j levels))"
  by (simp add: popTwo_def shadowVec_def take_Suc_conv_app_nth)
    (simp add: butlast_append)

lemma dom_blookup: "dom (blookup kf b) = idents kf b"
proof (rule set_eqI)
  show "i \<in> dom (blookup kf b) \<longleftrightarrow> i \<in> idents kf b" for i
    using blookup_None [of kf b i] by (simp only: domIff) blast
qed

lemma shadowVec_young:
  assumes "j \<le> length levels"
  shows "{k. shadowed kf (shadowVec (take j levels)) k} = youngKeys (absLevels kf levels) j"
proof -
  have "set (shadowVec (take j levels)) = (\<Union>i < j. {mCurr (levels ! i), mSnap (levels ! i)})"
    using assms by (simp add: shadowVec_def set_conv_nth [of "take j levels"]) auto
  then have "{k. shadowed kf (shadowVec (take j levels)) k}
      = (\<Union>i < j. idents kf (mCurr (levels ! i)) \<union> idents kf (mSnap (levels ! i)))"
    by (auto simp: shadowed_def)
  then show ?thesis using assms by (simp add: youngKeys_def absLevels_def dom_blookup)
qed

lemma shadowVec_ok:
  assumes "list_ok env kf levels"
  shows "\<forall>s \<in> set (shadowVec (take j levels)). bucket_ok kf s"
proof -
  have "bucket_ok kf (mCurr lev) \<and> bucket_ok kf (mSnap lev)" if lev: "lev \<in> set (take j levels)" for lev
  proof -
    obtain i where "i < 11" "lev = levels ! i"
      using in_set_takeD [OF lev] assms by (auto simp: in_set_conv_nth list_ok_def)
    then show ?thesis using assms by (simp add: list_ok_def level_ok_def)
  qed
  then show ?thesis by (auto simp: shadowVec_def)
qed

text \<open>The body of the loop for a level that spills.\<close>

definition spillBody ::
  "('k, 'e) bucket_env \<Rightarrow> u32 \<Rightarrow> nat \<Rightarrow> ('k, 'e) bucket list \<Rightarrow> ('k, 'e) BucketLevel list
     \<Rightarrow> cxx_error + ('k, 'e) BucketLevel list" where
  "spillBody env L j shadows levels =
     (let (below, snap) = snapLevel (levels ! j) in
      let levels = levels[j := below] in
      bindE (commitLevel env (levels ! Suc j)) (\<lambda>lev.
      bindE (prepareLevel env L snap shadows lev) (\<lambda>lev. Inr (levels[Suc j := lev]))))"

lemma spillBody_fields:
  assumes cmp: "ident_order (entryIdCmp env) kf" and ok: "list_ok env kf levels" and j: "j < 10"
    and L: "unat L + half 9 < 2 ^ 32"
  shows "\<exists>lev. spillBody env L j (shadowVec (take j levels)) levels
      = Inr (levels[j := (levels ! j)\<lparr>mSnap := mCurr (levels ! j), mCurr := []\<rparr>, Suc j := lev])
    \<and> level_ok env kf lev \<and> mLevel lev = Suc j \<and> mSnap lev = mSnap (levels ! Suc j)
    \<and> mCurr lev = (case nextBucket (levels ! Suc j) of Some b \<Rightarrow> b | None \<Rightarrow> mCurr (levels ! Suc j))
    \<and> nextBucket lev = Some (filter (writes kf (shadowVec (take j levels)) (Suc j < 10)) (overlay kf
        (if spills (unat L + half j) (Suc j) then [] else mCurr lev) (mCurr (levels ! j))))"
proof -
  have len: "length levels = 11" and lev: "\<And>i. i < 11 \<Longrightarrow> mLevel (levels ! i) = i \<and> level_ok env kf (levels ! i)"
    using ok by (auto simp: list_ok_def)
  obtain l1 where l1: "commitLevel env (levels ! Suc j) = Inr l1" "level_ok env kf l1" "\<not> isLive (mNextCurr l1)"
      "mLevel l1 = Suc j" "mSnap l1 = mSnap (levels ! Suc j)"
      "mCurr l1 = (case nextBucket (levels ! Suc j) of Some b \<Rightarrow> b | None \<Rightarrow> mCurr (levels ! Suc j))"
    using commitLevel_ok [of env kf "levels ! Suc j"] lev [of "Suc j"] j by auto
  have snap: "bucket_ok kf (mCurr (levels ! j))" using lev [of j] j by (simp add: level_ok_def)
  let ?sh = "shadowVec (take j levels)"
  obtain l2 where l2: "prepareLevel env L (mCurr (levels ! j)) ?sh l1 = Inr l2" "level_ok env kf l2"
      "mLevel l2 = Suc j" "mCurr l2 = mCurr l1" "mSnap l2 = mSnap l1"
      "nextBucket l2 = Some (filter (writes kf ?sh (Suc j < 10)) (overlay kf
        (if spills (unat L + half j) (Suc j) then [] else mCurr l1) (mCurr (levels ! j))))"
    using prepareLevel_ok [OF cmp l1(2,3) _ L snap shadowVec_ok [OF ok]] l1(4) j by auto
  then show ?thesis using l1 by (intro exI [of _ l2]) (simp add: spillBody_def snapLevel_def Let_def)
qed

lemma spillBody_refines:
  assumes cmp: "ident_order (entryIdCmp env) kf" and ok: "list_ok env kf levels" and j: "j < 10"
    and sp: "spills (unat L) j" and L: "unat L + half 9 < 2 ^ 32"
  shows "\<exists>levels'. spillBody env L j (shadowVec (take j levels)) levels = Inr levels'
    \<and> list_ok env kf levels' \<and> take j levels' = take j levels
    \<and> absLevels kf levels' = spillLevel isDead (unat L) j (absLevels kf levels)"
proof -
  let ?below = "(levels ! j)\<lparr>mSnap := mCurr (levels ! j), mCurr := []\<rparr>" and ?sh = "shadowVec (take j levels)"
  have len: "length levels = 11" and lev: "\<And>i. i < 11 \<Longrightarrow> mLevel (levels ! i) = i \<and> level_ok env kf (levels ! i)"
    using ok by (auto simp: list_ok_def)
  have snap: "bucket_ok kf (mCurr (levels ! j))" using lev [of j] j by (simp add: level_ok_def)
  obtain l2 where l2: "spillBody env L j ?sh levels = Inr (levels[j := ?below, Suc j := l2])" "level_ok env kf l2"
      "mLevel l2 = Suc j" "mSnap l2 = mSnap (levels ! Suc j)"
      "mCurr l2 = (case nextBucket (levels ! Suc j) of Some b \<Rightarrow> b | None \<Rightarrow> mCurr (levels ! Suc j))"
      "nextBucket l2 = Some (filter (writes kf ?sh (Suc j < 10)) (overlay kf
        (if spills (unat L + half j) (Suc j) then [] else mCurr l2) (mCurr (levels ! j))))"
    using spillBody_fields [OF cmp ok j L] by blast
  let ?old = "if spills (unat L + half j) (Suc j) then [] else mCurr l2"
  let ?l = "levels[j := ?below, Suc j := l2]"
  have "list_ok env kf ?l"
  proof -
    have "level_ok env kf ?below" using lev [of j] j by (simp add: level_ok_def)
    moreover have "mLevel ?below = j" using lev [of j] j by simp
    moreover have "\<not> isLive (mNextCurr (?l ! 0))" using ok len by (cases j) (simp_all add: list_ok_def)
    moreover have "mLevel (?l ! i) = i \<and> level_ok env kf (?l ! i)" if "i < 11" for i
      using lev [OF that] calculation(1,2) l2(2,3) len j that
      by (cases "i = Suc j"; cases "i = j") simp_all
    ultimately show ?thesis using len unfolding list_ok_def by simp
  qed
  moreover have "take j ?l = take j levels" by simp
  moreover have "absLevels kf ?l = spillLevel isDead (unat L) j (absLevels kf levels)"
  proof -
    have old: "bucket_ok kf ?old" using l2(2) by (simp add: level_ok_def)
    have y: "{k. shadowed kf ?sh k} = youngKeys (absLevels kf levels) j" by (rule shadowVec_young) (use len j in simp)
    have cc: "blookup kf (mCurr l2) = nowCurr (absLevels kf levels) j"
      using l2(5) len j by (simp add: nowCurr_def absLevels_def split: option.splits)
    have n: "blookup kf (filter (writes kf ?sh (Suc j < 10)) (overlay kf ?old (mCurr (levels ! j))))
        = mergeMaps isDead (Suc j) (youngKeys (absLevels kf levels) j)
            (if spills (unat L + half j) (Suc j) then Map.empty else nowCurr (absLevels kf levels) j)
            (acurr (absLevels kf levels) j)"
    proof -
      have "blookup kf ?old = (if spills (unat L + half j) (Suc j) then Map.empty else nowCurr (absLevels kf levels) j)"
        using cc by (simp add: fun_eq_iff)
      moreover have "blookup kf (mCurr (levels ! j)) = acurr (absLevels kf levels) j"
        using len j by (simp add: absLevels_def)
      ultimately show ?thesis unfolding merge_lookup [OF old snap] y by (simp only:)
    qed
    show ?thesis
    proof (rule levels.equality)
      show "acurr (absLevels kf ?l) = acurr (spillLevel isDead (unat L) j (absLevels kf levels))"
        unfolding spillLevel_sel [OF sp] cc [symmetric]
        using len j by (auto simp: absLevels_def fun_eq_iff nth_list_update)
      show "asnap (absLevels kf ?l) = asnap (spillLevel isDead (unat L) j (absLevels kf levels))"
        unfolding spillLevel_sel [OF sp]
        using len j l2(4) by (auto simp: absLevels_def fun_eq_iff nth_list_update)
      show "anext (absLevels kf ?l) = anext (spillLevel isDead (unat L) j (absLevels kf levels))"
        unfolding spillLevel_sel [OF sp] n [symmetric]
        using len j l2(6) by (auto simp: absLevels_def fun_eq_iff nth_list_update nextBucket_def)
    qed simp
  qed
  ultimately show ?thesis using l2(1) by blast
qed

lemma spillLoop_refines:
  assumes cmp: "ident_order (entryIdCmp env) kf" and L: "unat L + half 9 < 2 ^ 32"
    and "list_ok env kf levels" "n \<le> 10"
  shows "\<exists>levels'. spillLoop env L n (shadowVec (take n levels)) levels = Inr ([], levels')
    \<and> list_ok env kf levels' \<and> absLevels kf levels' = spillLevels isDead (unat L) n (absLevels kf levels)"
  using assms(3,4)
proof (induction n arbitrary: levels)
  case 0
  then show ?case by (simp add: shadowVec_def)
next
  case (Suc j)
  have len: "length levels = 11" using Suc.prems by (simp add: list_ok_def)
  have pop: "popTwo (shadowVec (take (Suc j) levels)) = Inr (shadowVec (take j levels))"
    by (rule popTwo_shadowVec) (use len Suc.prems(2) in simp)
  have sp: "levelShouldSpill L j = Inr (spills (unat L) j)"
    by (rule levelShouldSpill_eq) (use Suc.prems(2) in \<open>simp add: kNumLevels_def\<close>)
  obtain levels1 where l: "(if spills (unat L) j then spillBody env L j (shadowVec (take j levels)) levels else Inr levels) = Inr levels1"
      "list_ok env kf levels1" "take j levels1 = take j levels"
      "absLevels kf levels1 = spillLevel isDead (unat L) j (absLevels kf levels)"
    using spillBody_refines [OF cmp Suc.prems(1) _ _ L, of j] Suc.prems
    by (cases "spills (unat L) j") (auto simp: spillLevel_idle)
  obtain levels2 where "spillLoop env L j (shadowVec (take j levels1)) levels1 = Inr ([], levels2)"
      "list_ok env kf levels2" "absLevels kf levels2 = spillLevels isDead (unat L) j (absLevels kf levels1)"
    using Suc.IH [OF l(2)] Suc.prems(2) by auto
  then show ?case
    using pop sp l unfolding spillLoop.simps spillBody_def by simp
qed

section \<open>Adding a batch\<close>

definition batchMap ::
  "(('k, 'e) BucketEntry \<Rightarrow> 'i) \<Rightarrow> 'e list \<Rightarrow> 'k list \<Rightarrow> 'i \<rightharpoonup> ('k, 'e) BucketEntry" where
  "batchMap kf live dead =
     map_of (map (\<lambda>e. (kf (LIVEENTRY e), LIVEENTRY e)) live)
     ++ map_of (map (\<lambda>k. (kf (DEADENTRY k), DEADENTRY k)) dead)"

lemma blookup_set:
  assumes "bucket_ok kf b" "set b = set (map f xs)" "distinct (map (\<lambda>x. kf (f x)) xs)"
  shows "blookup kf b = map_of (map (\<lambda>x. (kf (f x), f x)) xs)"
proof
  fix i
  have d: "distinct (map fst (map (\<lambda>x. (kf (f x), f x)) xs))" using assms(3) by (simp add: o_def)
  have "blookup kf b i = Some e \<longleftrightarrow> map_of (map (\<lambda>x. (kf (f x), f x)) xs) i = Some e" for e
    unfolding blookup_Some [OF assms(1)] map_of_eq_Some_iff [OF d] using assms(2) by auto
  then show "blookup kf b i = map_of (map (\<lambda>x. (kf (f x), f x)) xs) i" by (metis not_None_eq)
qed

lemma fresh_lookup:
  assumes "ident_order cmp kf" "distinct (map (\<lambda>e. kf (LIVEENTRY e)) live)"
    "distinct (map (\<lambda>k. kf (DEADENTRY k)) dead)"
  shows "\<exists>b. fresh cmp live dead = Inr b \<and> bucket_ok kf b \<and> blookup kf b = batchMap kf live dead"
proof -
  obtain l d where b: "fresh cmp live dead = Inr (overlay kf l d)" "bucket_ok kf l" "bucket_ok kf d"
      "set l = LIVEENTRY ` set live" "set d = DEADENTRY ` set dead"
    using fresh_overlay [OF assms] by blast
  have "blookup kf (overlay kf l d) = batchMap kf live dead"
    unfolding blookup_overlay [OF b(2,3)] batchMap_def
    using blookup_set [OF b(2), of LIVEENTRY live] blookup_set [OF b(3), of DEADENTRY dead] b(4,5) assms(2,3)
    by simp
  then show ?thesis using b bucket_ok_overlay by blast
qed

lemma addBatch_refines:
  assumes cmp: "ident_order (entryIdCmp env) kf" and L: "0 < L" "unat L + half 9 < 2 ^ 32"
    and ok: "list_ok env kf levels"
    and d: "distinct (map (\<lambda>e. kf (LIVEENTRY e)) live)" "distinct (map (\<lambda>k. kf (DEADENTRY k)) dead)"
  shows "\<exists>levels'. addBatch env L live dead levels = Inr levels' \<and> list_ok env kf levels'
    \<and> absLevels kf levels' = batchLevels isDead (unat L) (batchMap kf live dead) (absLevels kf levels)"
proof -
  have len: "length levels = 11" using ok by (simp add: list_ok_def)
  have pop: "popTwo (concat (map (\<lambda>lev. [mCurr lev, mSnap lev]) levels)) = Inr (shadowVec (take 10 levels))"
    using popTwo_shadowVec [of 10 levels] len by (simp add: shadowVec_def)
  obtain l1 where l1: "spillLoop env L 10 (shadowVec (take 10 levels)) levels = Inr ([], l1)"
      "list_ok env kf l1" "absLevels kf l1 = spillLevels isDead (unat L) 10 (absLevels kf levels)"
    using spillLoop_refines [OF cmp L(2) ok, of 10] by auto
  obtain b where b: "fresh (entryIdCmp env) live dead = Inr b" "bucket_ok kf b" "blookup kf b = batchMap kf live dead"
    using fresh_lookup [OF cmp d] by blast
  have l0: "mLevel (l1 ! 0) = 0" "level_ok env kf (l1 ! 0)" "\<not> isLive (mNextCurr (l1 ! 0))" "length l1 = 11"
    using l1(2) by (auto simp: list_ok_def)
  let ?m = "filter (writes kf [] (0 < (10 :: nat))) (overlay kf (mCurr (l1 ! 0)) b)"
  obtain p where p: "prepareLevel env L b [] (l1 ! 0) = Inr p" "level_ok env kf p" "mLevel p = 0"
      "mSnap p = mSnap (l1 ! 0)" "nextBucket p = Some ?m"
    using prepareLevel_ok [OF cmp l0(2,3) _ L(2) b(2), of "[]"] l0(1) by auto
  obtain q where q: "commitLevel env p = Inr q" "level_ok env kf q" "\<not> isLive (mNextCurr q)" "mLevel q = 0"
      "mSnap q = mSnap (l1 ! 0)" "mCurr q = ?m"
    using commitLevel_ok [OF p(2)] p by auto
  have c0: "bucket_ok kf (mCurr (l1 ! 0))" using l0(2) by (simp add: level_ok_def)
  have "blookup kf ?m = blookup kf (mCurr (l1 ! 0)) ++ batchMap kf live dead"
    unfolding merge_lookup [OF c0 b(2)] by (simp add: mergeMaps_def kept_def b(3))
  then have "absLevels kf (l1[0 := q]) = batchLevels isDead (unat L) (batchMap kf live dead) (absLevels kf levels)"
    unfolding batchLevels_def Let_def l1(3) [symmetric] using l0 q
    by (auto simp: absLevels_def fun_eq_iff nth_list_update nextBucket_def)
  moreover have "list_ok env kf (l1[0 := q])"
    using l1(2) q by (auto simp: list_ok_def nth_list_update)
  moreover have "addBatch env L live dead levels = Inr (l1[0 := q])"
    using L(1) len pop l1(1) b(1) p(1) q(1) by (simp add: addBatch_def)
  ultimately show ?thesis by blast
qed

section \<open>The ledger in a bucket list\<close>

definition ledgerState ::
  "(('k, 'e) BucketEntry \<Rightarrow> 'i) \<Rightarrow> ('k, 'e) BucketLevel list \<Rightarrow> 'i \<rightharpoonup> 'e" where
  "ledgerState kf levels i = liveOr None (lookFrom (absLevels kf levels) 0 i)"

lemma liveOr_visible: "liveOr None x = liveOr None (visible isDead x)"
proof (cases x)
  case (Some e)
  then show ?thesis by (cases e) auto
qed simp

text \<open>What holds of every bucket list a node builds ledger by ledger, up to ledger \<open>L\<close>.\<close>

definition built ::
  "('k, 'e) bucket_env \<Rightarrow> (('k, 'e) BucketEntry \<Rightarrow> 'i::linorder) \<Rightarrow> nat \<Rightarrow> ('k, 'e) BucketLevel list \<Rightarrow> bool" where
  "built env kf L levels \<longleftrightarrow> list_ok env kf levels \<and> list_inv isDead L (absLevels kf levels)"

lemma emptyFuture_idle: "\<not> isLive (emptyFuture j)"
  by (simp add: isLive_def emptyFuture_def)

lemma built_new: "built env kf L newBucketList"
proof -
  have n: "i < 11 \<Longrightarrow> newBucketList ! i = newLevel i" for i by (simp add: newBucketList_def kNumLevels_def)
  have a: "absLevels kf (newBucketList :: ('a, 'b) BucketLevel list)
      = \<lparr>acurr = (\<lambda>_. Map.empty), asnap = (\<lambda>_. Map.empty), anext = (\<lambda>_. None)\<rparr>"
    by (auto simp: absLevels_def n fun_eq_iff newBucketList_def newLevel_def nextBucket_def isLive_def
        emptyFuture_def kNumLevels_def)
  have "list_ok env kf newBucketList"
    unfolding list_ok_def level_ok_def
    by (simp add: n newLevel_def emptyFuture_ok emptyFuture_idle) (simp add: newBucketList_def kNumLevels_def)
  then show ?thesis
    unfolding built_def a by (simp add: list_inv_def absorbs_def)
qed

lemma ledgerState_new: "ledgerState kf (newBucketList :: ('k, 'e) BucketLevel list) = Map.empty"
proof -
  have n: "i < 11 \<Longrightarrow> newBucketList ! i = newLevel i" for i by (simp add: newBucketList_def kNumLevels_def)
  have "lookFrom (absLevels kf (newBucketList :: ('k, 'e) BucketLevel list)) 0 = Map.empty"
    by (simp add: lookFrom_def upt_rec absLevels_def n newLevel_def newBucketList_def kNumLevels_def fun_eq_iff)
  then show ?thesis by (simp add: ledgerState_def fun_eq_iff)
qed

theorem addBatch_built:
  assumes "ident_order (entryIdCmp env) kf" "built env kf L levels" "L + half 9 + 1 < 2 ^ 32"
    "distinct (map (\<lambda>e. kf (LIVEENTRY e)) live)" "distinct (map (\<lambda>k. kf (DEADENTRY k)) dead)"
  shows "\<exists>levels'. addBatch env (of_nat (Suc L)) live dead levels = Inr levels' \<and> built env kf (Suc L) levels'
    \<and> ledgerState kf levels' = (\<lambda>i. case batchMap kf live dead i of
         Some e \<Rightarrow> liveOr None (Some e) | None \<Rightarrow> ledgerState kf levels i)"
proof -
  have u: "unat (of_nat (Suc L) :: u32) = Suc L" by (rule unat_of_nat_u32) (use assms(3) in simp)
  then have "0 < (of_nat (Suc L) :: u32)" by (metis unat_gt_0 word_neq_0_conv zero_less_Suc)
  then obtain levels' where l: "addBatch env (of_nat (Suc L)) live dead levels = Inr levels'" "list_ok env kf levels'"
      "absLevels kf levels' = batchLevels isDead (Suc L) (batchMap kf live dead) (absLevels kf levels)"
    using addBatch_refines [OF assms(1), of "of_nat (Suc L)" levels live dead] assms u by (auto simp: built_def)
  have inv: "list_inv isDead L (absLevels kf levels)" using assms(2) by (simp add: built_def)
  have "ledgerState kf levels' i = (case batchMap kf live dead i of
         Some e \<Rightarrow> liveOr None (Some e) | None \<Rightarrow> ledgerState kf levels i)" for i
    unfolding ledgerState_def liveOr_visible [of "lookFrom _ 0 i"] l(3) batchLevels_correct(2) [OF inv]
    by (cases "batchMap kf live dead i") (simp_all only: option.case liveOr_visible [symmetric])
  then show ?thesis
    using l batchLevels_correct(1) [OF inv] by (auto simp: built_def fun_eq_iff)
qed

text \<open>The effect of a batch on a ledger.\<close>

definition batchApply :: "('k \<Rightarrow> 'i) \<Rightarrow> ('e \<Rightarrow> 'k) \<Rightarrow> 'e list \<times> 'k list \<Rightarrow> ('i \<rightharpoonup> 'e) \<Rightarrow> ('i \<rightharpoonup> 'e)" where
  "batchApply ident key b M =
     (\<lambda>i. if i \<in> ident ` set (snd b) then None else (M ++ map_of (map (\<lambda>e. (ident (key e), e)) (fst b))) i)"

lemma batchMap_apply:
  fixes key :: "'e \<Rightarrow> 'k"
  shows "(case batchMap (entryIdent ident key) live dead i of Some e \<Rightarrow> liveOr None (Some e) | None \<Rightarrow> M i)
     = batchApply ident key (live, dead) M i"
proof -
  have l: "map_of (map (\<lambda>e. (ident (key e), LIVEENTRY e)) live) i
      = map_option LIVEENTRY (map_of (map (\<lambda>e. (ident (key e), e)) live) i)"
    by (induction live) auto
  have d: "\<exists>k. map_of (map (\<lambda>k. (ident k, DEADENTRY k :: ('k, 'e) BucketEntry)) dead) i
      = (if i \<in> ident ` set dead then Some (DEADENTRY k) else None)"
    by (induction dead) auto
  show ?thesis
    using d by (auto simp: batchMap_def batchApply_def map_add_def l split: option.splits)
qed

end
