(* ===== verification/Bucket_Check.thy ===== *)
theory Bucket_Check
  imports Bucket_Refinement
begin

text \<open>
  \<open>checkDBAgainstBuckets\<close> (\<open>src/src/bucket/Bucket.cpp\<close>): all buckets of the list are merged
  into one, every live entry of which is compared with the database, and the number of live
  entries of each type with the number of rows.

  The database is a map from the keys of the rows; \<open>countObjects\<close> is the \<open>COUNT(*)\<close> of the table
  of a type. Buckets identify entries by the identity of their keys, which may be coarser. The
  lemmas show that the merged bucket holds the ledger of the list and which databases the check
  accepts.
\<close>

section \<open>Definitions\<close>

definition compareSizes :: "u64 \<Rightarrow> u64 \<Rightarrow> cxx_error + unit" where
  "compareSizes inDatabase inBucketlist =
     (if inDatabase \<noteq> inBucketlist then Inl (RuntimeError ''object count mismatch'') else Inr ())"

text \<open>Step 3: scan the merged bucket, checking and counting its live entries.\<close>

fun compareObjects ::
  "('e \<Rightarrow> 'k) \<Rightarrow> ('e \<Rightarrow> LedgerEntryType) \<Rightarrow> ('k \<rightharpoonup> 'e) \<Rightarrow> ('k, 'e) bucket \<Rightarrow> (LedgerEntryType \<rightharpoonup> u64)
     \<Rightarrow> cxx_error + (LedgerEntryType \<rightharpoonup> u64)" where
  "compareObjects key typeOf db [] counters = Inr counters"
| "compareObjects key typeOf db (LIVEENTRY e # iter) counters =
     (let entryType = typeOf e;
          counters = (case counters entryType of
                        None \<Rightarrow> counters(entryType \<mapsto> 1)
                      | Some n \<Rightarrow> counters(entryType \<mapsto> n + 1)) in
      bindE (checkEntryAgainstDatabase key db e) (\<lambda>_. compareObjects key typeOf db iter counters))"
| "compareObjects key typeOf db (DEADENTRY k # iter) counters = compareObjects key typeOf db iter counters"

text \<open>The types in the order of the \<open>std::map\<close> of counters play no role in the outcome.\<close>

definition allTypes :: "LedgerEntryType list" where
  "allTypes = [ACCOUNT, FEE, BALANCE, PAYMENT_REQUEST, ASSET, ACCOUNT_TYPE_LIMITS, STATISTICS,
     REFERENCE_ENTRY, TRUST, ACCOUNT_LIMITS, ASSET_PAIR, OFFER_ENTRY, INVOICE, REVIEWABLE_REQUEST,
     EXTERNAL_SYSTEM_ACCOUNT_ID, SALE]"

definition checkDBAgainstBuckets ::
  "('k, 'e) bucket_env \<Rightarrow> ('e \<Rightarrow> 'k) \<Rightarrow> ('e \<Rightarrow> LedgerEntryType) \<Rightarrow> ('k \<rightharpoonup> 'e) \<Rightarrow> (LedgerEntryType \<Rightarrow> u64)
     \<Rightarrow> ('k, 'e) BucketLevel list \<Rightarrow> cxx_error + unit" where
  "checkDBAgainstBuckets env key typeOf db countObjects levels =
     bindE (superBucket env levels) (\<lambda>super.
     bindE (compareObjects key typeOf db super Map.empty) (\<lambda>counters.
       foldE (\<lambda>t _. case counters t of None \<Rightarrow> Inr () | Some n \<Rightarrow> compareSizes (countObjects t) n)
         allTypes ()))"

section \<open>The merged bucket holds the ledger\<close>

fun lookList :: "(('k, 'e) BucketEntry \<Rightarrow> 'i) \<Rightarrow> ('k, 'e) bucket list \<Rightarrow> 'i \<rightharpoonup> ('k, 'e) BucketEntry" where
  "lookList kf [] = Map.empty"
| "lookList kf (b # bs) = lookList kf bs ++ blookup kf b"

lemma lookList_append: "lookList kf (xs @ ys) = lookList kf ys ++ lookList kf xs"
  by (induction xs) (simp_all add: map_add_assoc)

lemma mergeBuckets_plain:
  assumes "ident_order cmp kf" "bucket_ok kf old" "bucket_ok kf new"
  shows "\<exists>b. mergeBuckets cmp old new [] True = Inr b \<and> bucket_ok kf b
    \<and> blookup kf b = blookup kf old ++ blookup kf new"
proof -
  have "mergeBuckets cmp old new [] True = Inr (filter (writes kf [] True) (overlay kf old new))"
    using mergeBuckets_overlay [OF assms, of "[]"] by simp
  moreover have "filter (writes kf [] True) (overlay kf old new) = overlay kf old new"
    by (rule filter_True) (simp add: writes_def)
  ultimately show ?thesis using bucket_ok_overlay [OF assms(2,3)] blookup_overlay [OF assms(2,3)] by simp
qed

lemma mergeAll_lookup:
  assumes "ident_order cmp kf" "bucket_ok kf s" "\<forall>b \<in> set bs. bucket_ok kf b"
  shows "\<exists>r. foldE (\<lambda>b super. mergeBuckets cmp b super [] True) bs s = Inr r \<and> bucket_ok kf r
    \<and> blookup kf r = lookList kf bs ++ blookup kf s"
  using assms(2,3)
proof (induction bs arbitrary: s)
  case (Cons b bs)
  obtain m where m: "mergeBuckets cmp b s [] True = Inr m" "bucket_ok kf m" "blookup kf m = blookup kf b ++ blookup kf s"
    using mergeBuckets_plain [OF assms(1), of b s] Cons.prems by auto
  then show ?case using Cons.IH [OF m(2)] Cons.prems by (auto simp: map_add_assoc)
qed simp

definition bucketsOf :: "('k, 'e) BucketLevel \<Rightarrow> ('k, 'e) bucket list" where
  "bucketsOf lev = (case nextBucket lev of Some b \<Rightarrow> [b] | None \<Rightarrow> []) @ [mCurr lev, mSnap lev]"

lemma levelBuckets_ok:
  assumes "level_ok env kf lev"
  shows "levelBuckets env lev = Inr (bucketsOf lev)" "\<forall>b \<in> set (bucketsOf lev). bucket_ok kf b"
proof -
  have "\<exists>fb b. isLive (mNextCurr lev) \<longrightarrow> resolve env (mNextCurr lev) = Inr (fb, b) \<and> nextBucket lev = Some b \<and> bucket_ok kf b"
    using assms resolve_ok [of env "mNextCurr lev"] by (fastforce simp: level_ok_def nextBucket_def)
  then show "levelBuckets env lev = Inr (bucketsOf lev)" "\<forall>b \<in> set (bucketsOf lev). bucket_ok kf b"
    using assms by (auto simp: levelBuckets_def bucketsOf_def nextBucket_def level_ok_def split: if_splits)
qed

lemma collect_levels:
  assumes "\<forall>lev \<in> set levels. level_ok env kf lev"
  shows "foldE (\<lambda>lev bs. bindE (levelBuckets env lev) (\<lambda>b. Inr (bs @ b))) levels acc
    = Inr (acc @ concat (map bucketsOf levels))"
  using assms
proof (induction levels arbitrary: acc)
  case (Cons lev levels)
  then show ?case using levelBuckets_ok(1) [of env kf lev] by simp
qed simp

text \<open>A lookup from level \<open>i\<close> on that also sees the merges in progress.\<close>

definition lookNext :: "('i, 'x) levels \<Rightarrow> nat \<Rightarrow> 'i \<rightharpoonup> 'x" where
  "lookNext st i = fold (\<lambda>n t. ((t ++ asnap st n) ++ acurr st n) ++ (case anext st n of Some b \<Rightarrow> b | None \<Rightarrow> Map.empty))
     (rev [i..<11]) Map.empty"

lemma lookNext_step:
  "i < 11 \<Longrightarrow> lookNext st i = ((lookNext st (Suc i) ++ asnap st i) ++ acurr st i)
     ++ (case anext st i of Some b \<Rightarrow> b | None \<Rightarrow> Map.empty)"
  by (simp add: lookNext_def upt_conv_Cons)

lemma next_agrees:
  assumes "list_inv dead L st" "j < 10" "anext st (Suc j) = Some b" "k \<notin> youngKeys st (Suc j)" "b k = Some e"
  shows "acurr st (Suc j) k = Some e"
proof -
  have "absorbs dead st j (pendingCurr L j (acurr st (Suc j)))" using assms(1,2) by (simp add: list_inv_def)
  then have "b k = kept dead (Suc j) ((pendingCurr L j (acurr st (Suc j)) ++ asnap st j) k)"
    using assms(3,4) by (simp add: absorbs_def youngKeys_Suc)
  moreover have "asnap st j k = None" using assms(4) by (auto simp: youngKeys_Suc)
  ultimately show ?thesis
    using assms(5) by (auto simp: kept_def visible_def pendingCurr_def map_add_def split: if_splits option.splits)
qed

lemma lookNext_visible:
  assumes "list_inv dead L st" "anext st 0 = None" "i \<le> 11" "k \<notin> youngKeys st i"
  shows "lookNext st i k = lookFrom st i k"
  using assms(3,4)
proof (induction "11 - i" arbitrary: i)
  case 0
  then show ?case by (simp add: lookNext_def lookFrom_def)
next
  case (Suc d)
  then have i: "i < 11" "d = 11 - Suc i" by auto
  have nx: "acurr st i k = Some e" if "(case anext st i of Some b \<Rightarrow> b | None \<Rightarrow> Map.empty) k = Some e" for e
  proof (cases i)
    case 0
    then show ?thesis using that assms(2) by simp
  next
    case (Suc j)
    then show ?thesis
      using that next_agrees [OF assms(1), of j] \<open>k \<notin> youngKeys st i\<close> i(1) by (auto split: option.splits)
  qed
  have rest: "lookNext st (Suc i) k = lookFrom st (Suc i) k" if "acurr st i k = None" "asnap st i k = None"
    using Suc.hyps(1) [OF i(2)] i(1) Suc.prems that by (auto simp: youngKeys_Suc)
  show ?case
    unfolding lookNext_step [OF i(1)] lookFrom_step [OF i(1)]
    using nx rest by (cases "acurr st i k"; cases "asnap st i k") (auto simp: map_add_def split: option.splits)
qed

lemma lookList_levels:
  assumes "length levels = 11" "i \<le> 11"
  shows "lookList kf (concat (map bucketsOf (drop i levels))) = lookNext (absLevels kf levels) i"
  using assms(2)
proof (induction "11 - i" arbitrary: i)
  case 0
  then show ?case using assms(1) by (simp add: lookNext_def)
next
  case (Suc d)
  then have i: "i < 11" "d = 11 - Suc i" by auto
  have "drop i levels = levels ! i # drop (Suc i) levels" using i assms(1) by (simp add: Cons_nth_drop_Suc)
  moreover have "lookList kf (bucketsOf (levels ! i)) = (blookup kf (mSnap (levels ! i)) ++ blookup kf (mCurr (levels ! i)))
      ++ (case anext (absLevels kf levels) i of Some b \<Rightarrow> b | None \<Rightarrow> Map.empty)"
    using i assms(1) by (auto simp: bucketsOf_def absLevels_def split: option.splits)
  ultimately show ?case
    unfolding lookNext_step [OF i(1)] using Suc.hyps(1) [OF i(2)] i assms(1)
    by (simp add: lookList_append map_add_assoc) (simp add: absLevels_def map_add_assoc)
qed

lemma superBucket_ledger:
  assumes "ident_order (entryIdCmp env) kf" "built env kf L levels"
  shows "\<exists>b. superBucket env levels = Inr b \<and> bucket_ok kf b
    \<and> (\<forall>i. liveOr None (blookup kf b i) = ledgerState kf levels i)"
proof -
  let ?bs = "concat (map bucketsOf levels)" and ?st = "absLevels kf levels"
  have len: "length levels = 11" and lev: "\<forall>lev \<in> set levels. level_ok env kf lev" and "anext ?st 0 = None"
    using assms(2) by (auto simp: built_def list_ok_def in_set_conv_nth absLevels_def nextBucket_def)
  then have look: "lookList kf ?bs i = lookFrom ?st 0 i" for i
    using lookList_levels [OF len, of 0 kf] lookNext_visible [of isDead L ?st 0 i] assms(2)
    by (simp add: built_def youngKeys_def)
  have "?bs \<noteq> []" using len by (cases levels) (auto simp: bucketsOf_def)
  then obtain b bs where b: "?bs = b # bs" by (meson neq_Nil_conv)
  have ok: "\<forall>b \<in> set ?bs. bucket_ok kf b" using lev levelBuckets_ok(2) by fastforce
  obtain r where "foldE (\<lambda>b super. mergeBuckets (entryIdCmp env) b super [] True) bs b = Inr r" "bucket_ok kf r"
      "blookup kf r = lookList kf bs ++ blookup kf b"
    using mergeAll_lookup [OF assms(1), of b bs] ok unfolding b by auto
  moreover have "superBucket env levels = foldE (\<lambda>b super. mergeBuckets (entryIdCmp env) b super [] True) bs b"
    using collect_levels [OF lev, of "[]"] b by (simp add: superBucket_def)
  ultimately show ?thesis using look unfolding ledgerState_def b by simp
qed

section \<open>What the check accepts\<close>

abbreviation liveOfType :: "('e \<Rightarrow> LedgerEntryType) \<Rightarrow> LedgerEntryType \<Rightarrow> ('k, 'e) bucket \<Rightarrow> ('k, 'e) bucket" where
  "liveOfType typeOf t b \<equiv> filter (\<lambda>x. \<exists>e. x = LIVEENTRY e \<and> typeOf e = t) b"

definition countFrom :: "('e \<Rightarrow> LedgerEntryType) \<Rightarrow> ('k, 'e) bucket \<Rightarrow> (LedgerEntryType \<rightharpoonup> u64) \<Rightarrow> (LedgerEntryType \<rightharpoonup> u64)" where
  "countFrom typeOf b counters = (\<lambda>t.
     if liveOfType typeOf t b = [] then counters t
     else Some ((case counters t of None \<Rightarrow> 0 | Some n \<Rightarrow> n) + of_nat (length (liveOfType typeOf t b))))"

lemma compareObjects_eq:
  "compareObjects key typeOf db b counters =
     (if \<forall>e. LIVEENTRY e \<in> set b \<longrightarrow> db (key e) = Some e then Inr (countFrom typeOf b counters)
      else Inl (RuntimeError ''Inconsistent state between objects: ''))"
proof (induction key typeOf db b counters rule: compareObjects.induct)
  case (1 key typeOf db counters)
  then show ?case by (simp add: countFrom_def)
next
  case (2 key typeOf db e iter counters)
  have "countFrom typeOf iter (case counters (typeOf e) of None \<Rightarrow> counters(typeOf e \<mapsto> 1) | Some n \<Rightarrow> counters(typeOf e \<mapsto> n + 1))
      = countFrom typeOf (LIVEENTRY e # iter) counters"
    by (auto simp: countFrom_def fun_eq_iff split: option.splits)
  then show ?case
    using 2 by (auto simp: checkEntryAgainstDatabase_def Let_def split: option.splits)
next
  case (3 key typeOf db k iter counters)
  then show ?case by (auto simp: countFrom_def fun_eq_iff)
qed

lemma allTypes_all: "set allTypes = UNIV"
proof -
  have "t \<in> set allTypes" for t by (cases t) (simp_all add: allTypes_def)
  then show ?thesis by blast
qed

lemma countFrom_fresh: "countFrom typeOf b Map.empty t =
   (if liveOfType typeOf t b = [] then None else Some (of_nat (length (liveOfType typeOf t b))))"
  by (simp add: countFrom_def)

lemma checkDB_counts:
  assumes "superBucket env levels = Inr b"
  shows "checkDBAgainstBuckets env key typeOf db countObjects levels = Inr () \<longleftrightarrow>
    (\<forall>e. LIVEENTRY e \<in> set b \<longrightarrow> db (key e) = Some e) \<and>
    (\<forall>t. liveOfType typeOf t b \<noteq> [] \<longrightarrow> countObjects t = of_nat (length (liveOfType typeOf t b)))"
proof -
  have "foldE (\<lambda>t _. case counters t of None \<Rightarrow> Inr () | Some n \<Rightarrow> compareSizes (countObjects t) n) allTypes () = Inr ()
    \<longleftrightarrow> (\<forall>t n. counters t = Some n \<longrightarrow> countObjects t = n)" for counters
    unfolding foldE_unit allTypes_all by (auto simp: compareSizes_def split: option.splits if_splits)
  then show ?thesis
    using assms by (simp add: checkDBAgainstBuckets_def compareObjects_eq countFrom_fresh)
qed

text \<open>The keys of the entries of a type in a map.\<close>

definition keysOfType :: "('e \<Rightarrow> LedgerEntryType) \<Rightarrow> LedgerEntryType \<Rightarrow> ('k \<rightharpoonup> 'e) \<Rightarrow> 'k set" where
  "keysOfType typeOf t M = {k. \<exists>e. M k = Some e \<and> typeOf e = t}"

lemma bucket_live_iff:
  assumes "bucket_ok kf b"
  shows "LIVEENTRY e \<in> set b \<longleftrightarrow> liveOr None (blookup kf b (kf (LIVEENTRY e))) = Some e"
proof -
  let ?x = "blookup kf b (kf (LIVEENTRY e))"
  have "LIVEENTRY e \<in> set b \<longleftrightarrow> ?x = Some (LIVEENTRY e)" unfolding blookup_Some [OF assms] by simp
  also have "\<dots> \<longleftrightarrow> liveOr None ?x = Some e" by (cases ?x rule: liveOr.cases [of "(None, _)", simplified]) auto
  finally show ?thesis .
qed

lemma pow_64: "(2::nat) ^ 64 = 18446744073709551616"
  by simp

text \<open>
  A ledger by identities as a table by keys: the row of a key is the entry of its identity, if the
  entry has that key.
\<close>

definition ledgerRows :: "('k \<Rightarrow> 'i) \<Rightarrow> ('e \<Rightarrow> 'k) \<Rightarrow> ('i \<rightharpoonup> 'e) \<Rightarrow> 'k \<rightharpoonup> 'e" where
  "ledgerRows ident key M k = (case M (ident k) of None \<Rightarrow> None | Some e \<Rightarrow> if key e = k then Some e else None)"

lemma ledgerRows_Some: "ledgerRows ident key M k = Some e \<longleftrightarrow> M (ident k) = Some e \<and> key e = k"
  by (auto simp: ledgerRows_def split: option.splits)

lemma liveOfType_keys:
  assumes "bucket_ok (entryIdent ident key) b" "\<And>i. liveOr None (blookup (entryIdent ident key) b i) = M i"
  shows "entryKey key ` set (liveOfType typeOf t b) = keysOfType typeOf t (ledgerRows ident key M)"
proof (intro set_eqI iffI)
  fix k assume "k \<in> entryKey key ` set (liveOfType typeOf t b)"
  then obtain e where "LIVEENTRY e \<in> set b" "typeOf e = t" "k = key e" by auto
  then show "k \<in> keysOfType typeOf t (ledgerRows ident key M)"
    using bucket_live_iff [OF assms(1), of e] assms(2) by (auto simp: keysOfType_def ledgerRows_Some)
next
  fix k assume "k \<in> keysOfType typeOf t (ledgerRows ident key M)"
  then obtain e where e: "M (ident k) = Some e" "key e = k" "typeOf e = t" by (auto simp: keysOfType_def ledgerRows_Some)
  then have "LIVEENTRY e \<in> set b" using bucket_live_iff [OF assms(1), of e] assms(2) by simp
  then show "k \<in> entryKey key ` set (liveOfType typeOf t b)"
    using e image_eqI [of k "entryKey key" "LIVEENTRY e"] by simp
qed

lemma liveOfType_card:
  assumes "bucket_ok (entryIdent ident key) b" "\<And>i. liveOr None (blookup (entryIdent ident key) b i) = M i"
  shows "length (liveOfType typeOf t b) = card (keysOfType typeOf t (ledgerRows ident key M))"
    "finite (keysOfType typeOf t (ledgerRows ident key M))"
proof -
  have keys: "entryKey key ` set (liveOfType typeOf t b) = keysOfType typeOf t (ledgerRows ident key M)"
    by (rule liveOfType_keys [OF assms])
  have "distinct (map (entryKey key) (liveOfType typeOf t b))"
    by (rule bucket_ok_keys [OF bucket_ok_filter [OF assms(1)]])
  then show "length (liveOfType typeOf t b) = card (keysOfType typeOf t (ledgerRows ident key M))"
    unfolding keys [symmetric] using distinct_card [of "map (entryKey key) (liveOfType typeOf t b)"] by simp
  show "finite (keysOfType typeOf t (ledgerRows ident key M))" unfolding keys [symmetric] by (intro finite_imageI List.finite_set)
qed

lemma lookFrom_source:
  "lookFrom st i k = Some x \<Longrightarrow> i \<le> 11 \<Longrightarrow> \<exists>n. acurr st n k = Some x \<or> asnap st n k = Some x"
proof (induction "11 - i" arbitrary: i)
  case (Suc d)
  then have i: "i < 11" "d = 11 - Suc i" by auto
  show ?case
    using Suc.prems(1) Suc.hyps(1) [OF i(2)] i(1) unfolding lookFrom_step [OF i(1)]
    by (auto simp: map_add_Some_iff)
qed (simp add: lookFrom_11)

lemma ledgerState_ident:
  assumes "ledgerState kf levels i = Some e"
  shows "kf (LIVEENTRY e) = i"
proof -
  obtain x where x: "lookFrom (absLevels kf levels) 0 i = Some x" "liveOr None (Some x) = Some e"
    using assms by (cases "lookFrom (absLevels kf levels) 0 i") (auto simp: ledgerState_def)
  obtain n where "acurr (absLevels kf levels) n i = Some x \<or> asnap (absLevels kf levels) n i = Some x"
    using lookFrom_source [OF x(1)] by auto
  then have "kf x = i" by (auto simp: absLevels_def dest!: blookup_SomeD split: if_splits)
  then show ?thesis using x(2) by (cases x) auto
qed

lemma u64_of_nat_eq:
  assumes "m < 2 ^ 64" "n < 2 ^ 64"
  shows "(of_nat m :: u64) = of_nat n \<longleftrightarrow> m = n"
proof
  assume "(of_nat m :: u64) = of_nat n"
  then have "unat (of_nat m :: u64) = unat (of_nat n :: u64)" by simp
  then show "m = n" using assms by (simp add: unat_of_nat_u64)
qed simp

lemma map_le_keyed:
  assumes "\<And>k e. M k = Some e \<Longrightarrow> key e = k"
  shows "(\<forall>e. M (key e) = Some e \<longrightarrow> db (key e) = Some e) \<longleftrightarrow> M \<subseteq>\<^sub>m db"
proof
  assume l: "\<forall>e. M (key e) = Some e \<longrightarrow> db (key e) = Some e"
  show "M \<subseteq>\<^sub>m db"
    unfolding map_le_def
  proof
    fix k assume "k \<in> dom M"
    then obtain e where e: "M k = Some e" by auto
    then show "M k = db k" using l assms [OF e] by auto
  qed
next
  assume "M \<subseteq>\<^sub>m db"
  then show "\<forall>e. M (key e) = Some e \<longrightarrow> db (key e) = Some e" by (metis domI map_le_def)
qed

lemma keysOfType_count:
  assumes "finite (dom db)" "card (dom db) < 2 ^ 64" "M \<subseteq>\<^sub>m db"
  shows "(of_nat (card (keysOfType typeOf t db)) :: u64) = of_nat (card (keysOfType typeOf t M)) \<longleftrightarrow>
    keysOfType typeOf t db = keysOfType typeOf t M"
proof -
  have sub: "keysOfType typeOf t M \<subseteq> keysOfType typeOf t db" and dom: "keysOfType typeOf t db \<subseteq> dom db"
    using assms(3) by (auto simp: keysOfType_def map_le_def dom_def)
  have f: "finite (keysOfType typeOf t db)" using dom assms(1) by (rule finite_subset)
  have "card (keysOfType typeOf t db) < 2 ^ 64" using card_mono [OF assms(1) dom] assms(2) by (rule le_less_trans)
  moreover from this have "card (keysOfType typeOf t M) < 2 ^ 64" using card_mono [OF f sub] by (rule le_less_trans [rotated])
  ultimately have "(of_nat (card (keysOfType typeOf t db)) :: u64) = of_nat (card (keysOfType typeOf t M)) \<longleftrightarrow>
      card (keysOfType typeOf t db) = card (keysOfType typeOf t M)" by (rule u64_of_nat_eq)
  then show ?thesis using card_subset_eq [OF f sub] by metis
qed

lemma checkDB_accepts:
  fixes ident :: "'k \<Rightarrow> 'i::linorder" and key :: "'e \<Rightarrow> 'k"
  defines "kf \<equiv> entryIdent ident key"
  assumes cmp: "ident_order (entryIdCmp env) kf" and b: "built env kf L levels"
    and db: "finite (dom db)" "card (dom db) < 2 ^ 64" "\<And>t. countObjects t = of_nat (card (keysOfType typeOf t db))"
  defines "R \<equiv> ledgerRows ident key (ledgerState kf levels)"
  shows "checkDBAgainstBuckets env key typeOf db countObjects levels = Inr () \<longleftrightarrow>
    R \<subseteq>\<^sub>m db \<and> (\<forall>t. keysOfType typeOf t R \<noteq> {} \<longrightarrow> keysOfType typeOf t db = keysOfType typeOf t R)"
proof -
  obtain s where s: "superBucket env levels = Inr s" "bucket_ok kf s" "\<And>i. liveOr None (blookup kf s i) = ledgerState kf levels i"
    using superBucket_ledger [OF cmp b] by blast
  have key: "key e = k" if "R k = Some e" for k e using that by (simp add: R_def ledgerRows_Some)
  have len: "length (liveOfType typeOf t s) = card (keysOfType typeOf t R)" and fin: "finite (keysOfType typeOf t R)" for t
    using liveOfType_card [OF s(2,3) [unfolded kf_def]] unfolding R_def kf_def by blast+
  have "liveOfType typeOf t s \<noteq> [] \<longleftrightarrow> keysOfType typeOf t R \<noteq> {}" for t
    using len [of t] card_0_eq [OF fin [of t]] by auto
  moreover have "(\<forall>e. LIVEENTRY e \<in> set s \<longrightarrow> db (key e) = Some e) \<longleftrightarrow> R \<subseteq>\<^sub>m db"
    unfolding bucket_live_iff [OF s(2)] s(3) using map_le_keyed [of R key db, OF key] by (simp add: R_def ledgerRows_Some kf_def)
  ultimately show ?thesis
    unfolding checkDB_counts [OF s(1)] len db(3) using keysOfType_count [OF db(1,2)] by meson
qed

end
