(* ===== verification/Bucket_Properties.thy ===== *)
theory Bucket_Properties
  imports Bucket_Check
begin

text \<open>
  The properties of the ledger storage: deltas, buckets, merges in progress and the bucket list.
\<close>

section \<open>The order of the repository\<close>

text \<open>
  The maps of a delta and the buckets are ordered by \<open>LedgerEntryIdCmp\<close>, whose identity is
  \<open>keyIdent\<close>. The numbers of the entry types are in a file that is not among the sources; a
  parameter \<open>tyv\<close> with different numbers for different types stands for them.
\<close>

abbreviation idCmp :: "(LedgerEntryType \<Rightarrow> int) \<Rightarrow> LedgerKey \<Rightarrow> LedgerKey \<Rightarrow> bool" where
  "idCmp tyv \<equiv> LedgerEntryIdCmp tyv lowerHex"

abbreviation idOf :: "(LedgerEntryType \<Rightarrow> int) \<Rightarrow> LedgerKey \<Rightarrow> int list list" where
  "idOf tyv \<equiv> keyIdent tyv lowerHex"

lemma ledger_order: "inj tyv \<Longrightarrow> key_order (idCmp tyv) (idOf tyv)"
  by unfold_locales (rule LedgerEntryIdCmp_ident)

lemma ledger_entries_order:
  "inj tyv \<Longrightarrow> ident_order (BucketEntryIdCmp (idCmp tyv) key) (entryIdent (idOf tyv) key)"
  by (rule key_order.ident_order_entries [OF ledger_order])

section \<open>An example of the parameters\<close>

text \<open>
  Entries are pairs of a key and a value. The hash of a bucket is its length, and the bucket
  manager finds the two buckets the examples archive.
\<close>

definition exampleEnv :: "(nat, nat \<times> nat) bucket_env" where
  "exampleEnv = \<lparr>entryIdCmp = BucketEntryIdCmp (<) fst, bucketHash = (\<lambda>b. of_nat (length b)),
     getBucketByHash = (\<lambda>h. if h = 0 then Some [] else if h = 1 then Some [DEADENTRY 1] else None)\<rparr>"

lemma exampleEnv_order: "ident_order (entryIdCmp exampleEnv) (entryKey fst)"
  by (simp add: exampleEnv_def ident_order_key)

text \<open>The same with the keys of the ledger and their order.\<close>

definition ledgerEnv :: "(LedgerKey, LedgerKey \<times> nat) bucket_env" where
  "ledgerEnv = \<lparr>entryIdCmp = BucketEntryIdCmp (idCmp positionValue) fst, bucketHash = (\<lambda>b. of_nat (length b)),
     getBucketByHash = (\<lambda>h. if h = 0 then Some [] else None)\<rparr>"

section \<open>Deltas\<close>

text \<open>
  C25. Nested ledger deltas have transaction semantics: whatever is registered in a delta and in
  deltas nested in it, the delta ends up describing the map of entries in which committed
  blocks have taken effect and dropped ones have not, and both of its change lists replay to
  that map. The maps are from the identities of keys: a script fits when it adds an entry only
  if there is none with the identity of its key, and changes or deletes only what is there.
\<close>
theorem delta_transactional:
  assumes "inj tyv" "fitsAll (idOf tyv \<circ> getKey) (map (identScript (idOf tyv)) xs) (B, h)"
  shows "\<exists>d. foldE (execScript (idCmp tyv) getKey) xs (newDelta h u) = Inr d
    \<and> applyDelta (identDelta (idOf tyv) d) B = fst (fold (specScript (idOf tyv \<circ> getKey)) (map (identScript (idOf tyv)) xs) (B, h))
    \<and> mCurrentHeader d = snd (fold (specScript (idOf tyv \<circ> getKey)) (map (identScript (idOf tyv)) xs) (B, h))
    \<and> replay (idOf tyv \<circ> getKey) (map (identChange (idOf tyv)) (getAllChanges d)) B = applyDelta (identDelta (idOf tyv) d) B
    \<and> replay (idOf tyv \<circ> getKey) (map (identChange (idOf tyv)) (getChanges (idCmp tyv) lastModified ledgerSeq d)) B
        = applyDelta (identDelta (idOf tyv) d) B"
proof -
  let ?k = "idOf tyv \<circ> getKey" and ?xs = "map (identScript (idOf tyv)) xs"
  have "tracks ?k B h B (newDelta h u)"
    using delta_ok_new [of ?k B h u] by (auto simp: tracks_def newDelta_def applyDelta_def)
  then obtain d' where d': "foldE (execScript (<) ?k) ?xs (newDelta h u) = Inr d'"
      "tracks ?k B (snd (fold (specScript ?k) ?xs (B, h))) (fst (fold (specScript ?k) ?xs (B, h))) d'"
    using execScript_tracks(2) [OF _ assms(2)] by blast
  have "identR (idOf tyv) (foldE (execScript (idCmp tyv) getKey) xs (newDelta h u)) = Inr d'"
    unfolding key_order.execScripts_ident [OF ledger_order [OF assms(1)]] identDelta_new by (rule d'(1))
  then obtain d where d: "foldE (execScript (idCmp tyv) getKey) xs (newDelta h u) = Inr d" "identDelta (idOf tyv) d = d'"
    by (cases "foldE (execScript (idCmp tyv) getKey) xs (newDelta h u)") auto
  have "delta_ok ?k B d'" using d'(2) by (simp add: tracks_def)
  then have "replay ?k (getAllChanges d') B = applyDelta d' B" "replay ?k (getChanges (<) lastModified ledgerSeq d') B = applyDelta d' B"
    using replay_getChanges [of ?k B d'] by (simp_all add: delta_ok_def getAllChanges_def)
  moreover have "map (identChange (idOf tyv)) (getAllChanges d) = getAllChanges d'" unfolding d(2) [symmetric] by (simp add: getAllChanges_def)
  moreover have "map (identChange (idOf tyv)) (getChanges (idCmp tyv) lastModified ledgerSeq d) = getChanges (<) lastModified ledgerSeq d'"
    unfolding d(2) [symmetric] by (rule key_order.getChanges_ident [OF ledger_order [OF assms(1)]])
  moreover have "mCurrentHeader d = mCurrentHeader d'" unfolding d(2) [symmetric] by simp
  ultimately show ?thesis using d d'(2) by (simp add: tracks_def)
qed

text \<open>A reference is deleted and one of another sender with the same text is added: one identity.\<close>

definition exampleScript :: "(LedgerKey, LedgerKey \<times> nat, nat) script list" where
  "exampleScript =
     [Add (AccountKey 1, 10), Block True [Mod (AccountKey 1, 11), Block False [Del (AccountKey 1), Add (AccountKey 2, 20)]],
      Block True [Del (ReferenceKey 1 [65]), Add (ReferenceKey 2 [65], 30)]]"

theorem delta_transactional_witness:
  "\<exists>d. foldE (execScript (idCmp positionValue) fst) exampleScript (newDelta 5 True) = Inr d
     \<and> map (applyDelta (identDelta (idOf positionValue) d) [idOf positionValue (ReferenceKey 1 [65]) \<mapsto> (ReferenceKey 1 [65], 70)] \<circ> idOf positionValue)
         [AccountKey 1, AccountKey 2, ReferenceKey 1 [65]]
       = [Some (AccountKey 1, 11), None, Some (ReferenceKey 2 [65], 30)]"
  using delta_transactional [OF positions.inj_tyv, of fst exampleScript "[idOf positionValue (ReferenceKey 1 [65]) \<mapsto> (ReferenceKey 1 [65], 70)]" 5 True "\<lambda>_. 0" "\<lambda>_. 0"]
  by (auto simp: exampleScript_def keyIdent_def)

text \<open>
  C35. Two references with the same text, of whatever senders, cannot be created in one delta: the
  second one ends the process at an assertion.
\<close>
theorem same_reference_aborts:
  assumes "getKey e1 = ReferenceKey s1 r" "getKey e2 = ReferenceKey s2 r"
  shows "foldE (execScript (LedgerEntryIdCmp tyv hex) getKey) [Add e1, Add e2] (newDelta h u) = Inl AssertFail"
  using assms
  by (simp add: addEntry_def newDelta_def checkState_def kset_member_def equivKeys_def LedgerEntryIdCmp_def sameTypeCmp_def Let_def)

theorem same_reference_aborts_witness:
  "foldE (execScript (idCmp positionValue) fst) [Add (ReferenceKey 1 [65], 10), Add (ReferenceKey 2 [65], 20)] (newDelta 5 True)
     = Inl AssertFail"
  using same_reference_aborts [of fst "(ReferenceKey 1 [65], 10)" 1 "[65]" "(ReferenceKey 2 [65], 20)" 2] by simp

text \<open>
  C30. Rolling a delta back makes the entry cache coherent again with the map the delta was based
  on, when it was coherent with the map the delta describes.
\<close>
theorem rollback_restores_cache:
  assumes "delta_ok getKey B d" "cache_ok (applyDelta d B) cache"
  shows "\<exists>d' cache'. rollback d cache = Inr (d', cache') \<and> cache_ok B cache'
    \<and> (\<forall>k. k \<notin> touched d \<longrightarrow> cache' k = cache k)
    \<and> checkState d' = Inl (RuntimeError ''Invalid operation: delta is already committed'')"
proof -
  let ?c = "cache |` (- touched d)"
  have "rollback d cache = Inr (d\<lparr>mHeaderSet := False\<rparr>, ?c)"
    using assms(1) rollback_cache [of d cache] by (simp add: delta_ok_def touched_def)
  moreover have "cache_ok B ?c"
    using assms(2) applyDelta_untouched [of _ d B]
    by (auto simp: cache_ok_def restrict_map_def touched_def split: if_splits)
  moreover have "\<forall>k. k \<notin> touched d \<longrightarrow> ?c k = cache k" by (simp add: restrict_map_def)
  ultimately show ?thesis by (auto simp: checkState_def)
qed

definition exampleLedger :: "nat \<rightharpoonup> nat \<times> nat" where
  "exampleLedger = [7 \<mapsto> (7, 70), 8 \<mapsto> (8, 80)]"

definition exampleDelta :: "(nat, nat \<times> nat, nat) LedgerDelta" where
  "exampleDelta = newDelta 0 True\<lparr>mDelete := [7], mAllChanges := [REMOVED 7]\<rparr>"

lemma exampleDelta_ok:
  "delta_ok fst exampleLedger exampleDelta" "applyDelta exampleDelta exampleLedger = [8 \<mapsto> (8, 80)]"
  by (auto simp: delta_ok_def exampleDelta_def exampleLedger_def newDelta_def keyed_def applyDelta_def
      oset_ok_def fun_eq_iff)

theorem rollback_restores_cache_witness:
  "\<exists>d' cache'. rollback exampleDelta [7 \<mapsto> None, 8 \<mapsto> Some (8, 80)] = Inr (d', cache')
     \<and> cache_ok exampleLedger cache'"
proof -
  have "cache_ok (applyDelta exampleDelta exampleLedger) [7 \<mapsto> None, 8 \<mapsto> Some (8, 80)]"
    by (simp add: exampleDelta_ok cache_ok_def)
  then show ?thesis using rollback_restores_cache [OF exampleDelta_ok(1)] by blast
qed



section \<open>Keys\<close>

text \<open>
  C34. The order of ledger keys is the lexicographic order of the type and the identity fields;
  two keys are identified when they are equal, or are two references that differ only in the
  sender.
\<close>
theorem ledger_key_order:
  assumes "inj tyv"
  shows "(LedgerEntryIdCmp tyv lowerHex a b \<longleftrightarrow> keyIdent tyv lowerHex a < keyIdent tyv lowerHex b)
    \<and> (\<not> LedgerEntryIdCmp tyv lowerHex a b \<and> \<not> LedgerEntryIdCmp tyv lowerHex b a \<longleftrightarrow> forgetSender a = forgetSender b)"
  unfolding LedgerEntryIdCmp_ident [OF assms] keyIdent_eq [OF assms inj_lowerHex, symmetric] by auto

theorem ledger_key_order_witness:
  "\<not> LedgerEntryIdCmp positionValue lowerHex (ReferenceKey 1 [65]) (ReferenceKey 2 [65])
   \<and> \<not> LedgerEntryIdCmp positionValue lowerHex (ReferenceKey 2 [65]) (ReferenceKey 1 [65])"
  using ledger_key_order [OF positions.inj_tyv, of "ReferenceKey 1 [65]" "ReferenceKey 2 [65]"] by auto

text \<open>
  C36. A batch with the references of two senders that have the same text keeps only one of
  them in the bucket it becomes.
\<close>
theorem reference_entries_collide:
  assumes "key e1 = ReferenceKey s1 r" "key e2 = ReferenceKey s2 r"
  shows "\<exists>e. (e = e1 \<or> e = e2) \<and> fresh (BucketEntryIdCmp (LedgerEntryIdCmp tyv hex) key) [e1, e2] [] = Inr [LIVEENTRY e]"
  using assms
  by (simp add: fresh_def stdSort_def put_def newOutput_def getBucket_def mergeBuckets_def maybe_put_def
      LedgerEntryIdCmp_def sameTypeCmp_def)

theorem reference_entries_collide_witness:
  "\<exists>e. (e = (1, 100) \<or> e = (2, 200 :: nat)) \<and>
     fresh (BucketEntryIdCmp (LedgerEntryIdCmp positionValue lowerHex) (\<lambda>e. ReferenceKey (fst e) [65]))
       [(1, 100), (2, 200)] [] = Inr [LIVEENTRY e]"
  using reference_entries_collide [of "\<lambda>e. ReferenceKey (fst e) [65]" "(1, 100)" 1 "[65]" "(2, 200)" 2] by simp

section \<open>Buckets\<close>

text \<open>
  C26. Merging two sorted buckets over sorted shadows gives a sorted bucket that holds, for every
  identity no shadow has, the entry of the new bucket if it has one and of the old one
  otherwise, except for tombstones when they are not kept.
\<close>
theorem merge_buckets_correct:
  assumes "ident_order cmp kf" "bucket_ok kf old" "bucket_ok kf new" "\<forall>s \<in> set shadows. bucket_ok kf s"
  shows "\<exists>b. mergeBuckets cmp old new shadows keepDead = Inr b \<and> bucket_ok kf b
    \<and> blookup kf b = (\<lambda>i. if shadowed kf shadows i then None
         else case (blookup kf old ++ blookup kf new) i of
                Some e \<Rightarrow> if keepDead \<or> \<not> isDead e then Some e else None | None \<Rightarrow> None)"
  using mergeBuckets_overlay [OF assms, of keepDead] filter_writes_lookup [OF assms(2,3), of shadows keepDead]
    bucket_ok_filter [OF bucket_ok_overlay [OF assms(2,3)]] by auto

theorem merge_buckets_correct_witness:
  "\<exists>b. mergeBuckets (BucketEntryIdCmp (<) fst) [LIVEENTRY (1, 10), LIVEENTRY (2, 20), LIVEENTRY (3, 30)]
         [DEADENTRY 2, LIVEENTRY (3, 31 :: nat)] [[DEADENTRY (1 :: nat)]] False = Inr b
     \<and> blookup (entryKey fst) b 3 = Some (LIVEENTRY (3, 31))"
  using merge_buckets_correct [OF ident_order_key, of fst "[LIVEENTRY (1, 10), LIVEENTRY (2, 20), LIVEENTRY (3, 30)]"
      "[DEADENTRY 2, LIVEENTRY (3, 31 :: nat)]" "[[DEADENTRY (1 :: nat)]]" False] by (force simp: map_add_def)



section \<open>Merges in progress\<close>

text \<open>
  C27. A merge of sorted buckets delivers: the constructor accepts them, none of the assertions of
  the class fails afterwards, and however often the future is resolved, before or after the worker
  has finished, the answer is the merge of its inputs, whose hash is then the output hash.
\<close>
theorem future_bucket_delivers:
  assumes "ident_order (entryIdCmp env) kf" "bucket_ok kf c" "bucket_ok kf s" "\<forall>b \<in> set shadows. bucket_ok kf b"
  shows "\<exists>b fb. mergeBuckets (entryIdCmp env) c s shadows keepDead = Inr b \<and> newFuture env c s shadows keepDead = Inr fb
    \<and> (\<forall>fb'. merge_run env fb fb' \<longrightarrow>
         (\<exists>ready. mergeComplete fb' = Inr ready) \<and> (\<exists>sf. saveFuture env fb' = Inr sf)
         \<and> (\<exists>fb''. resolve env fb' = Inr (fb'', b) \<and> mergeComplete fb'' = Inr True
              \<and> getOutputHash fb'' = Inr (bucketHash env b)))"
proof -
  obtain b where b: "mergeBuckets (entryIdCmp env) c s shadows keepDead = Inr b"
    using mergeBuckets_overlay [OF assms] by blast
  obtain fb where fb: "newFuture env c s shadows keepDead = Inr fb" "future_ok env fb" "isMerging fb"
      "futureGet (mOutputBucket fb) = Inr b"
    using newFuture_ok [of env c s shadows keepDead] b by auto
  have "(\<exists>ready. mergeComplete fb' = Inr ready) \<and> (\<exists>sf. saveFuture env fb' = Inr sf)
      \<and> (\<exists>fb''. resolve env fb' = Inr (fb'', b) \<and> mergeComplete fb'' = Inr True \<and> getOutputHash fb'' = Inr (bucketHash env b))"
    if "merge_run env fb fb'" for fb'
  proof -
    have ok: "future_ok env fb'" "isLive fb'" "futureGet (mOutputBucket fb') = Inr b"
      using merge_run_ok [OF that fb(2) _ fb(4)] fb(3) by (auto simp: isLive_def isMerging_def)
    obtain fb'' where r: "resolve env fb' = Inr (fb'', b)" "future_ok env fb''" "mState fb'' = FB_LIVE_OUTPUT"
        "mOutputBucket fb'' = Ready (Inr b)"
      using resolve_ok [OF ok] by blast
    then have "mergeComplete fb'' = Inr True" "getOutputHash fb'' = Inr (bucketHash env b)"
      using checkFutureState_live_output [of fb'' env]
      by (auto simp: mergeComplete_def isLive_def getOutputHash_def future_ok_def)
    then show ?thesis using r(1) ok future_ok_check [OF ok(1)] by (simp add: mergeComplete_def saveFuture_def)
  qed
  then show ?thesis using b fb(1) by blast
qed

theorem future_bucket_delivers_witness:
  "\<exists>b fb fb'. newFuture exampleEnv [LIVEENTRY (1, 10)] [DEADENTRY 1] [] False = Inr fb \<and>
     resolve exampleEnv (fb\<lparr>mOutputBucket := finishMerge (mOutputBucket fb)\<rparr>) = Inr (fb', b) \<and>
     getOutputHash fb' = Inr (bucketHash exampleEnv b)"
proof -
  note d = future_bucket_delivers [OF exampleEnv_order, of "[LIVEENTRY (1, 10)]" "[DEADENTRY 1]" "[]" False]
  then obtain b fb where fb: "newFuture exampleEnv [LIVEENTRY (1, 10)] [DEADENTRY 1] [] False = Inr fb"
      "\<forall>fb'. merge_run exampleEnv fb fb' \<longrightarrow> (\<exists>fb''. resolve exampleEnv fb' = Inr (fb'', b)
         \<and> getOutputHash fb'' = Inr (bucketHash exampleEnv b))"
    by (fastforce simp: bucket_ok_def)
  then show ?thesis using merge_worker [OF merge_start, of exampleEnv fb] by blast
qed

text \<open>
  C29. A merge that is archived and restarted succeeds; the restarted merge has the same inputs,
  but whether it keeps tombstones is not what the archived merge did: it is the value of a
  member that neither the default constructor nor \<open>load\<close> writes.
\<close>
theorem restart_merge_flag:
  assumes "future_ok env fb" "isLive fb" "stored env fb"
  shows "\<exists>fb'. restart env indeterminate fb = Inr fb' \<and> future_ok env fb' \<and> isLive fb' \<and>
    futureGet (mOutputBucket fb') =
      (if isMerging fb then mergeBuckets (entryIdCmp env) (the (mInputCurrBucket fb)) (the (mInputSnapBucket fb))
         (mInputShadowBuckets fb) indeterminate
       else futureGet (mOutputBucket fb))"
  by (rule restart_live [OF assms])

theorem restart_merge_flag_witness:
  "\<exists>fb fb'. newFuture exampleEnv [] [DEADENTRY 1] [] False = Inr fb \<and> futureGet (mOutputBucket fb) = Inr []
     \<and> restart exampleEnv True fb = Inr fb' \<and> futureGet (mOutputBucket fb') = Inr [DEADENTRY 1]"
proof -
  have h: "bucketHash exampleEnv [] = 0" "bucketHash exampleEnv [DEADENTRY 1] = 1"
    "getBucketByHash exampleEnv 0 = Some []" "getBucketByHash exampleEnv 1 = Some [DEADENTRY 1]"
    by (simp_all add: exampleEnv_def)
  have m: "mergeBuckets (entryIdCmp exampleEnv) [] [DEADENTRY 1] [] kd = Inr (if kd then [DEADENTRY 1] else [])" for kd
    by (simp add: mergeBuckets_def maybe_put_def put_def newOutput_def getBucket_def)
  obtain fb where fb: "newFuture exampleEnv [] [DEADENTRY 1] [] False = Inr fb" "future_ok exampleEnv fb" "isMerging fb"
      "futureGet (mOutputBucket fb) = Inr []"
    using newFuture_ok [of exampleEnv "[]" "[DEADENTRY 1]" "[]" False] m [of False] by auto
  have i: "mInputCurrBucket fb = Some [] \<and> mInputSnapBucket fb = Some [DEADENTRY 1] \<and> mInputShadowBuckets fb = []
      \<and> mOutputBucket fb = Running (Inr [])"
    using fb(1) m [of False] by (auto simp: newFuture_def startMerge_def Let_def elim!: bindE_runE)
  have "stored exampleEnv fb" using i h by (auto simp: stored_def)
  moreover have "isLive fb" using fb(3) by (simp add: isLive_def isMerging_def)
  ultimately obtain fb' where "restart exampleEnv True fb = Inr fb'" "futureGet (mOutputBucket fb') = Inr [DEADENTRY 1]"
    using restart_merge_flag [OF fb(2), of True] fb(3) i m [of True] by auto
  then show ?thesis using fb by blast
qed

section \<open>The bucket list\<close>

text \<open>
  C33. A level spills at the multiples of half its size, \<open>2 \<cdot> 4\<^sup>l\<close> ledgers for level \<open>l\<close>; the
  last level never does.
\<close>
theorem level_spill_schedule:
  assumes "level < kNumLevels"
  shows "levelShouldSpill ledger level = Inr (level < 10 \<and> 2 * 4 ^ level dvd unat ledger)"
  using levelShouldSpill_eq [OF assms] by (simp add: spills_def half_def)

theorem level_spill_schedule_witness: "levelShouldSpill 24 1 = Inr True"
  using level_spill_schedule [of 1 24] by (simp add: kNumLevels_def)

text \<open>The batches of consecutive ledgers, added one after the other.\<close>

fun addBatches ::
  "('k, 'e) bucket_env \<Rightarrow> nat \<Rightarrow> ('e list \<times> 'k list) list \<Rightarrow> ('k, 'e) BucketLevel list
     \<Rightarrow> cxx_error + ('k, 'e) BucketLevel list" where
  "addBatches env L [] levels = Inr levels"
| "addBatches env L ((live, dead) # bs) levels =
     bindE (addBatch env (of_nat (Suc L)) live dead levels) (addBatches env (Suc L) bs)"

lemma addBatches_built:
  assumes "ident_order (entryIdCmp env) (entryIdent ident key)" "built env (entryIdent ident key) L levels"
    "L + length bs + half 9 < 2 ^ 32"
    "\<forall>(live, dead) \<in> set bs. distinct (map (\<lambda>e. ident (key e)) live) \<and> distinct (map ident dead)"
  shows "\<exists>levels'. addBatches env L bs levels = Inr levels' \<and> built env (entryIdent ident key) (L + length bs) levels'
    \<and> ledgerState (entryIdent ident key) levels' = fold (batchApply ident key) bs (ledgerState (entryIdent ident key) levels)"
  using assms(2-)
proof (induction bs arbitrary: L levels)
  case (Cons b bs)
  obtain live dead where b: "b = (live, dead)" by (cases b)
  obtain l where l: "addBatch env (of_nat (Suc L)) live dead levels = Inr l" "built env (entryIdent ident key) (Suc L) l"
      "ledgerState (entryIdent ident key) l = batchApply ident key (live, dead) (ledgerState (entryIdent ident key) levels)"
    using addBatch_built [OF assms(1) Cons.prems(1), of live dead] Cons.prems(2,3) b
    unfolding batchMap_apply by auto
  show ?case using Cons.IH [OF l(2)] Cons.prems(2,3) l(1,3) b by simp
qed simp

text \<open>What a delta hands over: no identity occurs twice among the live entries, none among the dead keys.\<close>

definition batches_ok :: "('k \<Rightarrow> 'i) \<Rightarrow> ('e \<Rightarrow> 'k) \<Rightarrow> ('e list \<times> 'k list) list \<Rightarrow> bool" where
  "batches_ok ident key bs \<longleftrightarrow> length bs + 2 * 4 ^ 9 < 2 ^ 32
     \<and> (\<forall>(live, dead) \<in> set bs. distinct (map (\<lambda>e. ident (key e)) live) \<and> distinct (map ident dead))"

lemma addBatches_new:
  assumes "inj tyv" "entryIdCmp env = BucketEntryIdCmp (idCmp tyv) key" "batches_ok (idOf tyv) key bs"
  shows "\<exists>levels. addBatches env 0 bs newBucketList = Inr levels \<and> built env (entryIdent (idOf tyv) key) (length bs) levels
    \<and> ledgerState (entryIdent (idOf tyv) key) levels = fold (batchApply (idOf tyv) key) bs Map.empty"
proof -
  have "ident_order (entryIdCmp env) (entryIdent (idOf tyv) key)" using ledger_entries_order [OF assms(1)] assms(2) by simp
  from addBatches_built [OF this built_new, of 0 bs] show ?thesis
    using assms(3) by (auto simp: ledgerState_new half_def batches_ok_def)
qed

text \<open>
  C24. The bucket list holds the ledger: adding the batches of consecutive ledgers to an empty
  list never fails, as long as the ledger numbers stay clear of the 32-bit limit, and a lookup
  through the levels then sees exactly the entries left by those batches, in every phase of the
  merges. Entries are ordered by \<open>LedgerEntryIdCmp\<close>, and the ledger is a map from the identities
  of that order.
\<close>
theorem bucket_list_holds_ledger:
  assumes "inj tyv" "entryIdCmp env = BucketEntryIdCmp (idCmp tyv) key" "batches_ok (idOf tyv) key bs"
  shows "\<exists>levels. addBatches env 0 bs newBucketList = Inr levels \<and> length levels = kNumLevels
    \<and> ledgerState (entryIdent (idOf tyv) key) levels = fold (batchApply (idOf tyv) key) bs Map.empty"
  using addBatches_new [OF assms] by (auto simp: built_def list_ok_def kNumLevels_def)

definition exampleBatches :: "((LedgerKey \<times> nat) list \<times> LedgerKey list) list" where
  "exampleBatches =
     [([(AccountKey 1, 10), (ReferenceKey 1 [65], 20)], []), ([(AccountKey 1, 11)], [ReferenceKey 1 [65]]),
      ([(ReferenceKey 2 [65], 30)], []), ([(BalanceKey 3, 40)], []), ([], [BalanceKey 3])]"

lemma exampleBatches_ok:
  "entryIdCmp ledgerEnv = BucketEntryIdCmp (idCmp positionValue) fst" "batches_ok (idOf positionValue) fst exampleBatches"
  by (simp_all add: ledgerEnv_def batches_ok_def exampleBatches_def keyIdent_def)

theorem bucket_list_holds_ledger_witness:
  "\<exists>levels. addBatches ledgerEnv 0 exampleBatches newBucketList = Inr levels
     \<and> map (ledgerState (entryIdent (idOf positionValue) fst) levels \<circ> idOf positionValue)
         [AccountKey 1, ReferenceKey 1 [65], BalanceKey 3] = [Some (AccountKey 1, 11), Some (ReferenceKey 2 [65], 30), None]"
  using bucket_list_holds_ledger [OF positions.inj_tyv exampleBatches_ok]
  by (auto simp: exampleBatches_def batchApply_def keyIdent_def)

text \<open>
  C28. The check of the database against the buckets of a list that was built from the batches of
  consecutive ledgers accepts exactly the databases that contain the rows of the ledger of the
  list and have no other row of the types that occur in it; rows of a type without entries in the
  buckets are not looked at. Rows are found by the full key, of which an identity of the bucket
  list can cover several; the ledger of the list has the row of the last one only.
\<close>
theorem database_check_exact:
  assumes "inj tyv" "entryIdCmp env = BucketEntryIdCmp (idCmp tyv) key" "batches_ok (idOf tyv) key bs"
    "finite (dom db)" "card (dom db) < 2 ^ 64"
  shows "\<exists>levels. addBatches env 0 bs newBucketList = Inr levels \<and>
    (checkDBAgainstBuckets env key typeOf db (\<lambda>t. of_nat (card (keysOfType typeOf t db))) levels = Inr () \<longleftrightarrow>
     (let R = ledgerRows (idOf tyv) key (fold (batchApply (idOf tyv) key) bs Map.empty)
      in R \<subseteq>\<^sub>m db \<and> (\<forall>t. keysOfType typeOf t R \<noteq> {} \<longrightarrow> keysOfType typeOf t db = keysOfType typeOf t R)))"
proof -
  obtain levels where l: "addBatches env 0 bs newBucketList = Inr levels" "built env (entryIdent (idOf tyv) key) (length bs) levels"
      "ledgerState (entryIdent (idOf tyv) key) levels = fold (batchApply (idOf tyv) key) bs Map.empty"
    using addBatches_new [OF assms(1-3)] by blast
  have cmp: "ident_order (entryIdCmp env) (entryIdent (idOf tyv) key)" using ledger_entries_order [OF assms(1)] assms(2) by simp
  have "checkDBAgainstBuckets env key typeOf db (\<lambda>t. of_nat (card (keysOfType typeOf t db))) levels = Inr () \<longleftrightarrow>
      (let R = ledgerRows (idOf tyv) key (ledgerState (entryIdent (idOf tyv) key) levels)
       in R \<subseteq>\<^sub>m db \<and> (\<forall>t. keysOfType typeOf t R \<noteq> {} \<longrightarrow> keysOfType typeOf t db = keysOfType typeOf t R))"
    unfolding Let_def by (rule checkDB_accepts [OF cmp l(2) assms(4,5)]) simp
  then show ?thesis using l(1) unfolding l(3) by blast
qed

definition exampleRows :: "LedgerKey \<rightharpoonup> LedgerKey \<times> nat" where
  "exampleRows = [AccountKey 1 \<mapsto> (AccountKey 1, 11), ReferenceKey 2 [65] \<mapsto> (ReferenceKey 2 [65], 30), BalanceKey 7 \<mapsto> (BalanceKey 7, 50)]"

theorem database_check_exact_witness:
  "\<exists>levels. addBatches ledgerEnv 0 exampleBatches newBucketList = Inr levels \<and>
     checkDBAgainstBuckets ledgerEnv fst (keyType \<circ> fst) exampleRows
       (\<lambda>t. of_nat (card (keysOfType (keyType \<circ> fst) t exampleRows))) levels = Inr ()"
proof -
  let ?R = "ledgerRows (idOf positionValue) fst (fold (batchApply (idOf positionValue) fst) exampleBatches Map.empty)"
  have R: "?R k = (if k = AccountKey 1 then Some (AccountKey 1, 11)
      else if k = ReferenceKey 2 [65] then Some (ReferenceKey 2 [65], 30) else None)" for k
    by (cases k) (auto simp: ledgerRows_def exampleBatches_def batchApply_def keyIdent_def split: option.splits)
  have "?R \<subseteq>\<^sub>m exampleRows" by (auto simp: map_le_def R exampleRows_def)
  moreover have "keysOfType (keyType \<circ> fst) t ?R \<noteq> {} \<Longrightarrow> keysOfType (keyType \<circ> fst) t exampleRows = keysOfType (keyType \<circ> fst) t ?R" for t
    by (auto simp: keysOfType_def R exampleRows_def split: if_splits)
  moreover have "finite (dom exampleRows)" "card (dom exampleRows) < 2 ^ 64" by (simp_all add: exampleRows_def)
  ultimately show ?thesis
    using database_check_exact [OF positions.inj_tyv exampleBatches_ok, of exampleRows "keyType \<circ> fst"] by (auto simp: Let_def)
qed

end
