(* ===== verification/Tx_Set.thy ===== *)
theory Tx_Set
  imports Prelude Std_Sort
begin

text \<open>
  \<open>src/src/herder/TxSetFrame.cpp\<close>: the transaction set the network agrees on, its hash, the
  order in which it is applied, and the filters that make a proposed set valid.

  \<open>'t\<close> is the type of transaction pointers. What the set reads of a transaction, and its
  validity against the last closed ledger, are fields of the environment, as is the SHA-256
  of a list of envelopes. \<open>std::sort\<close> is a field too, any function that satisfies the contract of
  the locale \<open>sorting\<close>, so that the lemmas hold for every implementation of it.

  The lemmas show that the application order is a permutation that respects the salts of each
  account and does not depend on \<open>std::sort\<close>, and that the filters make a set valid.
\<close>

section \<open>Definitions\<close>


record 't TxSetFrame =
  mHashIsValid :: bool
  mHash :: hash256
  mPreviousLedgerHash :: hash256
  mTransactions :: "'t list"

definition newTxSet :: "hash256 \<Rightarrow> 't TxSetFrame" where
  "newTxSet previousLedgerHash =
     \<lparr>mHashIsValid = False, mHash = 0, mPreviousLedgerHash = previousLedgerHash, mTransactions = []\<rparr>"

text \<open>The set a node receives, its transactions made from the wire by \<open>makeTransactionFromWire\<close>,
  and the set it sends.\<close>

definition txSetOfXDR :: "('x \<Rightarrow> 't) \<Rightarrow> hash256 \<Rightarrow> 'x list \<Rightarrow> 't TxSetFrame" where
  "txSetOfXDR makeTransaction previousLedgerHash txs =
     fold (\<lambda>x ts. ts\<lparr>mTransactions := mTransactions ts @ [makeTransaction x]\<rparr>) txs (newTxSet 0)
       \<lparr>mPreviousLedgerHash := previousLedgerHash\<rparr>"

definition toXDR :: "('t \<Rightarrow> 'x) \<Rightarrow> 't TxSetFrame \<Rightarrow> hash256 \<times> 'x list" where
  "toXDR getEnvelope ts = (mPreviousLedgerHash ts, map getEnvelope (mTransactions ts))"

text \<open>The reference returned by the non-constant \<open>previousLedgerHash\<close>, assigned to.\<close>

definition assignPreviousLedgerHash :: "hash256 \<Rightarrow> 't TxSetFrame \<Rightarrow> 't TxSetFrame" where
  "assignPreviousLedgerHash h ts = ts\<lparr>mHashIsValid := False, mPreviousLedgerHash := h\<rparr>"






definition addTransaction :: "'t \<Rightarrow> 't TxSetFrame \<Rightarrow> 't TxSetFrame" where
  "addTransaction tx ts = ts\<lparr>mTransactions := mTransactions ts @ [tx], mHashIsValid := False\<rparr>"

definition removeTx :: "'t \<Rightarrow> 't TxSetFrame \<Rightarrow> 't TxSetFrame" where
  "removeTx tx ts = ts\<lparr>mTransactions := remove1 tx (mTransactions ts), mHashIsValid := False\<rparr>"












section \<open>The comparisons\<close>



section \<open>The batches\<close>





lemma concat_replicate_Nil [simp]: "concat (replicate n []) = []"
  by (induction n) auto






section \<open>The application order\<close>






section \<open>Independence of the sorting function\<close>











section \<open>The filters\<close>

lemma removeTx_simps [simp]:
  "mTransactions (removeTx tx ts) = remove1 tx (mTransactions ts)"
  "mPreviousLedgerHash (removeTx tx ts) = mPreviousLedgerHash ts"
  by (simp_all add: removeTx_def)














section \<open>Properties\<close>









end
