(* ===== verification/Spec2Isabelle.thy ===== *)
theory Spec2Isabelle
  imports SCP_Properties Nomination_Properties Bucket_Properties Tx_Set
begin

text \<open>
  A verification library for SwarmCore, the validator of a replicated ledger written in C++
  (\<open>src/src\<close>). The nodes of a network agree, ledger by ledger, on a set of transactions by the
  consensus protocol SCP; each applies the set to its entries through nested deltas, and keeps
  the entries in a list of sorted files, the bucket list, whose hash every node must compute
  alike. The development models these parts as functions that can be evaluated, written in the
  order of the sources, and proves what makes them correct.

  \<^bold>\<open>Conventions.\<close> The C++ integers are words where they may wrap and \<open>int\<close> or \<open>nat\<close> where they
  cannot or where overflow is a branch of its own. A function that can throw, abort or
  dereference null returns a sum whose left values are the errors (\<open>cxx_error\<close>), sequenced by
  \<open>bindE\<close>. \<open>std::map\<close> and \<open>std::set\<close> are sorted lists; with a comparison of their own they
  are the containers of \<open>Key_Map\<close>, for which two keys that the comparison does not separate
  are one key. What the sources call and do not contain is a parameter: the driver of SCP, hashes
  (\<open>SHA-256\<close>), the XDR enumerations, the validity of a transaction, \<open>std::sort\<close>.

  \<^bold>\<open>Shared theories.\<close>
  \<^item> \<open>Prelude\<close>: machine types, errors, sorted maps and sets, lemma collections.
  \<^item> \<open>Key_Map\<close>: containers with a comparison; the locale \<open>key_order\<close> says that the comparison is
    the order of an identity of keys and carries every operation over to maps from identities.
  \<^item> \<open>Std_Sort\<close>: the promise of \<open>std::sort\<close> as the locale \<open>sorting\<close>.
  \<^item> \<open>Util_Types\<close>: \<open>util/types.cpp\<close>, \<open>bigDivide\<close>, \<open>safeSum\<close> and the string and flag tests.

  \<^bold>\<open>Quorum sets\<close> (\<open>scp/LocalNode.cpp\<close>). \<open>Local_Node\<close> has every operation on quorum sets with its
  loops and counters. \<open>Quorum_Logic\<close> gives them their meaning: \<open>sat q S\<close> says that \<open>S\<close> contains
  a slice of \<open>q\<close>; the threshold test decides it, the blocking test decides its dual, \<open>isQuorum\<close>
  finds the largest quorum inside a set of statements (locale \<open>slice_system\<close>), normalisation
  keeps the meaning, and \<open>isNodeInQuorum\<close> ends and decides reachability.

  \<^bold>\<open>The ballot protocol\<close> (\<open>scp/BallotProtocol.cpp\<close>). \<open>SCP_Types\<close> has the messages,
  \<open>Slot_State\<close> the members of \<open>Slot\<close>, \<open>BallotProtocol\<close> and \<open>NominationProtocol\<close> as one record,
  the environment and the trace of calls on the driver. \<open>Ballot_Statements\<close> and
  \<open>Ballot_Protocol\<close> model the functions of the file one by one. \<open>Ballot_Order\<close>: ballots and
  statements are linearly ordered (locale \<open>statement_order\<close>). \<open>Ballot_Invariants\<close> and
  \<open>Ballot_Steps\<close>: every operation keeps \<open>slot_inv\<close> and moves the slot by a \<open>ballot_step\<close>; the
  recursive call through \<open>Slot::processEnvelope\<close> is the interface \<open>slot_process\<close>, interpreted on
  the model's own recursion. \<open>Ballot_Termination\<close>: the recursion ends. Its depth is bounded by
  \<open>MAX_ADVANCE_SLOT_RECURSION\<close> (50), which is the fuel of the model, and \<open>Diverges\<close> is never a result.

  \<^bold>\<open>The nomination protocol\<close> (\<open>scp/NominationProtocol.cpp\<close>). \<open>Nomination_Protocol\<close> is a
  \<open>partial_function\<close> because nothing in the source bounds the recursion; \<open>Slot_Operations\<close> has
  \<open>scp/Slot.cpp\<close> and \<open>scp/SCP.cpp\<close>. \<open>Nomination_Invariants\<close> and \<open>Slot_Invariants\<close>: votes, accepted
  values and candidates only grow, the recursion ends, and every call on a slot keeps
  \<open>full_inv\<close>.

  \<^bold>\<open>Consensus.\<close> \<open>SCP_Agreement\<close> runs one slot on a network in which the nodes of a set \<open>H\<close>
  run the model and all others may send anything, and shows agreement for networks whose quorums
  intersect in \<open>H\<close>. \<open>SCP_Properties\<close> and \<open>Nomination_Properties\<close> state the properties of one node:
  at most one value is externalized, every call returns, emitted statements increase, a rejected
  envelope has no effect, a slot can be restored from its envelopes, the protocol object
  routes a call to one slot, and the exceptions at the boundaries of the counters. Their
  hypotheses are well-formed quorum sets and drivers (\<open>env_ok\<close>, \<open>net_ok\<close>); \<open>Example_Network\<close>
  has two validators at which they hold.

  \<^bold>\<open>Deltas and keys\<close> (\<open>ledger/LedgerDelta.cpp\<close>, \<open>bucket/LedgerCmp.h\<close>). \<open>Ledger_Keys\<close> models
  \<open>LedgerEntryIdCmp\<close> and shows that it is the lexicographic order of an identity of the key,
  which for references leaves out the sender. \<open>Ledger_Delta\<close> has every operation of a delta with
  that comparison; a delta is the composition of updates of a map, a nested commit is the
  composition of two deltas, a rollback leaves no trace in the entry cache.

  \<^bold>\<open>Buckets\<close> (\<open>bucket\<close>). \<open>Bucket\<close>: iterators, \<open>merge\<close>, \<open>fresh\<close>, \<open>apply\<close>. \<open>Future_Bucket\<close>:
  merges in the background and their restart. \<open>Bucket_List\<close>: levels, spills, \<open>addBatch\<close>.
  \<open>Bucket_Spill\<close> states the bucket list as maps with an invariant about merges in progress, and
  \<open>Bucket_Refinement\<close> shows that the code implements it: what a lookup sees in the list is the
  ledger. It is assumed that ledger numbers stay below \<open>2 ^ 32\<close> by the size of the last level,
  beyond which the level arithmetic of the source wraps. \<open>Bucket_Check\<close>:
  \<open>checkDBAgainstBuckets\<close>. \<open>Bucket_Properties\<close> collects the properties for the comparison of the
  repository; their hypothesis on the enumeration of entry types is that its values differ.

  \<^bold>\<open>Transaction sets\<close> (\<open>herder/TxSetFrame.cpp\<close>). \<open>Tx_Set\<close>: the contents hash, the order of
  application, the filters and the validity of a set. The order does not depend on the order in
  which transactions arrived or on the implementation of \<open>std::sort\<close>, and a filtered set is valid.

  \<^bold>\<open>Not modelled.\<close> The herder's queues, the ledger manager, the entry tables and the operations on
  them, history archives, the overlay network, processes, configuration and the HTTP
  interface are not modelled: they are I/O, or business rules over SQL tables. Within the
  modelled files, functions that only print, log or count (\<open>dumpInfo\<close>, \<open>markMeters\<close>) and the
  retention of bucket files on disk are left out.
\<close>

end
